(* ===== verification/Prelude.thy ===== *)
theory Prelude
  imports Main "HOL-Library.Word"
begin

text \<open>
  Shared vocabulary of the development.

  \<^item> machine integers: the crates use \<open>u8\<close>, \<open>u32\<close> and, on amd64, a 64-bit \<open>usize\<close>;
  \<^item> \<open>fault\<close>: every way the modelled Rust code can go wrong.  The first group is undefined
    behaviour of the \<open>unsafe\<close> code (the source does not check for it), the second group is a
    panic the source or the language raises;
  \<^item> \<open>res\<close>: the result of a fallible operation, \<open>Inl\<close> a fault and \<open>Inr\<close> a value, with the
    sequencing operator \<open>bind_r\<close>;
  \<^item> the generic lemmas on lists and words that the components share, collected in
    \<open>res_simps\<close>, \<open>word_facts\<close> and \<open>list_facts\<close>.
\<close>

unbundle bit_operations_syntax

type_synonym u8 = "8 word"
type_synonym u32 = "32 word"
type_synonym usize = "64 word"
type_synonym addr = nat
type_synonym tid = nat

abbreviation (input) null :: addr where
  "null \<equiv> 0"

datatype fault =
    Null_deref | Use_after_free | Uninit_read | Use_after_drop | Type_confusion | Out_of_bounds
  | Panic_assert | Panic_overflow | Panic_div_zero | Panic_unwrap | Panic_index | Panic_unreachable

type_synonym 'a res = "fault + 'a"

definition bind_r :: "'a res \<Rightarrow> ('a \<Rightarrow> 'b res) \<Rightarrow> 'b res" where
  "bind_r m f = (case m of Inl e \<Rightarrow> Inl e | Inr x \<Rightarrow> f x)"

named_theorems res_simps "evaluation and inversion of fallible computations"
named_theorems word_facts "masks, shifts and wrap-around of the machine integers"
named_theorems list_facts "lists updated by index, and their multisets"

lemma bind_r_simps [simp, res_simps]:
  "bind_r (Inl e) f = Inl e"
  "bind_r (Inr x) f = f x"
  by (simp_all add: bind_r_def)

lemma bind_r_Inr_iff [res_simps]:
  "bind_r m f = Inr y \<longleftrightarrow> (\<exists>x. m = Inr x \<and> f x = Inr y)"
  by (cases m) auto

lemma bind_r_assoc: "bind_r (bind_r m f) g = bind_r m (\<lambda>x. bind_r (f x) g)"
  by (cases m) auto

lemma bind_r_cong [fundef_cong]:
  "m = m' \<Longrightarrow> (\<And>x. m' = Inr x \<Longrightarrow> f x = g x) \<Longrightarrow> bind_r m f = bind_r m' g"
  by (cases m') auto

text \<open>
  Rust's \<open>+\<close> and \<open>-\<close> on unsigned integers panic on overflow in a build with overflow checks
  (\<open>Panic_overflow\<close>); the atomic \<open>fetch_add\<close> and \<open>fetch_sub\<close> always wrap around.
\<close>

definition add_checked :: "'w::len word \<Rightarrow> 'w word \<Rightarrow> 'w word res" where
  "add_checked a b = (if unat a + unat b < 2 ^ LENGTH('w) then Inr (a + b) else Inl Panic_overflow)"

definition sub_checked :: "'w::len word \<Rightarrow> 'w word \<Rightarrow> 'w word res" where
  "sub_checked a b = (if b \<le> a then Inr (a - b) else Inl Panic_overflow)"

definition mod_checked :: "'w::len word \<Rightarrow> 'w word \<Rightarrow> 'w word res" where
  "mod_checked a b = (if b = 0 then Inl Panic_div_zero else Inr (a mod b))"

text \<open>An unchecked slice access: out of range it is undefined behaviour.\<close>

definition get_unchecked :: "'a list \<Rightarrow> nat \<Rightarrow> 'a res" where
  "get_unchecked xs i = (if i < length xs then Inr (xs ! i) else Inl Out_of_bounds)"

text \<open>A checked slice access (\<open>xs[i]\<close>): out of range it panics.\<close>

definition index_checked :: "'a list \<Rightarrow> nat \<Rightarrow> 'a res" where
  "index_checked xs i = (if i < length xs then Inr (xs ! i) else Inl Panic_index)"

lemma get_unchecked_Inr [res_simps]:
  "get_unchecked xs i = Inr x \<longleftrightarrow> i < length xs \<and> x = xs ! i"
  by (auto simp: get_unchecked_def)

lemma index_checked_Inr [res_simps]:
  "index_checked xs i = Inr x \<longleftrightarrow> i < length xs \<and> x = xs ! i"
  by (auto simp: index_checked_def)

lemma mod_checked_Inr [res_simps]:
  "mod_checked a b = Inr c \<longleftrightarrow> b \<noteq> 0 \<and> c = a mod b"
  by (auto simp: mod_checked_def)

lemma unat_mod_less: "(b :: 'w::len word) \<noteq> 0 \<Longrightarrow> unat (a mod b) < unat b"
  by (simp add: unat_mod unat_gt_0)

lemma concat_update_Cons [list_facts]:
  assumes "i < length xss"
  shows "set (concat (xss[i := ys])) =
    set (concat (take i xss)) \<union> set ys \<union> set (concat (drop (Suc i) xss))"
  using assms by (simp add: upd_conv_take_nth_drop Un_assoc)

lemma sum_upd:
  fixes f :: "'b \<Rightarrow> nat" and n :: nat
  shows "w < n \<Longrightarrow> (\<Sum>v<n. f ((g(w := x)) v)) + f (g w) = (\<Sum>v<n. f (g v)) + f x"
proof -
  assume "w < n"
  then have w: "finite {..<n}" "w \<in> {..<n}" by auto
  have "(\<Sum>v\<in>{..<n} - {w}. f ((g(w := x)) v)) = (\<Sum>v\<in>{..<n} - {w}. f (g v))" by (intro sum.cong) auto
  then show ?thesis using sum.remove[OF w, of "\<lambda>v. f (g v)"] sum.remove[OF w, of "\<lambda>v. f ((g(w := x)) v)"]
    by simp
qed

end
