(* ===== verification/Transition.thy ===== *)
theory Transition
  imports Prelude
begin

text \<open>
  Interleaved execution.  A concurrent component is a set of start states and a step relation whose
  steps are the atomic actions of its threads; \<open>reach\<close> are the states any interleaving can lead
  to.  The locale \<open>inductive_invariant\<close> is the contract of an invariant, interpreted by every
  concurrent component; \<open>run\<close> replays a schedule through an executable step function.
\<close>

inductive reach :: "('s \<Rightarrow> bool) \<Rightarrow> ('s \<Rightarrow> 's \<Rightarrow> bool) \<Rightarrow> 's \<Rightarrow> bool"
  for init :: "'s \<Rightarrow> bool" and step :: "'s \<Rightarrow> 's \<Rightarrow> bool" where
  reach_init: "init s \<Longrightarrow> reach init step s"
| reach_step: "reach init step s \<Longrightarrow> step s t \<Longrightarrow> reach init step t"

fun run :: "('l \<Rightarrow> 's \<Rightarrow> 's option) \<Rightarrow> 'l list \<Rightarrow> 's \<Rightarrow> 's option" where
  "run f [] s = Some s"
| "run f (l # ls) s = (case f l s of None \<Rightarrow> None | Some t \<Rightarrow> run f ls t)"

definition enabled :: "('l \<Rightarrow> 's \<Rightarrow> 's option) \<Rightarrow> 's \<Rightarrow> 's \<Rightarrow> bool" where
  "enabled f s t \<longleftrightarrow> (\<exists>l. f l s = Some t)"

locale inductive_invariant =
  fixes init :: "'s \<Rightarrow> bool" and step :: "'s \<Rightarrow> 's \<Rightarrow> bool" and inv :: "'s \<Rightarrow> bool"
  assumes inv_init: "init s \<Longrightarrow> inv s"
    and inv_step: "inv s \<Longrightarrow> step s t \<Longrightarrow> inv t"
begin

lemma reach_inv: "reach init step s \<Longrightarrow> inv s"
  by (induction rule: reach.induct) (auto intro: inv_init inv_step)

lemma steps_inv: "step\<^sup>*\<^sup>* s t \<Longrightarrow> inv s \<Longrightarrow> inv t"
  by (induction rule: rtranclp_induct) (auto intro: inv_step)

end

lemma reach_steps: "reach init step s \<Longrightarrow> step\<^sup>*\<^sup>* s t \<Longrightarrow> reach init step t"
  by (rotate_tac, induction rule: rtranclp_induct) (auto intro: reach_step)

lemma run_steps: "run f ls s = Some t \<Longrightarrow> (enabled f)\<^sup>*\<^sup>* s t"
proof (induction ls arbitrary: s)
  case (Cons l ls)
  then obtain u where "enabled f s u" and "run f ls u = Some t"
    by (auto simp: enabled_def split: option.splits)
  with Cons.IH show ?case by (auto intro: converse_rtranclp_into_rtranclp)
qed simp

lemma reach_run: "init s \<Longrightarrow> run f ls s = Some t \<Longrightarrow> reach init (enabled f) t"
  by (rule reach_steps [OF reach_init run_steps])

lemma run_relpow: "run f ls s = Some t \<Longrightarrow> (enabled f ^^ length ls) s t"
proof (induction ls arbitrary: s)
  case (Cons l ls)
  then obtain u where "enabled f s u" "run f ls u = Some t" by (auto simp: enabled_def split: option.splits)
  with Cons.IH[of u] relpowp_Suc_I2[of "enabled f" s u "length ls" t] show ?case by simp
qed simp

text \<open>
  Progress along every execution: \<open>avoiding step helpful goal k s t\<close> when \<open>t\<close> is reached from \<open>s\<close> by any steps
  through states outside \<open>goal\<close> only, and \<open>k\<close> of the steps are \<open>helpful\<close>.  A bound on \<open>k\<close> says that no
  execution takes more helpful steps than that without a visit of \<open>goal\<close>.
\<close>

inductive avoiding :: "('s \<Rightarrow> 's \<Rightarrow> bool) \<Rightarrow> ('s \<Rightarrow> 's \<Rightarrow> bool) \<Rightarrow> ('s \<Rightarrow> bool) \<Rightarrow> nat \<Rightarrow> 's \<Rightarrow> 's \<Rightarrow> bool"
  for step helpful :: "'s \<Rightarrow> 's \<Rightarrow> bool" and goal :: "'s \<Rightarrow> bool" where
  avoiding_start: "\<not> goal s \<Longrightarrow> avoiding step helpful goal 0 s s"
| avoiding_step: "avoiding step helpful goal k s t \<Longrightarrow> step t u \<Longrightarrow> \<not> goal u \<Longrightarrow>
    avoiding step helpful goal (if helpful t u then Suc k else k) s u"

lemma avoiding_bound:
  assumes "avoiding step helpful goal k s t" and "ok s"
    and keep: "\<And>t u. ok t \<Longrightarrow> step t u \<Longrightarrow> \<not> goal u \<Longrightarrow> ok u \<and> rank u \<le> rank t"
    and less: "\<And>t u. ok t \<Longrightarrow> step t u \<Longrightarrow> \<not> goal u \<Longrightarrow> helpful t u \<Longrightarrow> rank u < (rank t :: nat)"
  shows "ok t \<and> k + rank t \<le> rank s"
  using assms(1,2)
proof (induction rule: avoiding.induct)
  case (avoiding_step k s t u)
  then have "ok t" "k + rank t \<le> rank s" by auto
  then show ?case using keep[of t u] less[of t u] avoiding_step.hyps by (auto simp: Suc_le_eq)
qed simp

lemma run_append: "run f (ls @ ls') s = Option.bind (run f ls s) (run f ls')"
  by (induction ls arbitrary: s) (auto split: option.splits)

end
