(* ===== verification/Parking.thy ===== *)
theory Parking
  imports Main
begin

text \<open>
  Blocked threads.  \<open>parking_lot_core\<close> and \<open>parking_lot\<close> are not part of the sources: a queue of
  blocked threads (the lot of the epoch word, a condition variable) is a parameter \<open>P\<close> of the models
  that use it, and the locale \<open>parking_lot_ops\<close> states what the documentation promises: to park, or to
  wait on a condition variable, enqueues the thread, and \<open>unpark_all\<close>, or \<open>notify_all\<close>, releases
  everybody; nobody is released otherwise (both crates exclude spurious wake-ups).
\<close>

record 'l parking_lot =
  pl_parked :: "'l \<Rightarrow> nat set"
  pl_park :: "nat \<Rightarrow> 'l \<Rightarrow> 'l"
  pl_unpark_all :: "'l \<Rightarrow> 'l"

locale parking_lot_ops =
  fixes P :: "'l parking_lot"
  assumes parked_park: "pl_parked P (pl_park P w l) = insert w (pl_parked P l)"
    and parked_unpark_all: "pl_parked P (pl_unpark_all P l) = {}"

text \<open>A lot as the crates describe it: a queue of threads.\<close>

definition fifo_lot :: "nat list parking_lot" where
  "fifo_lot = \<lparr>pl_parked = set, pl_park = (\<lambda>w l. l @ [w]), pl_unpark_all = (\<lambda>_. [])\<rparr>"

interpretation fifo: parking_lot_ops fifo_lot
  by unfold_locales (simp_all add: fifo_lot_def)

end
