(* ===== verification/Epoch.thy ===== *)
theory Epoch
  imports Prelude
begin

text \<open>
  The epoch word (\<open>yaay-mt-runtime/src/epoch.rs\<close>): one \<open>AtomicU32\<close> that packs the number of
  active workers (low 9 bits) and the epoch number (high 23 bits).

  Each operation is a function of the word before it.  \<open>set_active\<close> and \<open>next_epoch\<close> also say
  whether they go on to call \<open>wake_all_slow\<close> (\<open>unpark_all\<close> of parking_lot_core on the word's
  address); \<open>wait_next_epoch\<close> and its \<open>validate\<close> closure say whether the thread parks.  How these
  calls interleave is the subject of theory \<open>Scheduler\<close>.
\<close>

section \<open>Definitions\<close>

definition ACTIVE_COUNT_BITS :: nat where
  "ACTIVE_COUNT_BITS = 9"

definition ACTIVE_COUNT_MASK :: u32 where
  "ACTIVE_COUNT_MASK = NOT (push_bit ACTIVE_COUNT_BITS (drop_bit ACTIVE_COUNT_BITS (NOT 0)))"

definition EPOCH :: u32 where
  "EPOCH = push_bit ACTIVE_COUNT_BITS 1"

text \<open>In microseconds.\<close>

definition MAX_DURATION :: nat where
  "MAX_DURATION = 1000"

definition active_count :: "u32 \<Rightarrow> u32" where
  "active_count status = status AND ACTIVE_COUNT_MASK"

definition epoch :: "u32 \<Rightarrow> u32" where
  "epoch status = drop_bit ACTIVE_COUNT_BITS status"

definition Epoch_new :: "u32 \<Rightarrow> u32 res" where
  "Epoch_new n_threads = (if n_threads < EPOCH then Inr n_threads else Inl Panic_assert)"

definition get_status :: "u32 \<Rightarrow> u32" where
  "get_status e = e"

text \<open>The new word, whether \<open>wake_all_slow\<close> is called, and the returned status.\<close>

definition set_active :: "u32 \<Rightarrow> (u32 \<times> bool \<times> u32) res" where
  "set_active e =
     (let status = e; e' = e + 1; wake = (active_count status = 0)
      in bind_r (add_checked status 1) (\<lambda>r. Inr (e', wake, r)))"

text \<open>The new word and the returned status.\<close>

definition set_inactive :: "u32 \<Rightarrow> (u32 \<times> u32) res" where
  "set_inactive e = (let e' = e - 1 in bind_r (sub_checked e 1) (\<lambda>r. Inr (e', r)))"

text \<open>The new word and whether \<open>wake_all_slow\<close> is called.\<close>

definition next_epoch :: "u32 \<Rightarrow> u32 \<times> bool" where
  "next_epoch e = (let status = e; e' = e + EPOCH in (e', active_count status = 0))"

text \<open>
  The closure passed to \<open>park\<close>: \<open>cas_ok\<close> is \<open>False\<close> when the weak compare-exchange fails
  spuriously, \<open>elapsed\<close> is \<open>old_instant.elapsed()\<close> in microseconds.
\<close>

definition wait_validate :: "u32 \<Rightarrow> u32 \<Rightarrow> bool \<Rightarrow> nat \<Rightarrow> bool" where
  "wait_validate e old_status cas_ok elapsed =
     (if e \<noteq> old_status \<or> \<not> cas_ok then False
      else if elapsed > MAX_DURATION then False
      else True)"

text \<open>The first load of \<open>wait_next_epoch\<close>: whether the slow path is entered.\<close>

definition wait_next_epoch :: "u32 \<Rightarrow> u32 \<Rightarrow> bool" where
  "wait_next_epoch e old_status = (e = old_status)"

section \<open>The word as a pair of counters\<close>

lemma ACTIVE_COUNT_MASK_eq: "ACTIVE_COUNT_MASK = mask 9"
  by (simp add: ACTIVE_COUNT_MASK_def ACTIVE_COUNT_BITS_def mask_eq_exp_minus_1)

lemma EPOCH_eq: "EPOCH = 512"
  by (simp add: EPOCH_def ACTIVE_COUNT_BITS_def push_bit_eq_mult)

lemma unat_active_count [word_facts]: "unat (active_count e) = unat e mod 512"
  by (simp add: active_count_def ACTIVE_COUNT_MASK_eq flip: take_bit_eq_mask)
    (simp add: take_bit_eq_mod unat_mod)

lemma unat_epoch [word_facts]: "unat (epoch e) = unat e div 512"
  by (simp add: epoch_def ACTIVE_COUNT_BITS_def drop_bit_eq_div unat_div)

lemma unat_status: "unat e = 512 * unat (epoch e) + unat (active_count e)"
  by (simp add: word_facts)


section \<open>Specification: a pair of counters\<close>

text \<open>
  What the word promises: a count of active workers and an epoch number modulo \<open>2 ^ 23\<close>, each
  operation changing exactly one of the two.
\<close>

definition epoch_view :: "u32 \<Rightarrow> nat \<times> nat" where
  "epoch_view e = (unat (active_count e), unat (epoch e))"

fun spec_set_active :: "nat \<times> nat \<Rightarrow> (nat \<times> nat) \<times> bool" where
  "spec_set_active (c, k) = ((c + 1, k), c = 0)"

fun spec_set_inactive :: "nat \<times> nat \<Rightarrow> nat \<times> nat" where
  "spec_set_inactive (c, k) = (c - 1, k)"

fun spec_next_epoch :: "nat \<times> nat \<Rightarrow> (nat \<times> nat) \<times> bool" where
  "spec_next_epoch (c, k) = ((c, (k + 1) mod 2 ^ 23), c = 0)"

lemma epoch_view_inj: "epoch_view e = epoch_view e' \<Longrightarrow> e = e'"
  using unat_status[of e] unat_status[of e'] by (auto simp: epoch_view_def word_unat_eq_iff)

lemma unat_lt_2p32: "unat (e :: u32) < 4294967296"
proof -
  have "unat e < 2 ^ LENGTH(32)" by (rule unsigned_less)
  then show ?thesis by simp
qed

lemma active_count_eq_0: "active_count e = 0 \<longleftrightarrow> unat e mod 512 = 0"
  by (metis unat_active_count unat_0 word_unat_eq_iff)

lemma no_overflow_1: "unat e mod 512 < 511 \<Longrightarrow> unat (e :: u32) + 1 < 4294967296"
proof (rule ccontr)
  assume "unat e mod 512 < 511" and "\<not> unat e + 1 < 4294967296"
  moreover from this unat_lt_2p32[of e] have "unat e = 4294967295" by linarith
  ultimately show False by simp
qed

lemma unat_inc: "unat e mod 512 < 511 \<Longrightarrow> unat (e + 1 :: u32) = unat e + 1"
  using no_overflow_1[of e] by (simp add: unat_word_ariths)

lemma unat_dec: "0 < unat e mod 512 \<Longrightarrow> unat (e - 1 :: u32) = unat e - 1"
  by (metis mod_0 less_irrefl unat_0 unat_minus_one)

lemma unat_bump: "unat (e + EPOCH) = (unat e + 512) mod 4294967296"
  by (simp add: EPOCH_eq unat_word_ariths)

lemma view_inc: "unat (active_count e) < 511 \<Longrightarrow>
    epoch_view (e + 1) = (unat (active_count e) + 1, unat (epoch e))"
  unfolding epoch_view_def word_facts by (simp add: unat_inc mod_Suc div_Suc)

lemma view_dec:
  assumes "0 < unat (active_count e)"
  shows "epoch_view (e - 1) = (unat (active_count e) - 1, unat (epoch e))"
proof -
  from assms obtain b where b: "unat e = Suc b"
    unfolding word_facts by (metis mod_0 less_irrefl not0_implies_Suc)
  with assms show ?thesis
    unfolding epoch_view_def word_facts
    by (simp add: unat_dec mod_Suc div_Suc split: if_splits)
qed

lemma view_bump: "epoch_view (e + EPOCH) = (unat (active_count e), (unat (epoch e) + 1) mod 8388608)"
proof -
  have "(unat e + 512) mod (512 * 8388608) = 512 * ((unat e div 512 + 1) mod 8388608) + unat e mod 512"
    by (simp only: mod_mult2_eq) (simp add: div_add_self2)
  then show ?thesis
    unfolding epoch_view_def word_facts unat_bump by simp
qed

lemma add_checked_1: "unat (active_count e) < 511 \<Longrightarrow> add_checked e 1 = Inr (e + 1)"
  using no_overflow_1[of e] unfolding word_facts by (simp add: add_checked_def)

lemma sub_checked_1: "0 < unat (active_count e) \<Longrightarrow> sub_checked e 1 = Inr (e - 1)"
  unfolding word_facts by (auto simp: sub_checked_def word_le_nat_alt Suc_le_eq intro: gr0I)

section \<open>The interface the scheduler relies on\<close>

text \<open>
  A counter word: \<open>cnt\<close> and \<open>ep\<close> read it, \<open>inc\<close>, \<open>dec\<close> and \<open>bump\<close> are its atomic updates.
\<close>

locale activity_counter =
  fixes cnt ep :: "'e \<Rightarrow> nat" and inc dec bump :: "'e \<Rightarrow> 'e" and max_cnt period :: nat
  assumes cnt_inc: "cnt e < max_cnt \<Longrightarrow> cnt (inc e) = cnt e + 1"
    and ep_inc: "cnt e < max_cnt \<Longrightarrow> ep (inc e) = ep e"
    and cnt_dec: "0 < cnt e \<Longrightarrow> cnt (dec e) = cnt e - 1"
    and ep_dec: "0 < cnt e \<Longrightarrow> ep (dec e) = ep e"
    and cnt_bump: "cnt (bump e) = cnt e"
    and ep_bump: "ep (bump e) = (ep e + 1) mod period"
    and ep_less: "ep e < period"
    and view_eq: "cnt e = cnt e' \<Longrightarrow> ep e = ep e' \<Longrightarrow> e = e'"
begin

lemmas cnt_laws = cnt_inc cnt_dec cnt_bump
lemmas ep_laws = ep_inc ep_dec ep_bump

lemma cnt_bumps: "cnt ((bump ^^ k) e) = cnt e"
  by (induction k) (simp_all add: cnt_bump)

lemma ep_bumps: "ep ((bump ^^ k) e) = (ep e + k) mod period"
  by (induction k) (simp_all add: ep_bump mod_simps ep_less add.commute)

text \<open>The word comes back to the same value exactly after a multiple of \<open>period\<close> bumps.\<close>

lemma bumps_eq_iff: "(bump ^^ k) e = e \<longleftrightarrow> period dvd k"
proof -
  have "(bump ^^ k) e = e \<longleftrightarrow> (ep e + k) mod period = ep e mod period"
    using view_eq[of "(bump ^^ k) e" e] ep_less[of e]
    by (auto simp: cnt_bumps ep_bumps) (metis ep_bumps mod_less)
  also have "\<dots> \<longleftrightarrow> period dvd k"
    by (simp add: mod_eq_dvd_iff_nat)
  finally show ?thesis .
qed

lemma inc_dec: "cnt e < max_cnt \<Longrightarrow> dec (inc e) = e"
  by (rule view_eq) (simp_all add: cnt_inc cnt_dec ep_inc ep_dec)

end

interpretation ec: activity_counter "\<lambda>e. unat (active_count e)" "\<lambda>e. unat (epoch e)"
  "\<lambda>e. e + 1" "\<lambda>e. e - 1" "\<lambda>e. e + EPOCH" 511 8388608
proof unfold_locales
  fix e e' :: u32
  show "unat (active_count e) < 511 \<Longrightarrow> unat (active_count (e + 1)) = unat (active_count e) + 1"
    and "unat (active_count e) < 511 \<Longrightarrow> unat (epoch (e + 1)) = unat (epoch e)"
    using view_inc[of e] by (simp_all add: epoch_view_def)
  show "0 < unat (active_count e) \<Longrightarrow> unat (active_count (e - 1)) = unat (active_count e) - 1"
    and "0 < unat (active_count e) \<Longrightarrow> unat (epoch (e - 1)) = unat (epoch e)"
    using view_dec[of e] by (simp_all add: epoch_view_def)
  show "unat (active_count (e + EPOCH)) = unat (active_count e)"
    and "unat (epoch (e + EPOCH)) = (unat (epoch e) + 1) mod 8388608"
    using view_bump[of e] by (simp_all add: epoch_view_def)
  show "unat (epoch e) < 8388608"
    using unat_lt_2p32[of e] by (simp add: word_facts less_mult_imp_div_less)
  show "unat (active_count e) = unat (active_count e') \<Longrightarrow> unat (epoch e) = unat (epoch e') \<Longrightarrow> e = e'"
    using epoch_view_inj[of e e'] by (simp add: epoch_view_def)
qed

section \<open>Properties\<close>

lemmas epoch_defs = set_active_def set_inactive_def next_epoch_def Let_def

text \<open>
  C36: \<open>set_active\<close>, \<open>set_inactive\<close> and \<open>next_epoch\<close> on the packed word implement the pair of
  counters: with fewer than 511 active workers \<open>set_active\<close> adds one worker and leaves the epoch
  alone, with at least one active worker \<open>set_inactive\<close> removes one, \<open>next_epoch\<close> adds one to
  the epoch modulo \<open>2 ^ 23\<close> and leaves the count alone even when it overflows; the first and the
  last wake the parked workers exactly when nobody was active, the returned status is the new
  word, and none of the arithmetic panics.
\<close>

theorem epoch_word_refines_counters:
  "(unat (active_count e) < 511 \<longrightarrow>
     (\<exists>e' wake. set_active e = Inr (e', wake, e') \<and>
        (epoch_view e', wake) = spec_set_active (epoch_view e))) \<and>
   (0 < unat (active_count e) \<longrightarrow>
     (\<exists>e'. set_inactive e = Inr (e', e') \<and> epoch_view e' = spec_set_inactive (epoch_view e))) \<and>
   (\<exists>e' wake. next_epoch e = (e', wake) \<and>
        (epoch_view e', wake) = spec_next_epoch (epoch_view e))"
proof -
  have zero: "active_count e = 0 \<longleftrightarrow> unat (active_count e) = 0"
    by (simp add: word_unat_eq_iff)
  have view: "epoch_view e = (unat (active_count e), unat (epoch e))"
    by (simp add: epoch_view_def)
  show ?thesis
    by (simp add: epoch_defs add_checked_1 sub_checked_1 view_inc view_dec view_bump view zero)
qed

lemma epoch_view_eval: "epoch_view e = (unat e mod 512, unat e div 512)"
  by (simp add: epoch_view_def word_facts)

theorem epoch_word_refines_counters_witness:
  "set_active 2561 = Inr (2562, False, 2562) \<and> epoch_view 2562 = (2, 5) \<and>
   set_inactive 2561 = Inr (2560, 2560) \<and> epoch_view 2560 = (0, 5) \<and>
   next_epoch 2561 = (3073, False) \<and> epoch_view 3073 = (1, 6)"
  using epoch_word_refines_counters [of 2561]
  by (simp add: epoch_view_eval word_facts epoch_defs EPOCH_eq add_checked_def sub_checked_def
      active_count_eq_0)

text \<open>
  The epoch field protects against missed updates up to its width: after \<open>k\<close> calls of
  \<open>next_epoch\<close> with no other change the status compares equal to its old value exactly when
  \<open>k\<close> is a multiple of \<open>2 ^ 23 = 8388608\<close>, the number the comment in the source gives.
\<close>

lemma next_epoch_aba:
  "((\<lambda>e. fst (next_epoch e)) ^^ k) e = e \<longleftrightarrow> 8388608 dvd k"
  using ec.bumps_eq_iff [of k e] by (simp add: next_epoch_def Let_def)

text \<open>\<open>Epoch::new\<close> accepts up to 511 threads and starts with that many active workers in epoch 0.\<close>

lemma Epoch_new_counts:
  "Epoch_new n = (if unat n \<le> 511 then Inr n else Inl Panic_assert)" "unat n \<le> 511 \<Longrightarrow> epoch_view n = (unat n, 0)"
  by (auto simp: Epoch_new_def EPOCH_eq word_less_nat_alt epoch_view_eval)

end
