(* ===== verification/Rng.thy ===== *)
theory Rng
  imports Prelude
begin

text \<open>
  The pseudo random numbers of a worker (\<open>yaay-mt-runtime/src/rng.rs\<close>).  The seed picks the
  queue \<open>spawn\<close> pushes to and the victim \<open>try_steal\<close> steals from.
\<close>

section \<open>Definitions\<close>

text \<open>
  \<open>SystemTime::now().duration_since(UNIX_EPOCH).unwrap().as_micros() as u32\<close>: the clock reading,
  in microseconds before (negative) or after the epoch, is the argument.
\<close>

definition seed_from_system_time :: "int \<Rightarrow> u32 res" where
  "seed_from_system_time now_micros =
     (if now_micros < 0 then Inl Panic_unwrap else Inr (word_of_int now_micros))"

definition next_seed :: "u32 \<Rightarrow> u32" where
  "next_seed seed =
     (let seed = seed XOR push_bit 13 seed;
          seed = seed XOR push_bit 17 seed;
          seed = seed XOR push_bit 5 seed
      in seed)"

text \<open>One line of \<open>next_seed\<close>: a left xor-shift by \<open>k\<close>.\<close>

definition xorshift_l :: "nat \<Rightarrow> u32 \<Rightarrow> u32" where
  "xorshift_l k x = x XOR push_bit k x"

section \<open>The xor-shift steps\<close>


lemma next_seed_xorshift: "next_seed = xorshift_l 5 \<circ> xorshift_l 17 \<circ> xorshift_l 13"
  by (simp add: fun_eq_iff next_seed_def xorshift_l_def Let_def)

lemma bit_xorshift_l: "bit (xorshift_l k x) n \<longleftrightarrow> n < 32 \<and> (bit x n \<noteq> (k \<le> n \<and> bit x (n - k)))"
  by (auto simp: xorshift_l_def bit_simps dest: bit_imp_le_length)

lemma inj_xorshift_l:
  assumes "0 < k"
  shows "inj (xorshift_l k)"
proof (rule injI)
  fix x y assume eq: "xorshift_l k x = xorshift_l k y"
  have "n < 32 \<longrightarrow> bit x n = bit y n" for n
  proof (induction n rule: less_induct)
    case (less n)
    have "bit (xorshift_l k x) n = bit (xorshift_l k y) n" by (simp add: eq)
    with less assms show ?case by (auto simp: bit_xorshift_l)
  qed
  then show "x = y" by (auto intro!: bit_word_eqI)
qed

lemma take_bit_xorshift_l: "m \<le> k \<Longrightarrow> take_bit m (xorshift_l k x) = take_bit m x"
  by (rule bit_word_eqI) (auto simp: bit_take_bit_iff bit_xorshift_l)

lemma bij_next_seed: "bij next_seed"
proof -
  have "inj next_seed"
    by (simp add: next_seed_xorshift inj_compose inj_xorshift_l)
  then show ?thesis
    by (simp add: bij_def finite_UNIV_inj_surj)
qed

lemma next_seed_0 [simp]: "next_seed 0 = 0"
  by (simp add: next_seed_def)

lemma next_seed_eq_0_iff [simp]: "next_seed s = 0 \<longleftrightarrow> s = 0"
  using bij_next_seed by (metis bij_def injD next_seed_0)

lemma next_seed_low5: "take_bit 5 (next_seed s) = take_bit 5 s"
  by (simp add: next_seed_xorshift take_bit_xorshift_l)

lemma next_seed_iter_low5: "take_bit 5 ((next_seed ^^ k) s) = take_bit 5 s"
  by (induction k) (simp_all add: next_seed_low5)

lemma next_seed_iter_mod:
  assumes "n dvd 32"
  shows "unat ((next_seed ^^ k) s) mod n = unat s mod n"
proof -
  have "unat ((next_seed ^^ k) s) mod 2 ^ 5 = unat s mod 2 ^ 5"
    using arg_cong[OF next_seed_iter_low5[of k s], of unat] by (simp add: take_bit_eq_mod unat_mod)
  then have "unat ((next_seed ^^ k) s) mod 32 mod n = unat s mod 32 mod n" by simp
  then show ?thesis by (simp add: mod_mod_cancel assms)
qed

section \<open>Properties\<close>

text \<open>
  the generator never mixes its low bits.  \<open>next_seed\<close> is a bijection and keeps a non-zero seed
  non-zero, as an xor-shift generator should; but since all three shifts go left (the usual generator
  shifts right by 17 in the second step), the five low bits of the seed stay the same for ever.
\<close>

lemma next_seed_keeps_low_bits:
  "bij next_seed \<and> (next_seed s = 0 \<longleftrightarrow> s = 0) \<and> take_bit 5 ((next_seed ^^ k) s) = take_bit 5 s"
  by (simp add: bij_next_seed next_seed_iter_low5)

end
