(* ===== verification/Scheduler.thy ===== *)
theory Scheduler
  imports Transition Parking Epoch Rng
begin

text \<open>
  The worker threads under concurrency: \<open>Worker::main_loop\<close>, \<open>try_steal\<close>, \<open>spawn\<close>, \<open>defer\<close>
  and the \<open>Shutdown\<close> future (\<open>worker.rs\<close>), \<open>shutdown_async\<close> (\<open>runtime.rs\<close>), the blocking of
  \<open>Epoch\<close> (\<open>epoch.rs\<close>), and threads outside the runtime that wake tasks or flush a batch
  (\<open>Task::wake\<close> in \<open>task.rs\<close>, \<open>BatchGuard::push_batch\<close> in \<open>batch.rs\<close>, \<open>WorkerGuard::run\<close> in
  \<open>worker_manager.rs\<close>).

  Worker \<open>w < n\<close> is described by its position \<open>wpc s w\<close>; one step is one atomic action: a load or
  read-modify-write of the epoch word, one locked section of a queue, one load or store of a
  shutdown flag, one call into the parking lot.  Queues hold jobs: a user task, or a task that wraps
  the \<open>Shutdown\<close> future.  What a user task does inside \<open>poll\<close> is the environment's choice
  (\<open>body\<close>): it may call \<open>spawn\<close>, \<open>defer\<close>, \<open>rng_gen\<close>, \<open>shutdown_async\<close> any number of times and
  then return.

  The parking lot of the epoch word is a parameter \<open>P\<close> (theory \<open>Parking\<close>): \<open>park\<close> enqueues the
  thread if \<open>validate\<close> holds, atomically with respect to \<open>unpark_all\<close>.

  \<open>n_epochs\<close> and \<open>seen\<close> are ghosts: the number of \<open>next_epoch\<close> calls so far, and its value when
  a status was read.
\<close>

section \<open>Definitions\<close>

datatype job = Job nat | Shut

record snap =
  old_status :: u32
  old_instant :: nat
  seen :: nat

datatype poll_act =
    Body                  \<comment> \<open>the code of the future runs\<close>
  | Shut_flag             \<comment> \<open>worker.rs 202\<close>
  | Push "nat list"       \<comment> \<open>workers still to send \<open>Shut\<close> to; with none left, \<open>next_epoch\<close> is due\<close>
  | Front nat "nat list"  \<comment> \<open>worker.rs 206-207, runtime.rs 52-53: about to push to the first one\<close>
  | Unpark                \<comment> \<open>epoch.rs 218: \<open>next_epoch\<close> found nobody active\<close>

datatype wpc =
    Drain                       \<comment> \<open>worker.rs 108\<close>
  | Poll job poll_act           \<comment> \<open>worker.rs 111 and 152\<close>
  | Chk_shutdown                \<comment> \<open>worker.rs 112 and 153\<close>
  | Exited
  | Get_instant                 \<comment> \<open>worker.rs 119\<close>
  | Set_inactive nat            \<comment> \<open>worker.rs 120\<close>
  | Head snap                   \<comment> \<open>worker.rs 122\<close>
  | Steal nat snap              \<comment> \<open>worker.rs 124: tries left\<close>
  | Steal_lock nat nat snap     \<comment> \<open>worker.rs 183: tries left, victim\<close>
  | Recheck snap                \<comment> \<open>worker.rs 133\<close>
  | Wait_load snap              \<comment> \<open>epoch.rs 210\<close>
  | Wait_park snap              \<comment> \<open>epoch.rs 253\<close>
  | Parked snap
  | Refresh snap                \<comment> \<open>worker.rs 140\<close>
  | Reload nat snap             \<comment> \<open>worker.rs 141-142\<close>
  | Local_pop snap              \<comment> \<open>worker.rs 143\<close>
  | Set_active job              \<comment> \<open>worker.rs 151\<close>
  | Active_wake job             \<comment> \<open>epoch.rs 195\<close>

datatype push = Back nat "job list" | To_front nat job

datatype epc = E_idle | E_push "push list" | E_unpark

datatype body = B_return | B_spawn nat | B_defer nat | B_rng | B_shutdown_async

record 'l sched =
  status :: u32
  lot :: 'l
  queue :: "nat \<Rightarrow> job list"
  wpc :: "nat \<Rightarrow> wpc"
  seed :: "nat \<Rightarrow> u32"
  shutdown :: "nat \<Rightarrow> bool"
  ext :: "nat \<Rightarrow> epc"
  now :: nat
  panic :: bool
  n_epochs :: nat

definition other_workers :: "nat \<Rightarrow> nat \<Rightarrow> nat list" where
  "other_workers n w = filter (\<lambda>i. i \<noteq> w) [0..<n]"

definition go :: "nat \<Rightarrow> wpc \<Rightarrow> 'l sched \<Rightarrow> 'l sched" where
  "go w pc s = s\<lparr>wpc := (wpc s)(w := pc)\<rparr>"

definition setq :: "nat \<Rightarrow> job list \<Rightarrow> 'l sched \<Rightarrow> 'l sched" where
  "setq i q s = s\<lparr>queue := (queue s)(i := q)\<rparr>"

definition reseed :: "nat \<Rightarrow> 'l sched \<Rightarrow> 'l sched" where
  "reseed w s = s\<lparr>seed := (seed s)(w := next_seed (seed s w))\<rparr>"

fun poll_start :: "job \<Rightarrow> poll_act" where
  "poll_start Shut = Shut_flag"
| "poll_start (Job t) = Body"

text \<open>\<open>Shutdown::poll\<close> returns right after its \<open>next_epoch\<close>; a user task goes on.\<close>

fun after_epoch :: "job \<Rightarrow> wpc" where
  "after_epoch Shut = Chk_shutdown"
| "after_epoch (Job t) = Poll (Job t) Body"

text \<open>\<open>self.task_list.lock().pop_front()\<close> on the worker's own queue.\<close>

definition pop_own :: "nat \<Rightarrow> wpc \<Rightarrow> (job \<Rightarrow> wpc) \<Rightarrow> 'l sched \<Rightarrow> 'l sched" where
  "pop_own w none some s =
     (case queue s w of [] \<Rightarrow> go w none s | t # ts \<Rightarrow> go w (some t) (setq w ts s))"

text \<open>The calls a user task makes while it is polled (\<open>worker.rs\<close> 76-96, 158-162).\<close>

fun body_step :: "nat \<Rightarrow> nat \<Rightarrow> job \<Rightarrow> body \<Rightarrow> 'l sched \<Rightarrow> 'l sched" where
  "body_step n w j B_return s = go w Chk_shutdown s"
| "body_step n w j (B_spawn t) s =
     (let target_index = unat (seed s w) mod n; s = reseed w s
      in if target_index + 1 \<noteq> n then
           let target = other_workers n w ! target_index
           in go w (Poll j (Push [])) (setq target (queue s target @ [Job t]) s)
         else setq w (queue s w @ [Job t]) s)"
| "body_step n w j (B_defer t) s = setq w (Job t # queue s w) s"
| "body_step n w j B_rng s = reseed w s"
| "body_step n w j B_shutdown_async s = go w (Poll j (Push [0..<n])) s"

text \<open>\<open>Epoch::next_epoch\<close> without the \<open>unpark_all\<close>: the new state and whether it is due.\<close>

definition bump :: "'l sched \<Rightarrow> 'l sched \<times> bool" where
  "bump s = (let (e', wake) = next_epoch (status s)
             in (s\<lparr>status := e', n_epochs := Suc (n_epochs s)\<rparr>, wake))"

definition poll_act_step :: "'l parking_lot \<Rightarrow> nat \<Rightarrow> nat \<Rightarrow> job \<Rightarrow> poll_act \<Rightarrow> body \<Rightarrow> 'l sched \<Rightarrow> 'l sched"
where
  "poll_act_step P n w j a b s =
    (case a of
       Body \<Rightarrow> body_step n w j b s
     | Shut_flag \<Rightarrow>
         go w (Poll j (Push (other_workers n w))) (s\<lparr>shutdown := (shutdown s)(w := True)\<rparr>)
     | Push (i # is) \<Rightarrow> go w (Poll j (if j = Shut \<and> shutdown s i then Push is else Front i is)) s
     | Front i is \<Rightarrow> go w (Poll j (Push is)) (setq i (Shut # queue s i) s)
     | Push [] \<Rightarrow> (let (s', wake) = bump s in go w (if wake then Poll j Unpark else after_epoch j) s')
     | Unpark \<Rightarrow> go w (after_epoch j) (s\<lparr>lot := pl_unpark_all P (lot s)\<rparr>))"

text \<open>One attempt of \<open>try_steal\<close> up to the lock; \<open>n = 1\<close> would divide by zero.\<close>

definition steal_step :: "nat \<Rightarrow> nat \<Rightarrow> nat \<Rightarrow> snap \<Rightarrow> 'l sched \<Rightarrow> 'l sched" where
  "steal_step n w k sn s =
     (if n - 1 = 0 then s\<lparr>panic := True\<rparr>
      else let victim = other_workers n w ! (unat (seed s w) mod (n - 1))
           in if queue s victim = [] then go w (Steal k sn) (reseed w s)
              else go w (Steal_lock k victim sn) s)"

text \<open>
  One atomic step of worker \<open>w\<close>; \<open>b\<close> is the call a running user task makes, \<open>weak\<close> makes the
  compare-exchange of \<open>validate\<close> fail spuriously.  \<open>None\<close>: the worker cannot move.
\<close>

definition wstep :: "'l parking_lot \<Rightarrow> nat \<Rightarrow> nat \<Rightarrow> body \<Rightarrow> bool \<Rightarrow> 'l sched \<Rightarrow> 'l sched option" where
  "wstep P n w b weak s =
    (case wpc s w of
       Drain \<Rightarrow> Some (pop_own w Get_instant (\<lambda>t. Poll t (poll_start t)) s)
     | Poll j a \<Rightarrow> Some (poll_act_step P n w j a b s)
     | Chk_shutdown \<Rightarrow> Some (go w (if shutdown s w then Exited else Drain) s)
     | Exited \<Rightarrow> None
     | Get_instant \<Rightarrow> Some (go w (Set_inactive (now s)) s)
     | Set_inactive t \<Rightarrow>
         (case set_inactive (status s) of
            Inl _ \<Rightarrow> Some (s\<lparr>panic := True\<rparr>)
          | Inr (e', r) \<Rightarrow>
              Some (go w (Head \<lparr>old_status = r, old_instant = t, seen = n_epochs s\<rparr>) (s\<lparr>status := e'\<rparr>)))
     | Head sn \<Rightarrow> Some (go w (if active_count (old_status sn) \<noteq> 0 then Steal (4 * n) sn else Recheck sn) s)
     | Steal k sn \<Rightarrow> Some (if k = 0 then go w (Refresh sn) s else steal_step n w (k - 1) sn s)
     | Steal_lock k v sn \<Rightarrow>
         (case queue s v of
            [] \<Rightarrow> Some (go w (Steal k sn) (reseed w s))
          | t # ts \<Rightarrow> Some (go w (Set_active t) (setq v ts s)))
     | Recheck sn \<Rightarrow> Some (pop_own w (Wait_load sn) Set_active s)
     | Wait_load sn \<Rightarrow>
         Some (go w (if wait_next_epoch (status s) (old_status sn) then Wait_park sn else Refresh sn) s)
     | Wait_park sn \<Rightarrow>
         (if wait_validate (status s) (old_status sn) (\<not> weak) (now s - old_instant sn)
          then Some (go w (Parked sn) (s\<lparr>lot := pl_park P w (lot s)\<rparr>))
          else Some (go w (Refresh sn) s))
     | Parked sn \<Rightarrow> if w \<in> pl_parked P (lot s) then None else Some (go w (Refresh sn) s)
     | Refresh sn \<Rightarrow> Some (go w (Reload (now s) sn) s)
     | Reload t sn \<Rightarrow>
         (let new = \<lparr>old_status = get_status (status s), old_instant = t, seen = n_epochs s\<rparr>
          in Some (go w (if epoch (old_status new) > epoch (old_status sn) then Local_pop new else Head new) s))
     | Local_pop new \<Rightarrow> Some (pop_own w (Head new) Set_active s)
     | Set_active t \<Rightarrow>
         (case set_active (status s) of
            Inl _ \<Rightarrow> Some (s\<lparr>panic := True\<rparr>)
          | Inr (e', wake, r) \<Rightarrow>
              Some (go w (if wake then Active_wake t else Poll t (poll_start t)) (s\<lparr>status := e'\<rparr>)))
     | Active_wake t \<Rightarrow> Some (go w (Poll t (poll_start t)) (s\<lparr>lot := pl_unpark_all P (lot s)\<rparr>)))"

fun do_push :: "push \<Rightarrow> 'l sched \<Rightarrow> 'l sched" where
  "do_push (Back i js) s = setq i (queue s i @ js) s"
| "do_push (To_front i j) s = setq i (j # queue s i) s"

definition push_ok :: "nat \<Rightarrow> push \<Rightarrow> bool" where
  "push_ok n p = (case p of Back i js \<Rightarrow> i < n \<and> js \<noteq> [] | To_front i j \<Rightarrow> i < n)"

text \<open>
  A thread outside the runtime: it pushes to one queue after the other (\<open>wake\<close>: one task to one
  queue, \<open>push_batch\<close>: every non-empty batch, \<open>shutdown_async\<close>: \<open>Shut\<close> to the front of each),
  then calls \<open>next_epoch\<close>.  \<open>E_push []\<close> is the point right before \<open>next_epoch\<close>.
\<close>

definition estep :: "'l parking_lot \<Rightarrow> nat \<Rightarrow> nat \<Rightarrow> push list \<Rightarrow> 'l sched \<Rightarrow> 'l sched option" where
  "estep P n e ps s =
    (case ext s e of
       E_idle \<Rightarrow>
         (if ps \<noteq> [] \<and> list_all (push_ok n) ps then Some (s\<lparr>ext := (ext s)(e := E_push ps)\<rparr>) else None)
     | E_push (p # qs) \<Rightarrow> (let s' = do_push p s in Some (s'\<lparr>ext := (ext s')(e := E_push qs)\<rparr>))
     | E_push [] \<Rightarrow>
         (let (s', wake) = bump s in Some (s'\<lparr>ext := (ext s')(e := if wake then E_unpark else E_idle)\<rparr>))
     | E_unpark \<Rightarrow> Some (s\<lparr>lot := pl_unpark_all P (lot s), ext := (ext s)(e := E_idle)\<rparr>))"

datatype slabel = W nat body bool | E nat "push list" | Tick nat

fun sstep :: "'l parking_lot \<Rightarrow> nat \<Rightarrow> slabel \<Rightarrow> 'l sched \<Rightarrow> 'l sched option" where
  "sstep P n (W w b weak) s = (if w < n \<and> \<not> panic s then wstep P n w b weak s else None)"
| "sstep P n (E e ps) s = estep P n e ps s"
| "sstep P n (Tick d) s = Some (s\<lparr>now := now s + d\<rparr>)"

text \<open>After \<open>WorkerBuilder::build\<close>: every worker is about to enter its loop.\<close>

definition sched_init :: "'l parking_lot \<Rightarrow> nat \<Rightarrow> 'l sched \<Rightarrow> bool" where
  "sched_init P n s \<longleftrightarrow>
     0 < n \<and> Epoch_new (of_nat n) = Inr (status s) \<and> n < 2 ^ 32 \<and> pl_parked P (lot s) = {} \<and>
     queue s = (\<lambda>_. []) \<and> wpc s = (\<lambda>_. Drain) \<and> shutdown s = (\<lambda>_. False) \<and>
     ext s = (\<lambda>_. E_idle) \<and> \<not> panic s \<and> n_epochs s = 0"

text \<open>
  The assumption stated in \<open>epoch.rs\<close> (lines 145-150): within \<open>MAX_DURATION\<close> of reading a
  status, fewer than \<open>2 ^ 23\<close> calls of \<open>next_epoch\<close> happen.
\<close>

definition timely :: "nat \<Rightarrow> 'l sched \<Rightarrow> bool" where
  "timely n s \<longleftrightarrow> (\<forall>w<n. \<forall>sn. wpc s w = Wait_park sn \<and> now s - old_instant sn \<le> MAX_DURATION \<longrightarrow>
     n_epochs s - seen sn < 2 ^ 23)"

definition sched_step :: "'l parking_lot \<Rightarrow> nat \<Rightarrow> 'l sched \<Rightarrow> 'l sched \<Rightarrow> bool" where
  "sched_step P n s t \<longleftrightarrow> timely n s \<and> (\<exists>l. sstep P n l s = Some t)"

abbreviation sched_reach :: "'l parking_lot \<Rightarrow> nat \<Rightarrow> 'l sched \<Rightarrow> bool" where
  "sched_reach P n \<equiv> reach (sched_init P n) (sched_step P n)"

end
