(* ===== verification/Scheduler_Invariant.thy ===== *)
theory Scheduler_Invariant
  imports Scheduler
begin

text \<open>
  The safety of the scheduler: the invariant that ties the epoch word, the parking lot, the queues
  and the positions of the workers together, its preservation by every step, and the properties that
  rest on it.
\<close>

section \<open>The invariant\<close>

text \<open>A worker is inactive from \<open>set_inactive\<close> until \<open>set_active\<close>.\<close>

fun inactive :: "wpc \<Rightarrow> bool" where
  "inactive (Head sn) = True"
| "inactive (Steal k sn) = True"
| "inactive (Steal_lock k v sn) = True"
| "inactive (Recheck sn) = True"
| "inactive (Wait_load sn) = True"
| "inactive (Wait_park sn) = True"
| "inactive (Parked sn) = True"
| "inactive (Refresh sn) = True"
| "inactive (Reload t sn) = True"
| "inactive (Local_pop sn) = True"
| "inactive (Set_active j) = True"
| "inactive _ = False"

fun snap_of :: "wpc \<Rightarrow> snap option" where
  "snap_of (Head sn) = Some sn"
| "snap_of (Steal k sn) = Some sn"
| "snap_of (Steal_lock k v sn) = Some sn"
| "snap_of (Recheck sn) = Some sn"
| "snap_of (Wait_load sn) = Some sn"
| "snap_of (Wait_park sn) = Some sn"
| "snap_of (Parked sn) = Some sn"
| "snap_of (Refresh sn) = Some sn"
| "snap_of (Reload t sn) = Some sn"
| "snap_of (Local_pop sn) = Some sn"
| "snap_of _ = None"

text \<open>A thread that has pushed (or is pushing) and still owes the \<open>next_epoch\<close>; one that owes
  the \<open>unpark_all\<close>.\<close>

fun owes_bump :: "wpc \<Rightarrow> bool" where
  "owes_bump (Poll j (Push is)) = True"
| "owes_bump (Poll j (Front i is)) = True"
| "owes_bump _ = False"

fun owes_unpark :: "wpc \<Rightarrow> bool" where
  "owes_unpark (Poll j Unpark) = True"
| "owes_unpark (Active_wake j) = True"
| "owes_unpark _ = False"

definition pending_bump :: "nat \<Rightarrow> 'l sched \<Rightarrow> bool" where
  "pending_bump n s \<longleftrightarrow> (\<exists>w<n. owes_bump (wpc s w)) \<or> (\<exists>e ps. ext s e = E_push ps)"

definition pending_unpark :: "nat \<Rightarrow> 'l sched \<Rightarrow> bool" where
  "pending_unpark n s \<longleftrightarrow> (\<exists>w<n. owes_unpark (wpc s w)) \<or> (\<exists>e. ext s e = E_unpark)"

definition active_workers :: "nat \<Rightarrow> 'l sched \<Rightarrow> nat set" where
  "active_workers n s = {w. w < n \<and> \<not> inactive (wpc s w)}"

definition snap_ok :: "nat \<Rightarrow> 'l sched \<Rightarrow> snap \<Rightarrow> bool" where
  "snap_ok n s sn \<longleftrightarrow> seen sn \<le> n_epochs s \<and> unat (epoch (old_status sn)) = seen sn mod 8388608 \<and>
     unat (active_count (old_status sn)) < n"

fun pc_cond :: "'l parking_lot \<Rightarrow> nat \<Rightarrow> 'l sched \<Rightarrow> nat \<Rightarrow> wpc \<Rightarrow> bool" where
  "pc_cond P n s w (Steal k sn) = (active_count (old_status sn) \<noteq> 0)"
| "pc_cond P n s w (Steal_lock k v sn) = (active_count (old_status sn) \<noteq> 0)"
| "pc_cond P n s w (Recheck sn) = (active_count (old_status sn) = 0)"
| "pc_cond P n s w (Wait_load sn) = (active_count (old_status sn) = 0 \<and>
     (queue s w \<noteq> [] \<longrightarrow> pending_bump n s \<or> seen sn < n_epochs s))"
| "pc_cond P n s w (Wait_park sn) = (active_count (old_status sn) = 0 \<and>
     (queue s w \<noteq> [] \<longrightarrow> pending_bump n s \<or> seen sn < n_epochs s))"
| "pc_cond P n s w (Parked sn) = (active_count (old_status sn) = 0 \<and>
     (w \<in> pl_parked P (lot s) \<longrightarrow>
        (status s = old_status sn \<or> pending_unpark n s) \<and>
        (queue s w \<noteq> [] \<longrightarrow> pending_bump n s \<or> pending_unpark n s)))"
| "pc_cond P n s w _ = True"

definition pc_ok :: "'l parking_lot \<Rightarrow> nat \<Rightarrow> 'l sched \<Rightarrow> nat \<Rightarrow> wpc \<Rightarrow> bool" where
  "pc_ok P n s w pc \<longleftrightarrow> (\<forall>sn. snap_of pc = Some sn \<longrightarrow> snap_ok n s sn) \<and> pc_cond P n s w pc"

definition sched_inv :: "'l parking_lot \<Rightarrow> nat \<Rightarrow> 'l sched \<Rightarrow> bool" where
  "sched_inv P n s \<longleftrightarrow> 0 < n \<and> n \<le> 511 \<and> \<not> panic s \<and>
     unat (active_count (status s)) = card (active_workers n s) \<and>
     unat (epoch (status s)) = n_epochs s mod 8388608 \<and>
     (\<forall>w \<in> pl_parked P (lot s). w < n \<and> (\<exists>sn. wpc s w = Parked sn)) \<and>
     (\<forall>w<n. pc_ok P n s w (wpc s w))"

text \<open>What a step of another thread guarantees to worker \<open>v\<close>.\<close>

definition rely :: "'l parking_lot \<Rightarrow> nat \<Rightarrow> nat \<Rightarrow> 'l sched \<Rightarrow> 'l sched \<Rightarrow> bool" where
  "rely P n v s t \<longleftrightarrow> n_epochs s \<le> n_epochs t \<and>
     (queue t v \<noteq> [] \<longrightarrow> queue s v \<noteq> [] \<or> pending_bump n t) \<and>
     (pending_bump n s \<longrightarrow> pending_bump n t \<or> n_epochs s < n_epochs t) \<and>
     (v \<in> pl_parked P (lot t) \<longrightarrow> v \<in> pl_parked P (lot s) \<and>
        (status t = status s \<or> pending_unpark n t) \<and>
        (pending_unpark n s \<longrightarrow> pending_unpark n t) \<and>
        (pending_bump n s \<longrightarrow> pending_bump n t \<or> pending_unpark n t))"

lemma pc_ok_rely: "pc_ok P n s v pc \<Longrightarrow> rely P n v s t \<Longrightarrow> pc_ok P n t v pc"
  by (cases pc) (auto simp: pc_ok_def rely_def snap_ok_def)

lemma sched_inv_stepI:
  assumes "sched_inv P n s" "wpc t = (wpc s)(w := pc')" "\<not> panic t"
    and "unat (active_count (status t)) = card (active_workers n t)"
    and "unat (epoch (status t)) = n_epochs t mod 8388608"
    and "\<forall>v \<in> pl_parked P (lot t). v < n \<and> (\<exists>sn. wpc t v = Parked sn)"
    and "\<And>v. v < n \<Longrightarrow> v \<noteq> w \<Longrightarrow> rely P n v s t" and "w < n \<Longrightarrow> pc_ok P n t w pc'"
  shows "sched_inv P n t"
  using assms unfolding sched_inv_def by (auto intro: pc_ok_rely)

lemma pending_mono:
  assumes "wpc t = (wpc s)(w := pc')" "ext t = ext s"
  shows "(owes_bump (wpc s w) \<longrightarrow> owes_bump pc') \<Longrightarrow> pending_bump n s \<Longrightarrow> pending_bump n t"
    and "(owes_unpark (wpc s w) \<longrightarrow> owes_unpark pc') \<Longrightarrow> pending_unpark n s \<Longrightarrow> pending_unpark n t"
  using assms by (auto simp: pending_bump_def pending_unpark_def)

lemma active_workers_same:
  "wpc t = (wpc s)(w := pc') \<Longrightarrow> inactive pc' = inactive (wpc s w) \<Longrightarrow> active_workers n t = active_workers n s"
  by (auto simp: active_workers_def)

text \<open>A step of worker \<open>w\<close> that touches neither the epoch word nor the parking lot.\<close>

lemma quiet_step_inv:
  assumes inv: "sched_inv P n s" and w: "w < n" and np: "w \<notin> pl_parked P (lot s)"
    and t: "wpc t = (wpc s)(w := pc')" "ext t = ext s" "status t = status s" "lot t = lot s"
      "n_epochs t = n_epochs s" "\<not> panic t"
    and pc': "inactive pc' = inactive (wpc s w)" "owes_bump (wpc s w) \<longrightarrow> owes_bump pc'"
      "owes_unpark (wpc s w) \<longrightarrow> owes_unpark pc'"
    and q: "\<And>v. v \<noteq> w \<Longrightarrow> queue t v \<noteq> [] \<Longrightarrow> queue s v \<noteq> [] \<or> owes_bump pc'"
    and ok: "pc_ok P n t w pc'"
  shows "sched_inv P n t"
proof (rule sched_inv_stepI [OF inv t(1)])
  note mono = pending_mono[OF t(1,2)]
  have bump: "pending_bump n t" if "owes_bump pc'" using that w t(1) by (auto simp: pending_bump_def)
  show "rely P n v s t" if "v < n" "v \<noteq> w" for v
    using q[OF that(2)] bump mono(1)[OF pc'(2)] mono(2)[OF pc'(3)] t by (auto simp: rely_def)
  show "\<forall>v \<in> pl_parked P (lot t). v < n \<and> (\<exists>sn. wpc t v = Parked sn)"
    using inv np t by (auto simp: sched_inv_def)
qed (use inv t pc' ok active_workers_same[OF t(1) pc'(1)] in \<open>auto simp: sched_inv_def\<close>)


lemmas sched_upds = go_def setq_def reseed_def pop_own_def

lemma not_parked:
  "sched_inv P n s \<Longrightarrow> (\<And>sn. wpc s w \<noteq> Parked sn) \<Longrightarrow> w \<notin> pl_parked P (lot s)"
  by (auto simp: sched_inv_def)

lemma sched_inv_pc: "sched_inv P n s \<Longrightarrow> w < n \<Longrightarrow> pc_ok P n s w (wpc s w)"
  by (auto simp: sched_inv_def)

lemma body_step_inv:
  assumes inv: "sched_inv P n s" and w: "w < n" and pc: "wpc s w = Poll j Body"
  shows "sched_inv P n (body_step n w j b s)"
proof -
  have np: "w \<notin> pl_parked P (lot s)" using not_parked[OF inv] pc by simp
  have nopanic: "\<not> panic s" using inv by (simp add: sched_inv_def)
  note quiet = quiet_step_inv[OF inv w np]
  show ?thesis
  proof (cases b)
    case B_return
    show ?thesis by (rule quiet[where pc' = Chk_shutdown]) (use pc nopanic B_return in \<open>simp_all add: sched_upds pc_ok_def\<close>)
  next
    case (B_spawn t)
    show ?thesis
    proof (cases "unat (seed s w) mod n + 1 \<noteq> n")
      case True
      show ?thesis by (rule quiet[where pc' = "Poll j (Push [])"])
          (use pc nopanic B_spawn True in \<open>auto simp: sched_upds pc_ok_def Let_def\<close>)
    next
      case False
      show ?thesis by (rule quiet[where pc' = "Poll j Body"])
          (use pc nopanic B_spawn False in \<open>auto simp: sched_upds pc_ok_def Let_def fun_upd_idem\<close>)
    qed
  next
    case (B_defer t)
    show ?thesis by (rule quiet[where pc' = "Poll j Body"])
        (use pc nopanic B_defer in \<open>auto simp: sched_upds pc_ok_def fun_upd_idem\<close>)
  next
    case B_rng
    show ?thesis by (rule quiet[where pc' = "Poll j Body"])
        (use pc nopanic B_rng in \<open>auto simp: sched_upds pc_ok_def fun_upd_idem\<close>)
  next
    case B_shutdown_async
    show ?thesis by (rule quiet[where pc' = "Poll j (Push [0..<n])"])
        (use pc nopanic B_shutdown_async in \<open>simp_all add: sched_upds pc_ok_def\<close>)
  qed
qed

text \<open>The pops of the worker's own queue: a queue only shrinks.\<close>

lemma pop_own_inv:
  assumes inv: "sched_inv P n s" and w: "w < n" and pc: "\<And>sn. wpc s w \<noteq> Parked sn"
    and owes: "\<not> owes_bump (wpc s w)" "\<not> owes_unpark (wpc s w)"
    and none: "inactive none = inactive (wpc s w)" "queue s w = [] \<Longrightarrow> pc_ok P n (go w none s) w none"
    and some: "\<And>t. inactive (some t) = inactive (wpc s w)" "\<And>t. snap_of (some t) = None"
      "\<And>t q u. pc_cond P n u w (some t)"
  shows "sched_inv P n (pop_own w none some s)"
proof -
  note quiet = quiet_step_inv[OF inv w not_parked[OF inv pc]]
  have nopanic: "\<not> panic s" using inv by (simp add: sched_inv_def)
  show ?thesis
  proof (cases "queue s w")
    case Nil
    show ?thesis by (rule quiet[where pc' = none])
        (use Nil owes none nopanic in \<open>simp_all add: pop_own_def go_def\<close>)
  next
    case (Cons t ts)
    show ?thesis by (rule quiet[where pc' = "some t"])
        (use Cons owes some nopanic in \<open>auto simp: sched_upds pc_ok_def\<close>)
  qed
qed

text \<open>A step that only moves the worker's position (and possibly its seed).\<close>

lemma move_inv:
  assumes inv: "sched_inv P n s" and w: "w < n" and pc: "w \<notin> pl_parked P (lot s)"
    and owes: "\<not> owes_unpark (wpc s w)" "owes_bump (wpc s w) \<longrightarrow> owes_bump pc'"
    and t: "t = go w pc' s \<or> t = go w pc' (reseed w s)"
    and pc': "inactive pc' = inactive (wpc s w)" "pc_ok P n s w pc'" "\<And>sn. pc' \<noteq> Parked sn"
      "\<And>sn. pc' = Wait_park sn \<Longrightarrow> wpc s w = Wait_load sn" "\<And>sn. pc' \<noteq> Wait_load sn"
  shows "sched_inv P n t"
proof (rule quiet_step_inv[OF inv w pc, where pc' = pc'])
  show wt: "wpc t = (wpc s)(w := pc')" using t by (auto simp: sched_upds)
  show "pc_ok P n t w pc'"
  proof -
    have pb: "pending_bump n s \<Longrightarrow> pending_bump n t"
      using pending_mono(1)[OF wt, of n] owes t by (auto simp: sched_upds)
    show ?thesis using pc' pb t
      by (cases pc') (auto simp: pc_ok_def snap_ok_def sched_upds)
  qed
qed (use inv t owes pc' in \<open>auto simp: sched_upds sched_inv_def\<close>)


text \<open>While somebody is active, every parked worker has an \<open>unpark_all\<close> coming (Lemma A of the source).\<close>

lemma parked_while_active:
  assumes "sched_inv P n s" "v \<in> pl_parked P (lot s)" "active_count (status s) \<noteq> 0"
  shows "pending_unpark n s"
proof -
  from assms(1,2) obtain sn where "v < n" "wpc s v = Parked sn" by (auto simp: sched_inv_def)
  with assms sched_inv_pc[OF assms(1), of v] show ?thesis by (auto simp: pc_ok_def)
qed

lemma parked_queue:
  assumes "sched_inv P n s" "w \<in> pl_parked P (lot s)" "queue s w \<noteq> []"
  shows "pending_bump n s \<or> pending_unpark n s"
proof -
  from assms(1,2) obtain sn where "w < n" "wpc s w = Parked sn" by (auto simp: sched_inv_def)
  with sched_inv_pc[OF assms(1), of w] assms(2,3) show ?thesis by (auto simp: pc_ok_def)
qed

text \<open>A change of the epoch word, seen by the other workers.\<close>

lemma word_change_rely:
  assumes inv: "sched_inv P n s"
    and t: "n_epochs s \<le> n_epochs t" "queue t = queue s" "lot t = lot s"
    and wake: "active_count (status s) = 0 \<Longrightarrow> pending_unpark n t"
    and keep: "pending_unpark n s \<Longrightarrow> pending_unpark n t"
      "pending_bump n s \<Longrightarrow> pending_bump n t \<or> n_epochs s < n_epochs t"
  shows "rely P n v s t"
  using t wake keep parked_while_active[OF inv, of v] by (auto simp: rely_def)

lemma card_active_dec:
  assumes "w < n" "\<not> inactive (wpc s w)" "inactive pc'" "wpc t = (wpc s)(w := pc')"
  shows "card (active_workers n t) = card (active_workers n s) - 1" "0 < card (active_workers n s)"
proof -
  have "active_workers n t = active_workers n s - {w}" "w \<in> active_workers n s"
    using assms by (auto simp: active_workers_def)
  moreover have "finite (active_workers n s)" by (simp add: active_workers_def)
  ultimately show "card (active_workers n t) = card (active_workers n s) - 1" "0 < card (active_workers n s)"
    by (auto simp: card_gt_0_iff)
qed

lemma card_active_inc:
  assumes "w < n" "inactive (wpc s w)" "\<not> inactive pc'" "wpc t = (wpc s)(w := pc')"
  shows "card (active_workers n t) = card (active_workers n s) + 1" "card (active_workers n s) < n"
proof -
  have eq: "active_workers n t = insert w (active_workers n s)" "w \<notin> active_workers n s"
    using assms by (auto simp: active_workers_def)
  have sub: "active_workers n t \<subseteq> {..<n}" by (auto simp: active_workers_def)
  have "finite (active_workers n s)" by (simp add: active_workers_def)
  with eq show "card (active_workers n t) = card (active_workers n s) + 1" by simp
  with card_mono[OF _ sub] show "card (active_workers n s) < n" by simp
qed

lemma card_inactive_less:
  assumes "w < n" "inactive (wpc s w)"
  shows "card (active_workers n s) < n"
proof -
  have "active_workers n s \<subseteq> {..<n} - {w}" using assms by (auto simp: active_workers_def)
  from card_mono[OF _ this] assms(1) show ?thesis by simp
qed

lemma set_inactive_inv:
  assumes inv: "sched_inv P n s" and w: "w < n" and pc: "wpc s w = Set_inactive i"
    and t: "t = go w (Head \<lparr>old_status = status s - 1, old_instant = i, seen = n_epochs s\<rparr>)
      (s\<lparr>status := status s - 1\<rparr>)"
  shows "0 < unat (active_count (status s))" and "sched_inv P n t"
proof -
  let ?pc = "Head \<lparr>old_status = status s - 1, old_instant = i, seen = n_epochs s\<rparr>"
  have wt: "wpc t = (wpc s)(w := ?pc)" by (simp add: t go_def)
  have act: "card (active_workers n t) = card (active_workers n s) - 1"
    and pos: "0 < card (active_workers n s)"
    using card_active_dec[OF w _ _ wt] pc by simp_all
  show cnt: "0 < unat (active_count (status s))" using inv pos by (simp add: sched_inv_def)
  then have nz: "active_count (status s) \<noteq> 0" by auto
  show "sched_inv P n t"
  proof (rule sched_inv_stepI [OF inv wt])
    note keep = pending_mono[OF wt, of n]
    show "rely P n v s t" if "v < n" "v \<noteq> w" for v
      by (rule word_change_rely[OF inv]) (use keep pc nz in \<open>simp_all add: t go_def\<close>)
    have "card (active_workers n s) \<le> n"
      using card_mono[of "{..<n}" "active_workers n s"] by (auto simp: active_workers_def)
    then show "pc_ok P n t w ?pc"
      using inv cnt by (auto simp: pc_ok_def snap_ok_def t go_def sched_inv_def ec.cnt_dec ec.ep_dec)
    show "unat (active_count (status t)) = card (active_workers n t)"
      using inv act cnt by (simp add: t go_def sched_inv_def ec.cnt_dec)
    show "unat (epoch (status t)) = n_epochs t mod 8388608"
      using inv cnt by (simp add: t go_def sched_inv_def ec.ep_dec)
    show "\<forall>v \<in> pl_parked P (lot t). v < n \<and> (\<exists>sn. wpc t v = Parked sn)"
      using inv not_parked[OF inv, of w] pc by (auto simp: t go_def sched_inv_def)
    show "\<not> panic t" using inv by (simp add: t go_def sched_inv_def)
  qed
qed

lemma set_active_inv:
  assumes inv: "sched_inv P n s" and w: "w < n" and pc: "wpc s w = Set_active j"
    and pc': "pc' = (if active_count (status s) = 0 then Active_wake j else Poll j (poll_start j))"
    and t: "t = go w pc' (s\<lparr>status := status s + 1\<rparr>)"
  shows "unat (active_count (status s)) < 511" and "sched_inv P n t"
proof -
  have wt: "wpc t = (wpc s)(w := pc')" by (simp add: t go_def)
  have act: "card (active_workers n t) = card (active_workers n s) + 1"
    and less: "card (active_workers n s) < n"
    using card_active_inc[OF w _ _ wt] pc pc' by (simp_all split: if_splits)
  show cnt: "unat (active_count (status s)) < 511" using inv less by (simp add: sched_inv_def)
  show "sched_inv P n t"
  proof (rule sched_inv_stepI [OF inv wt])
    note keep = pending_mono[OF wt, of n]
    show "rely P n v s t" if "v < n" "v \<noteq> w" for v
    proof (rule word_change_rely[OF inv])
      show "pending_unpark n t" if "active_count (status s) = 0"
        using that w pc' wt by (auto simp: pending_unpark_def)
    qed (use keep pc in \<open>simp_all add: t go_def\<close>)
    show "pc_ok P n t w pc'" using pc' by (auto simp: pc_ok_def)
    show "unat (active_count (status t)) = card (active_workers n t)"
      using inv act cnt by (simp add: t go_def sched_inv_def ec.cnt_inc)
    show "unat (epoch (status t)) = n_epochs t mod 8388608"
      using inv cnt by (simp add: t go_def sched_inv_def ec.ep_inc)
    show "\<forall>v \<in> pl_parked P (lot t). v < n \<and> (\<exists>sn. wpc t v = Parked sn)"
      using inv not_parked[OF inv, of w] pc by (auto simp: t go_def sched_inv_def)
    show "\<not> panic t" using inv by (simp add: t go_def sched_inv_def)
  qed
qed


lemma bump_eq:
  "bump s = (s\<lparr>status := status s + EPOCH, n_epochs := Suc (n_epochs s)\<rparr>, active_count (status s) = 0)"
  by (simp add: bump_def next_epoch_def Let_def)

lemma epoch_bump:
  assumes "unat (epoch e) = k mod 8388608"
  shows "unat (epoch (e + EPOCH)) = Suc k mod 8388608"
  using assms ec.ep_bump[of e] by (simp add: mod_simps)

lemma bump_inv:
  assumes inv: "sched_inv P n s" and w: "w < n" and pc: "wpc s w = Poll j (Push [])"
    and pc': "pc' = (if active_count (status s) = 0 then Poll j Unpark else after_epoch j)"
    and t: "t = go w pc' (s\<lparr>status := status s + EPOCH, n_epochs := Suc (n_epochs s)\<rparr>)"
  shows "sched_inv P n t"
proof (rule sched_inv_stepI [OF inv])
  show wt: "wpc t = (wpc s)(w := pc')" by (simp add: t go_def)
  have act: "\<not> inactive pc'" and ok: "pc_ok P n t w pc'" using pc' by (cases j; simp add: pc_ok_def)+
  note keep = pending_mono(2)[OF wt, of n]
  show "rely P n v s t" if "v < n" "v \<noteq> w" for v
  proof (rule word_change_rely[OF inv])
    show "pending_unpark n t" if "active_count (status s) = 0"
      using that w pc' wt by (auto simp: pending_unpark_def)
  qed (use keep pc in \<open>simp_all add: t go_def\<close>)
  show "pc_ok P n t w pc'" by (rule ok)
  have "active_workers n t = active_workers n s" by (rule active_workers_same[OF wt]) (simp add: act pc)
  then show "unat (active_count (status t)) = card (active_workers n t)"
    using inv by (simp add: t go_def sched_inv_def ec.cnt_bump)
  show "unat (epoch (status t)) = n_epochs t mod 8388608"
    using inv epoch_bump by (simp add: t go_def sched_inv_def)
  show "\<forall>v \<in> pl_parked P (lot t). v < n \<and> (\<exists>sn. wpc t v = Parked sn)"
    using inv not_parked[OF inv, of w] pc by (auto simp: t go_def sched_inv_def)
  show "\<not> panic t" using inv by (simp add: t go_def sched_inv_def)
qed

text \<open>A step of a thread outside the runtime leaves the workers' positions alone.\<close>

lemma ext_step_inv:
  assumes inv: "sched_inv P n s"
    and t: "wpc t = wpc s" "panic t = panic s" "pl_parked P (lot t) \<subseteq> pl_parked P (lot s)"
      "unat (active_count (status t)) = unat (active_count (status s))"
      "unat (epoch (status t)) = n_epochs t mod 8388608"
    and rely: "\<And>v. v < n \<Longrightarrow> rely P n v s t"
  shows "sched_inv P n t"
proof (rule sched_inv_stepI [OF inv])
  show "wpc t = (wpc s)(n := wpc s n)" by (simp add: t)
  show "unat (active_count (status t)) = card (active_workers n t)"
    using inv t by (simp add: sched_inv_def active_workers_def)
qed (use inv t rely in \<open>auto simp: sched_inv_def\<close>)

lemma ext_pending:
  assumes "wpc t = wpc s" "ext t = (ext s)(e := x)"
  shows "(\<forall>ps. ext s e = E_push ps \<longrightarrow> (\<exists>qs. x = E_push qs)) \<Longrightarrow> pending_bump n s \<Longrightarrow> pending_bump n t"
    and "(ext s e = E_unpark \<longrightarrow> x = E_unpark) \<Longrightarrow> pending_unpark n s \<Longrightarrow> pending_unpark n t"
    and "x = E_push qs \<Longrightarrow> pending_bump n t" and "x = E_unpark \<Longrightarrow> pending_unpark n t"
  using assms by (auto simp: pending_bump_def pending_unpark_def)

lemma do_push_simps [simp]:
  "wpc (do_push p s) = wpc s" "status (do_push p s) = status s" "lot (do_push p s) = lot s"
  "ext (do_push p s) = ext s" "n_epochs (do_push p s) = n_epochs s" "panic (do_push p s) = panic s"
  by (cases p; simp add: setq_def)+

lemma ext_push_inv:
  assumes inv: "sched_inv P n s" and t: "t = (do_push p s)\<lparr>ext := (ext s)(e := E_push qs)\<rparr>"
    and e: "ext s e \<noteq> E_unpark"
  shows "sched_inv P n t"
proof (rule ext_step_inv[OF inv])
  have pend: "wpc t = wpc s" "ext t = (ext s)(e := E_push qs)" by (simp_all add: t)
  have "pending_bump n t" "pending_unpark n s \<Longrightarrow> pending_unpark n t"
    using ext_pending(2,3)[OF pend] e by simp_all
  then show "rely P n v s t" for v by (auto simp: rely_def t)
qed (use inv in \<open>simp_all add: t sched_inv_def\<close>)

lemma ext_start_inv:
  assumes inv: "sched_inv P n s" and t: "t = s\<lparr>ext := (ext s)(e := E_push ps)\<rparr>" and e: "ext s e = E_idle"
  shows "sched_inv P n t"
proof (rule ext_step_inv[OF inv])
  have pend: "wpc t = wpc s" "ext t = (ext s)(e := E_push ps)" by (simp_all add: t)
  have "pending_bump n t" "pending_unpark n s \<Longrightarrow> pending_unpark n t"
    using ext_pending(2,3)[OF pend] e by simp_all
  then show "rely P n v s t" for v by (auto simp: rely_def t)
qed (use inv in \<open>simp_all add: t sched_inv_def\<close>)

lemma ext_bump_inv:
  assumes inv: "sched_inv P n s" and e: "ext s e = E_push []"
    and x: "x = (if active_count (status s) = 0 then E_unpark else E_idle)"
    and t: "t = s\<lparr>status := status s + EPOCH, n_epochs := Suc (n_epochs s), ext := (ext s)(e := x)\<rparr>"
  shows "sched_inv P n t"
proof (rule ext_step_inv[OF inv])
  have pend: "wpc t = wpc s" "ext t = (ext s)(e := x)" by (simp_all add: t)
  show "rely P n v s t" for v
    by (rule word_change_rely[OF inv])
      (use ext_pending(2,4)[OF pend, of n] e x in \<open>simp_all add: t split: if_splits\<close>)
  show "unat (epoch (status t)) = n_epochs t mod 8388608"
    using inv epoch_bump by (simp add: t sched_inv_def)
qed (use inv in \<open>simp_all add: t sched_inv_def ec.cnt_bump\<close>)

lemma tick_inv:
  assumes inv: "sched_inv P n s"
  shows "sched_inv P n (s\<lparr>now := now s + d\<rparr>)"
  by (rule ext_step_inv[OF inv])
    (use inv in \<open>auto simp: sched_inv_def rely_def pending_bump_def pending_unpark_def\<close>)

context parking_lot_ops
begin

lemma ext_unpark_inv:
  assumes inv: "sched_inv P n s" and e: "ext s e = E_unpark"
    and t: "t = s\<lparr>lot := pl_unpark_all P (lot s), ext := (ext s)(e := E_idle)\<rparr>"
  shows "sched_inv P n t"
proof (rule ext_step_inv[OF inv])
  have pend: "wpc t = wpc s" "ext t = (ext s)(e := E_idle)" by (simp_all add: t)
  have "pending_bump n s \<Longrightarrow> pending_bump n t" using ext_pending(1)[OF pend] e by simp
  then show "rely P n v s t" for v by (simp add: rely_def t parked_unpark_all)
qed (use inv in \<open>simp_all add: t sched_inv_def parked_unpark_all\<close>)

lemma unpark_inv:
  assumes inv: "sched_inv P n s" and w: "w < n"
    and pc: "owes_unpark (wpc s w)" "\<not> inactive (wpc s w)" "\<not> owes_bump (wpc s w)"
    and t: "t = go w pc' (s\<lparr>lot := pl_unpark_all P (lot s)\<rparr>)"
    and pc': "\<not> inactive pc'" "snap_of pc' = None" "\<And>u. pc_cond P n u w pc'"
  shows "sched_inv P n t"
proof (rule sched_inv_stepI [OF inv])
  show wt: "wpc t = (wpc s)(w := pc')" by (simp add: t go_def)
  have "pending_bump n s \<Longrightarrow> pending_bump n t"
    using pending_mono(1)[OF wt, of n] pc by (simp add: t go_def)
  then show "rely P n v s t" for v by (simp add: rely_def t go_def parked_unpark_all)
  have "active_workers n t = active_workers n s" by (rule active_workers_same[OF wt]) (use pc pc' in simp)
  then show "unat (active_count (status t)) = card (active_workers n t)"
    using inv by (simp add: t go_def sched_inv_def)
qed (use inv pc' in \<open>simp_all add: t go_def sched_inv_def parked_unpark_all pc_ok_def\<close>)

lemma park_inv:
  assumes inv: "sched_inv P n s" and w: "w < n" and pc: "wpc s w = Wait_park sn"
    and same: "status s = old_status sn" and time: "n_epochs s - seen sn < 8388608"
    and t: "t = go w (Parked sn) (s\<lparr>lot := pl_park P w (lot s)\<rparr>)"
  shows "sched_inv P n t"
proof (rule sched_inv_stepI [OF inv])
  show wt: "wpc t = (wpc s)(w := Parked sn)" by (simp add: t go_def)
  note keep = pending_mono[OF wt, of n]
  have pb: "pending_bump n s \<Longrightarrow> pending_bump n t" and pu: "pending_unpark n s \<Longrightarrow> pending_unpark n t"
    using keep pc by (simp_all add: t go_def)
  then show "rely P n v s t" if "v < n" "v \<noteq> w" for v
    using that by (simp add: rely_def t go_def parked_park)
  from sched_inv_pc[OF inv w] pc have ok: "snap_ok n s sn" "active_count (old_status sn) = 0"
    "queue s w \<noteq> [] \<longrightarrow> pending_bump n s \<or> seen sn < n_epochs s" by (auto simp: pc_ok_def)
  have "n_epochs s mod 8388608 = seen sn mod 8388608" "seen sn \<le> n_epochs s"
    using inv ok(1) same by (auto simp: sched_inv_def snap_ok_def)
  then have "8388608 dvd n_epochs s - seen sn" by (simp add: mod_eq_dvd_iff_nat)
  with time have "n_epochs s = seen sn" using \<open>seen sn \<le> n_epochs s\<close> by (auto dest: dvd_imp_le)
  with ok pb same show "pc_ok P n t w (Parked sn)" by (auto simp: pc_ok_def snap_ok_def t go_def)
  have "active_workers n t = active_workers n s" by (rule active_workers_same[OF wt]) (use pc in simp)
  then show "unat (active_count (status t)) = card (active_workers n t)"
    using inv by (simp add: t go_def sched_inv_def)
qed (use inv w in \<open>auto simp: t go_def sched_inv_def parked_park\<close>)


lemma poll_act_inv:
  assumes inv: "sched_inv P n s" and w: "w < n" and pc: "wpc s w = Poll j a"
  shows "sched_inv P n (poll_act_step P n w j a b s)"
proof -
  have np: "w \<notin> pl_parked P (lot s)" using not_parked[OF inv] pc by simp
  have nopanic: "\<not> panic s" using inv by (simp add: sched_inv_def)
  note quiet = quiet_step_inv[OF inv w np]
  show ?thesis
  proof (cases a)
    case Body
    with body_step_inv[OF inv w] pc show ?thesis by (simp add: poll_act_step_def)
  next
    case Shut_flag
    show ?thesis by (rule quiet[where pc' = "Poll j (Push (other_workers n w))"])
        (use pc nopanic Shut_flag in \<open>simp_all add: poll_act_step_def sched_upds pc_ok_def\<close>)
  next
    case (Push ws)
    show ?thesis
    proof (cases ws)
      case Nil
      with Push bump_inv[OF inv w] pc show ?thesis by (simp add: poll_act_step_def bump_eq)
    next
      case (Cons i us)
      let ?pc = "Poll j (if j = Shut \<and> shutdown s i then Push us else Front i us)"
      show ?thesis by (rule quiet[where pc' = ?pc])
          (use pc nopanic Push Cons in \<open>simp_all add: poll_act_step_def sched_upds pc_ok_def\<close>)
    qed
  next
    case (Front i us)
    show ?thesis by (rule quiet[where pc' = "Poll j (Push us)"])
        (use pc nopanic Front in \<open>simp_all add: poll_act_step_def sched_upds pc_ok_def\<close>)
  next
    case Unpark
    show ?thesis by (rule unpark_inv[OF inv w, where pc' = "after_epoch j"])
        (use pc Unpark in \<open>cases j; simp add: poll_act_step_def\<close>)+
  qed
qed

lemma steal_inv:
  assumes inv: "sched_inv P n s" and w: "w < n" and pc: "wpc s w = Steal (Suc k) sn"
  shows "sched_inv P n (steal_step n w k sn s)"
proof -
  have np: "w \<notin> pl_parked P (lot s)" using not_parked[OF inv] pc by simp
  from sched_inv_pc[OF inv w] pc have ok: "snap_ok n s sn" "active_count (old_status sn) \<noteq> 0"
    by (auto simp: pc_ok_def)
  then have n: "n - 1 \<noteq> 0" by (auto simp: snap_ok_def word_unat_eq_iff)
  define v where "v = other_workers n w ! (unat (seed s w) mod (n - 1))"
  define pc' where "pc' = (if queue s v = [] then Steal k sn else Steal_lock k v sn)"
  show ?thesis by (rule move_inv[OF inv w np, where pc' = pc'])
      (use pc ok n in \<open>auto simp: steal_step_def Let_def pc_ok_def pc'_def v_def split: if_splits\<close>)
qed

lemma steal_lock_inv:
  assumes inv: "sched_inv P n s" and w: "w < n" and pc: "wpc s w = Steal_lock k v sn"
    and step: "wstep P n w b weak s = Some t"
  shows "sched_inv P n t"
proof -
  have np: "w \<notin> pl_parked P (lot s)" using not_parked[OF inv] pc by simp
  show ?thesis
  proof (cases "queue s v")
    case Nil
    with step pc have t: "t = go w (Steal k sn) (reseed w s)" by (simp add: wstep_def)
    show ?thesis by (rule move_inv[OF inv w np]) (use pc t sched_inv_pc[OF inv w] in \<open>auto simp: pc_ok_def\<close>)
  next
    case (Cons j js)
    with step pc have t: "t = go w (Set_active j) (setq v js s)" by (simp add: wstep_def)
    show ?thesis by (rule quiet_step_inv[OF inv w np, where pc' = "Set_active j"])
        (use inv pc t Cons in \<open>auto simp: sched_upds pc_ok_def sched_inv_def split: if_splits\<close>)
  qed
qed

text \<open>The steps that only move the worker on.\<close>

lemma move_wstep_inv:
  assumes inv: "sched_inv P n s" and w: "w < n" and step: "wstep P n w b weak s = Some t"
    and pc: "wpc s w \<in> {Chk_shutdown, Get_instant, Head sn, Steal 0 sn, Wait_load sn, Parked sn, Refresh sn, Reload i sn}"
  shows "sched_inv P n t"
proof -
  have np: "w \<notin> pl_parked P (lot s)"
    using not_parked[OF inv, of w] pc step by (auto simp: wstep_def split: if_splits)
  note move = move_inv[OF inv w np]
  note ok = sched_inv_pc[OF inv w]
  define new where "new = \<lparr>old_status = status s, old_instant = i, seen = n_epochs s\<rparr>"
  have new_ok: "snap_ok n s new" if "inactive (wpc s w)"
    using inv card_inactive_less[OF w that] by (simp add: new_def snap_ok_def sched_inv_def)
  from pc consider "wpc s w = Chk_shutdown" | "wpc s w = Get_instant" | "wpc s w = Head sn"
    | "wpc s w = Steal 0 sn" | "wpc s w = Wait_load sn" | "wpc s w = Parked sn" | "wpc s w = Refresh sn"
    | "wpc s w = Reload i sn" by blast
  then show ?thesis
  proof cases
    case 1 show ?thesis by (rule move[where pc' = "if shutdown s w then Exited else Drain"])
        (use 1 step in \<open>auto simp: wstep_def pc_ok_def split: if_splits\<close>)
  next
    case 2 show ?thesis by (rule move[where pc' = "Set_inactive (now s)"])
        (use 2 step in \<open>auto simp: wstep_def pc_ok_def\<close>)
  next
    case 3 show ?thesis
      by (rule move[where pc' = "if active_count (old_status sn) \<noteq> 0 then Steal (4 * n) sn else Recheck sn"])
        (use 3 step ok in \<open>auto simp: wstep_def pc_ok_def split: if_splits\<close>)
  next
    case 5 show ?thesis
      by (rule move[where pc' = "if wait_next_epoch (status s) (old_status sn) then Wait_park sn else Refresh sn"])
        (use 5 step ok in \<open>auto simp: wstep_def pc_ok_def split: if_splits\<close>)
  next
    case 7 show ?thesis by (rule move[where pc' = "Reload (now s) sn"])
        (use 7 step ok in \<open>auto simp: wstep_def pc_ok_def\<close>)
  next
    case 8 show ?thesis
      by (rule move[where pc' = "if epoch (old_status new) > epoch (old_status sn) then Local_pop new else Head new"])
        (use 8 step new_ok in \<open>auto simp: wstep_def pc_ok_def new_def get_status_def Let_def split: if_splits\<close>)
  qed (rule move[where pc' = "Refresh sn"]; use step ok in \<open>auto simp: wstep_def pc_ok_def split: if_splits\<close>)+
qed

text \<open>The steps that pop a queue.\<close>

lemma pop_wstep_inv:
  assumes inv: "sched_inv P n s" and w: "w < n" and step: "wstep P n w b weak s = Some t"
    and pc: "wpc s w \<in> {Drain, Recheck sn, Local_pop sn, Steal_lock k v sn, Steal (Suc k) sn}"
  shows "sched_inv P n t"
proof -
  note ok = sched_inv_pc[OF inv w]
  note pop = pop_own_inv[OF inv w]
  from pc consider "wpc s w = Drain" | "wpc s w = Recheck sn" | "wpc s w = Local_pop sn"
    | "wpc s w = Steal_lock k v sn" | "wpc s w = Steal (Suc k) sn" by blast
  then show ?thesis
  proof cases
    case 1
    with step have t: "t = pop_own w Get_instant (\<lambda>t. Poll t (poll_start t)) s" by (simp add: wstep_def)
    show ?thesis unfolding t by (rule pop) (use 1 in \<open>auto simp: pc_ok_def\<close>)
  next
    case 2
    with step have t: "t = pop_own w (Wait_load sn) Set_active s" by (simp add: wstep_def)
    show ?thesis unfolding t by (rule pop) (use 2 ok in \<open>auto simp: pc_ok_def go_def snap_ok_def\<close>)
  next
    case 3
    with step have t: "t = pop_own w (Head sn) Set_active s" by (simp add: wstep_def)
    show ?thesis unfolding t by (rule pop) (use 3 ok in \<open>auto simp: pc_ok_def go_def snap_ok_def\<close>)
  next
    case 4
    then show ?thesis using steal_lock_inv[OF inv w _ step] by blast
  next
    case 5
    with step steal_inv[OF inv w 5] show ?thesis by (simp add: wstep_def)
  qed
qed

text \<open>The steps on the epoch word and the parking lot.\<close>

lemma word_wstep_inv:
  assumes inv: "sched_inv P n s" and w: "w < n" and step: "wstep P n w b weak s = Some t"
    and time: "timely n s" and pc: "wpc s w \<in> {Set_inactive i, Set_active j, Active_wake j, Wait_park sn}"
  shows "sched_inv P n t"
proof -
  from pc consider "wpc s w = Set_inactive i" | "wpc s w = Set_active j" | "wpc s w = Active_wake j"
    | "wpc s w = Wait_park sn" "wait_validate (status s) (old_status sn) (\<not> weak) (now s - old_instant sn)"
    | "wpc s w = Wait_park sn" "\<not> wait_validate (status s) (old_status sn) (\<not> weak) (now s - old_instant sn)"
    by blast
  then show ?thesis
  proof cases
    case 1
    from set_inactive_inv[OF inv w 1 refl] step 1 show ?thesis
      by (simp add: wstep_def set_inactive_def Let_def sub_checked_1)
  next
    case 2
    from set_active_inv[OF inv w 2 refl refl] step 2 show ?thesis
      by (simp add: wstep_def set_active_def Let_def add_checked_1)
  next
    case 3
    with step have t: "t = go w (Poll j (poll_start j)) (s\<lparr>lot := pl_unpark_all P (lot s)\<rparr>)"
      by (simp add: wstep_def)
    show ?thesis by (rule unpark_inv[OF inv w _ _ _ t]) (use 3 in simp_all)
  next
    case 4
    with step time w have "status s = old_status sn" "n_epochs s - seen sn < 8388608"
      "t = go w (Parked sn) (s\<lparr>lot := pl_park P w (lot s)\<rparr>)"
      by (auto simp: wstep_def wait_validate_def timely_def split: if_splits)
    then show ?thesis by (rule park_inv[OF inv w 4(1)])
  next
    case 5
    show ?thesis by (rule move_inv[OF inv w not_parked[OF inv], where pc' = "Refresh sn"])
        (use 5 step sched_inv_pc[OF inv w] in \<open>auto simp: wstep_def pc_ok_def\<close>)
  qed
qed

lemma wstep_inv:
  assumes inv: "sched_inv P n s" and w: "w < n" and time: "timely n s"
    and step: "wstep P n w b weak s = Some t"
  shows "sched_inv P n t"
proof (cases "wpc s w")
  case (Poll j a)
  with step poll_act_inv[OF inv w Poll, of b] show ?thesis by (simp add: wstep_def)
next
  case (Steal k sn)
  with move_wstep_inv[OF inv w step] pop_wstep_inv[OF inv w step] show ?thesis by (cases k) auto
qed (use move_wstep_inv[OF inv w step] pop_wstep_inv[OF inv w step] word_wstep_inv[OF inv w step time] step
     in \<open>auto simp: wstep_def\<close>)

lemma estep_inv:
  assumes inv: "sched_inv P n s" and step: "estep P n e ps s = Some t"
  shows "sched_inv P n t"
proof (cases "ext s e")
  case E_idle
  with step ext_start_inv[OF inv] show ?thesis by (auto simp: estep_def split: if_splits)
next
  case (E_push qs)
  show ?thesis
  proof (cases qs)
    case Nil
    with E_push step ext_bump_inv[OF inv _ refl refl] show ?thesis
      by (auto simp: estep_def bump_eq)
  next
    case (Cons p us)
    with E_push step have "t = (do_push p s)\<lparr>ext := (ext s)(e := E_push us)\<rparr>"
      by (simp add: estep_def Let_def)
    then show ?thesis by (rule ext_push_inv[OF inv]) (simp add: E_push)
  qed
next
  case E_unpark
  with step ext_unpark_inv[OF inv E_unpark refl] show ?thesis by (simp add: estep_def)
qed

lemma sched_step_inv: "sched_inv P n s \<Longrightarrow> sched_step P n s t \<Longrightarrow> sched_inv P n t"
proof -
  assume inv: "sched_inv P n s" and "sched_step P n s t"
  then obtain l where time: "timely n s" and step: "sstep P n l s = Some t"
    by (auto simp: sched_step_def)
  show "sched_inv P n t"
  proof (cases l)
    case (W w b weak)
    with step wstep_inv[OF inv _ time] show ?thesis by (auto split: if_splits)
  next
    case (E e ps)
    with step estep_inv[OF inv] show ?thesis by simp
  next
    case (Tick d)
    with step tick_inv[OF inv] show ?thesis by auto
  qed
qed

lemma sched_init_inv:
  assumes "sched_init P n s"
  shows "sched_inv P n s"
proof -
  from assms have n: "n < 2 ^ 32" "Epoch_new (of_nat n) = Inr (status s)" by (auto simp: sched_init_def)
  then have "unat (of_nat n :: u32) = n" by (simp add: unat_of_nat)
  with n have "n \<le> 511" "status s = of_nat n" "unat (status s) = n"
    by (auto simp: Epoch_new_def EPOCH_eq word_less_nat_alt split: if_splits)
  with assms show ?thesis
    by (auto simp: sched_init_def sched_inv_def word_facts active_workers_def pc_ok_def)
qed

end

sublocale parking_lot_ops \<subseteq> sched: inductive_invariant "sched_init P n" "sched_step P n" "sched_inv P n" for n
  by unfold_locales (auto intro: sched_init_inv sched_step_inv)


section \<open>Properties\<close>

lemma sched_reach_inv: "parking_lot_ops P \<Longrightarrow> sched_reach P n s \<Longrightarrow> sched_inv P n s"
  by (rule inductive_invariant.reach_inv)
    (auto simp: inductive_invariant_def intro: parking_lot_ops.sched_init_inv parking_lot_ops.sched_step_inv)

text \<open>
  C2: no deadlock.  If at least one worker is parked in \<open>wait_next_epoch\<close>, every other worker is parked or has
  left its loop, and no outside thread is between its pushes and the end of its \<open>next_epoch\<close>, then all workers
  are parked and every queue is empty.  Lemma D of the source is the case in which all are parked; after a complete
  shutdown nobody is parked, and the hypothesis excludes that state.
\<close>

theorem scheduler_no_deadlock:
  assumes "parking_lot_ops P" and "sched_reach P n s"
    and "\<forall>w<n. w \<in> pl_parked P (lot s) \<or> wpc s w = Exited" and "v \<in> pl_parked P (lot s)"
    and "\<forall>e. ext s e = E_idle"
  shows "\<forall>w<n. w \<in> pl_parked P (lot s) \<and> queue s w = []"
proof -
  have inv: "sched_inv P n s" by (rule sched_reach_inv[OF assms(1,2)])
  have pcs: "wpc s w = Exited \<or> (\<exists>sn. wpc s w = Parked sn)" if "w < n" for w
    using inv assms(3) that by (auto simp: sched_inv_def)
  have owes: "\<not> owes_bump (wpc s w)" "\<not> owes_unpark (wpc s w)" if "w < n" for w
    using pcs[OF that] by auto
  have np: "\<not> pending_bump n s" "\<not> pending_unpark n s"
    using owes assms(5) by (auto simp: pending_bump_def pending_unpark_def)
  have parked: "w \<in> pl_parked P (lot s)" if "w < n" for w
  proof (rule ccontr)
    assume "w \<notin> pl_parked P (lot s)"
    with assms(3) that have "w \<in> active_workers n s" by (auto simp: active_workers_def)
    moreover have "finite (active_workers n s)" by (simp add: active_workers_def)
    ultimately have "active_count (status s) \<noteq> 0"
      using inv by (auto simp: sched_inv_def card_gt_0_iff word_unat_eq_iff)
    with parked_while_active[OF inv assms(4)] np show False by simp
  qed
  moreover have "queue s w = []" if "w < n" for w
    using parked_queue[OF inv parked[OF that]] np by blast
  ultimately show ?thesis by simp
qed

text \<open>
  C9: a parked worker is released.  If a worker is parked although its queue is
  not empty, then some thread is on its way to release it: it still owes the \<open>next_epoch\<close> of a
  push, or an \<open>unpark_all\<close>.
\<close>

theorem parked_worker_with_work:
  assumes "parking_lot_ops P" and "sched_reach P n s"
    and "w \<in> pl_parked P (lot s)" and "queue s w \<noteq> []"
  shows "pending_bump n s \<or> pending_unpark n s"
  by (rule parked_queue[OF sched_reach_inv[OF assms(1,2)] assms(3,4)])

text \<open>
  C12: the active count is exact and the loop never panics.  In every reachable state the low bits of
  the epoch word are the number of workers outside their idle phase, so neither \<open>set_active\<close> nor
  \<open>set_inactive\<close> overflows, and \<open>try_steal\<close> never divides by zero, with one worker included.
\<close>

theorem active_count_exact:
  assumes "parking_lot_ops P" and "sched_reach P n s"
  shows "\<not> panic s \<and> unat (active_count (status s)) = card {w. w < n \<and> \<not> inactive (wpc s w)}"
  using sched_reach_inv[OF assms] by (simp add: sched_inv_def active_workers_def)


section \<open>Replaying schedules\<close>

text \<open>A schedule of fewer than \<open>2 ^ 23\<close> steps is timely whatever the clock says.\<close>

lemma few_epochs_timely: "n_epochs s < 8388608 \<Longrightarrow> timely n s"
  by (auto simp: timely_def)

lemma body_step_epochs [simp]: "n_epochs (body_step n w j b s) = n_epochs s"
  by (cases b) (simp_all add: sched_upds Let_def)

lemma sstep_epochs: "sstep P n l s = Some t \<Longrightarrow> n_epochs t \<le> Suc (n_epochs s)"
  by (cases l)
    (auto simp: wstep_def estep_def poll_act_step_def steal_step_def sched_upds bump_eq Let_def
      split: wpc.splits poll_act.splits list.splits epc.splits if_splits sum.splits)

lemma sched_reach_run:
  assumes "sched_reach P n s" "run (sstep P n) ls s = Some t" "n_epochs s + length ls < 8388608"
  shows "sched_reach P n t"
  using assms
proof (induction ls arbitrary: s)
  case (Cons l ls)
  then obtain u where u: "sstep P n l s = Some u" "run (sstep P n) ls u = Some t"
    by (auto split: option.splits)
  have "sched_step P n s u"
    unfolding sched_step_def using few_epochs_timely[of s n] Cons.prems(3) u(1) by auto
  with Cons.prems(1) have "sched_reach P n u" by (rule reach_step)
  then show ?case using Cons.IH[OF _ u(2)] sstep_epochs[OF u(1)] Cons.prems(3) by simp
qed simp

definition sched_start :: "'l \<Rightarrow> nat \<Rightarrow> 'l sched" where
  "sched_start l n = \<lparr>status = of_nat n, lot = l, queue = (\<lambda>_. []), wpc = (\<lambda>_. Drain),
     seed = (\<lambda>_. 1), shutdown = (\<lambda>_. False), ext = (\<lambda>_. E_idle), now = 0, panic = False, n_epochs = 0\<rparr>"

lemma sched_start_init:
  assumes "0 < n" "n \<le> 511" "pl_parked P l = {}"
  shows "sched_init P n (sched_start l n)"
proof -
  have "unat (of_nat n :: u32) = n" using assms by (simp add: unat_of_nat)
  then have "(of_nat n :: u32) < EPOCH" using assms by (simp add: EPOCH_eq word_less_nat_alt)
  then show ?thesis using assms by (simp add: sched_init_def sched_start_def Epoch_new_def)
qed


abbreviation act :: "nat \<Rightarrow> slabel" where
  "act w \<equiv> W w B_return False"

lemmas replay = wstep_def estep_def poll_act_step_def steal_step_def sched_upds bump_eq Let_def
  sched_start_def set_inactive_def set_active_def add_checked_def sub_checked_def
  wait_next_epoch_def wait_validate_def other_workers_def push_ok_def get_status_def EPOCH_eq
  word_less_nat_alt active_count_eq_0 unat_epoch upt_rec MAX_DURATION_def next_seed_def

text \<open>One worker alone goes to sleep in seven steps.\<close>

abbreviation sleep_schedule :: "slabel list" where
  "sleep_schedule \<equiv> [act 0, act 0, act 0, act 0, act 0, act 0, act 0]"

lemma sleep_run:
  "\<exists>s. run (sstep fifo_lot 1) sleep_schedule (sched_start [] 1) = Some s \<and> pl_parked fifo_lot (lot s) = {0} \<and>
     queue s = (\<lambda>_. []) \<and> ext s = (\<lambda>_. E_idle) \<and> inactive (wpc s 0)"
  by (simp add: replay fifo_lot_def)

text \<open>While it sleeps, an outside thread pushes a task.\<close>

lemma push_run:
  "\<exists>s. run (sstep fifo_lot 1) (sleep_schedule @ [E 0 [Back 0 [Job 7]], E 0 []]) (sched_start [] 1) = Some s \<and>
     0 \<in> pl_parked fifo_lot (lot s) \<and> queue s 0 \<noteq> []"
  by (simp add: replay fifo_lot_def)

lemma fifo_start_reach:
  assumes "run (sstep fifo_lot n) ls (sched_start [] n) = Some t" "0 < n" "n \<le> 511" "length ls < 8388608"
  shows "sched_reach fifo_lot n t"
proof -
  have "sched_init fifo_lot n (sched_start [] n)"
    by (rule sched_start_init) (use assms in \<open>simp_all add: fifo_lot_def\<close>)
  then show ?thesis using reach_init sched_reach_run[OF _ assms(1)] assms(4)
    by (simp add: sched_start_def reach_init)
qed

lemma fifo_run_reach:
  assumes "\<exists>s. run (sstep fifo_lot n) ls (sched_start [] n) = Some s \<and> Q s"
    and "0 < n" "n \<le> 511" "length ls < 8388608"
  shows "\<exists>s. sched_reach fifo_lot n s \<and> Q s"
  using assms fifo_start_reach by blast

lemma sleep_reach:
  "\<exists>s. sched_reach fifo_lot 1 s \<and> pl_parked fifo_lot (lot s) = {0} \<and>
     queue s = (\<lambda>_. []) \<and> ext s = (\<lambda>_. E_idle) \<and> inactive (wpc s 0)"
  by (rule fifo_run_reach[OF sleep_run]) simp_all

lemma push_reach: "\<exists>s. sched_reach fifo_lot 1 s \<and> 0 \<in> pl_parked fifo_lot (lot s) \<and> queue s 0 \<noteq> []"
  by (rule fifo_run_reach[OF push_run]) simp_all

theorem scheduler_no_deadlock_witness:
  "\<exists>s. sched_reach fifo_lot 1 s \<and> 0 \<in> pl_parked fifo_lot (lot s) \<and> (\<forall>e. ext s e = E_idle) \<and>
     (\<forall>w<1. w \<in> pl_parked fifo_lot (lot s) \<and> queue s w = [])"
proof -
  obtain s where s: "sched_reach fifo_lot 1 s" "pl_parked fifo_lot (lot s) = {0}" "ext s = (\<lambda>_. E_idle)"
    using sleep_reach by blast
  moreover have "\<forall>w<1. w \<in> pl_parked fifo_lot (lot s) \<and> queue s w = []"
    by (rule scheduler_no_deadlock[OF fifo.parking_lot_ops_axioms s(1), of 0]) (use s in auto)
  ultimately show ?thesis by auto
qed

theorem parked_worker_with_work_witness:
  "\<exists>s. sched_reach fifo_lot 1 s \<and> 0 \<in> pl_parked fifo_lot (lot s) \<and> queue s 0 \<noteq> [] \<and>
     (pending_bump 1 s \<or> pending_unpark 1 s)"
proof -
  obtain s where s: "sched_reach fifo_lot 1 s" "0 \<in> pl_parked fifo_lot (lot s)" "queue s 0 \<noteq> []"
    using push_reach by blast
  with parked_worker_with_work[OF fifo.parking_lot_ops_axioms s] show ?thesis by blast
qed

theorem active_count_exact_witness:
  "\<exists>s. sched_reach fifo_lot 1 s \<and> inactive (wpc s 0) \<and> \<not> panic s \<and>
     unat (active_count (status s)) = card {w. w < 1 \<and> \<not> inactive (wpc s w)}"
proof -
  obtain s where s: "sched_reach fifo_lot 1 s" "inactive (wpc s 0)" using sleep_reach by blast
  with active_count_exact[OF fifo.parking_lot_ops_axioms s(1)] show ?thesis by blast
qed

end
