(* ===== verification/Scheduler_Jobs.thy ===== *)
theory Scheduler_Jobs
  imports Scheduler_Invariant
begin

text \<open>
  No task is lost or duplicated between the queues.  \<open>jobs k n s\<close> counts how often task \<open>k\<close> is in
  a queue or in the hands of a worker that took it out; every step of every thread changes the count
  by exactly the copies it brings in (\<open>created\<close>) and takes out (\<open>finished\<close>).
\<close>

section \<open>Definitions\<close>

text \<open>The jobs a worker has taken out of a queue and not finished.\<close>

fun held :: "wpc \<Rightarrow> job list" where
  "held (Poll j a) = [j]"
| "held (Set_active j) = [j]"
| "held (Active_wake j) = [j]"
| "held _ = []"

definition queued :: "nat \<Rightarrow> nat \<Rightarrow> 'l sched \<Rightarrow> nat" where
  "queued k n s = (\<Sum>w<n. count_list (queue s w) (Job k))"

definition in_hand :: "nat \<Rightarrow> nat \<Rightarrow> 'l sched \<Rightarrow> nat" where
  "in_hand k n s = (\<Sum>w<n. count_list (held (wpc s w)) (Job k))"

text \<open>How often a step brings task \<open>k\<close> into the scheduler, and takes it out.\<close>

fun created :: "nat \<Rightarrow> slabel \<Rightarrow> 'l sched \<Rightarrow> nat" where
  "created k (W w b weak) s =
     (case (wpc s w, b) of (Poll j Body, B_spawn t) \<Rightarrow> of_bool (t = k)
      | (Poll j Body, B_defer t) \<Rightarrow> of_bool (t = k) | _ \<Rightarrow> 0)"
| "created k (E e ps) s =
     (case ext s e of E_push (Back i js # qs) \<Rightarrow> count_list js (Job k)
      | E_push (To_front i j # qs) \<Rightarrow> of_bool (j = Job k) | _ \<Rightarrow> 0)"
| "created k (Tick d) s = 0"

fun finished :: "nat \<Rightarrow> slabel \<Rightarrow> 'l sched \<Rightarrow> nat" where
  "finished k (W w b weak) s = (case (wpc s w, b) of (Poll j Body, B_return) \<Rightarrow> of_bool (j = Job k) | _ \<Rightarrow> 0)"
| "finished k _ s = 0"

lemma queued_setq: "i < n \<Longrightarrow> queued k n (setq i q s) + count_list (queue s i) (Job k) = queued k n s + count_list q (Job k)"
  using sum_upd[of i n "\<lambda>q. count_list q (Job k)" "queue s" q] by (simp add: queued_def setq_def)

lemma in_hand_go: "w < n \<Longrightarrow> in_hand k n (go w pc s) + count_list (held (wpc s w)) (Job k) = in_hand k n s + count_list (held pc) (Job k)"
  using sum_upd[of w n "\<lambda>pc. count_list (held pc) (Job k)" "wpc s" pc] by (simp add: in_hand_def go_def)

lemma count_frame [simp]:
  "queued k n (go w pc s) = queued k n s" "queued k n (reseed w s) = queued k n s"
  "queued k n (s\<lparr>lot := l\<rparr>) = queued k n s" "queued k n (s\<lparr>status := e\<rparr>) = queued k n s"
  "queued k n (s\<lparr>panic := p\<rparr>) = queued k n s" "queued k n (s\<lparr>shutdown := sd\<rparr>) = queued k n s"
  "queued k n (s\<lparr>n_epochs := m\<rparr>) = queued k n s" "queued k n (s\<lparr>ext := ex\<rparr>) = queued k n s"
  "queued k n (s\<lparr>now := i\<rparr>) = queued k n s"
  "in_hand k n (setq i q s) = in_hand k n s" "in_hand k n (reseed w s) = in_hand k n s"
  "in_hand k n (s\<lparr>lot := l\<rparr>) = in_hand k n s" "in_hand k n (s\<lparr>status := e\<rparr>) = in_hand k n s"
  "in_hand k n (s\<lparr>panic := p\<rparr>) = in_hand k n s" "in_hand k n (s\<lparr>shutdown := sd\<rparr>) = in_hand k n s"
  "in_hand k n (s\<lparr>n_epochs := m\<rparr>) = in_hand k n s" "in_hand k n (s\<lparr>ext := ex\<rparr>) = in_hand k n s"
  "in_hand k n (s\<lparr>now := i\<rparr>) = in_hand k n s"
  by (simp_all add: queued_def in_hand_def sched_upds)

lemma frame [simp]:
  "queue (go w pc s) = queue s" "wpc (setq i q s) = wpc s" "queue (reseed w s) = queue s"
  "wpc (reseed w s) = wpc s" "queue (setq i q s) = (queue s)(i := q)" "wpc (go w pc s) = (wpc s)(w := pc)"
  by (simp_all add: sched_upds)

fun victim_ok :: "nat \<Rightarrow> wpc \<Rightarrow> bool" where
  "victim_ok n (Steal_lock k v sn) = (v < n)"
| "victim_ok n _ = True"

fun pushes_ok :: "nat \<Rightarrow> epc \<Rightarrow> bool" where
  "pushes_ok n (E_push ps) = list_all (push_ok n) ps"
| "pushes_ok n _ = True"

definition job_inv :: "nat \<Rightarrow> 'l sched \<Rightarrow> bool" where
  "job_inv n s \<longleftrightarrow> 0 < n \<and> (\<forall>w. victim_ok n (wpc s w)) \<and> (\<forall>e. pushes_ok n (ext s e))"

lemma other_workers_less:
  assumes "k < n - 1" "w < n"
  shows "other_workers n w ! k < n"
proof -
  have "set (other_workers n w) = {..<n} - {w}" by (auto simp: other_workers_def)
  moreover have "distinct (other_workers n w)" by (simp add: other_workers_def)
  ultimately have "length (other_workers n w) = n - 1"
    using assms(2) distinct_card[of "other_workers n w"] by simp
  with assms(1) have "other_workers n w ! k \<in> set (other_workers n w)" by simp
  then show ?thesis by (simp add: other_workers_def)
qed

lemma held_after [simp]: "count_list (held (after_epoch j)) (Job k) = of_bool (j = Job k)"
  by (cases j) auto

definition jobs :: "nat \<Rightarrow> nat \<Rightarrow> 'l sched \<Rightarrow> nat" where
  "jobs k n s = queued k n s + in_hand k n s"

lemma jobs_frame [simp]:
  "jobs k n (reseed w s) = jobs k n s" "jobs k n (s\<lparr>lot := l\<rparr>) = jobs k n s"
  "jobs k n (s\<lparr>status := e\<rparr>) = jobs k n s" "jobs k n (s\<lparr>panic := p\<rparr>) = jobs k n s"
  "jobs k n (s\<lparr>shutdown := sd\<rparr>) = jobs k n s" "jobs k n (s\<lparr>n_epochs := m\<rparr>) = jobs k n s"
  "jobs k n (s\<lparr>ext := ex\<rparr>) = jobs k n s" "jobs k n (s\<lparr>now := i\<rparr>) = jobs k n s"
  by (simp_all add: jobs_def)

lemma jobs_setq:
  "i < n \<Longrightarrow> jobs k n (setq i q s) + count_list (queue s i) (Job k) = jobs k n s + count_list q (Job k)"
  using queued_setq[of i n k q s] by (simp add: jobs_def)

lemma move_jobs:
  assumes "w < n" "count_list (held (wpc s w)) (Job k) = count_list (held pc) (Job k)"
  shows "jobs k n (go w pc s) = jobs k n s"
  using in_hand_go[OF assms(1), of k pc s] assms(2) by (simp add: jobs_def)

lemma body_jobs:
  assumes "0 < n" "w < n" "wpc s w = Poll j Body"
  shows "jobs k n (body_step n w j b s) + finished k (W w b weak) s = jobs k n s + created k (W w b weak) s"
proof (cases b)
  case (B_spawn t)
  define i where "i = unat (seed s w) mod n"
  have "i < n" using assms(1) by (simp add: i_def)
  show ?thesis
  proof (cases "i + 1 = n")
    case False
    with \<open>i < n\<close> have "other_workers n w ! i < n" using other_workers_less assms(2) by simp
    then show ?thesis using False B_spawn assms
        in_hand_go[of w n k "Poll j (Push [])" "setq (other_workers n w ! i) (queue s (other_workers n w ! i) @ [Job t]) (reseed w s)"]
        queued_setq[of "other_workers n w ! i" n k "queue s (other_workers n w ! i) @ [Job t]" "reseed w s"]
      by (simp add: jobs_def Let_def flip: i_def)
  qed (use B_spawn assms queued_setq[of w n k "queue s w @ [Job t]" "reseed w s"] in
      \<open>simp add: jobs_def Let_def flip: i_def\<close>)
next
  case (B_defer t)
  then show ?thesis using assms queued_setq[of w n k "Job t # queue s w" s]
    by (auto simp: jobs_def split: if_splits)
next
  case B_return
  then show ?thesis using assms in_hand_go[OF assms(2), of k Chk_shutdown s] by (auto simp: jobs_def)
qed (use assms in \<open>simp_all add: move_jobs\<close>)

lemma poll_jobs:
  assumes "0 < n" "w < n" "wpc s w = Poll j a"
  shows "jobs k n (poll_act_step P n w j a b s) + finished k (W w b weak) s = jobs k n s + created k (W w b weak) s"
proof (cases a)
  case Body
  then show ?thesis using body_jobs[OF assms(1,2), of s j k b weak] assms(3)
    by (simp add: poll_act_step_def)
next
  case (Push ws)
  then show ?thesis using assms(2,3)
    by (cases ws; cases j) (simp_all add: poll_act_step_def move_jobs bump_eq)
next
  case (Front i ws)
  have "queued k n (setq i (Shut # queue s i) s) = queued k n s"
    by (auto simp: queued_def intro!: sum.cong)
  then show ?thesis using Front assms in_hand_go[OF assms(2), of k "Poll j (Push ws)" "setq i (Shut # queue s i) s"]
    by (auto simp: poll_act_step_def jobs_def)
next
  case Shut_flag
  then show ?thesis using assms(2,3) by (simp add: poll_act_step_def move_jobs)
next
  case Unpark
  then show ?thesis using assms(2,3) by (cases j) (simp_all add: poll_act_step_def move_jobs)
qed

lemma pop_jobs:
  assumes "w < n" "held (wpc s w) = []" "held none = []" "\<And>j. held (some j) = [j]"
  shows "jobs k n (pop_own w none some s) = jobs k n s"
proof (cases "queue s w")
  case Nil
  then show ?thesis using assms in_hand_go[of w n k none s] by (simp add: pop_own_def jobs_def)
next
  case (Cons t ts)
  then show ?thesis using assms in_hand_go[of w n k "some t" "setq w ts s"] queued_setq[of w n k ts s]
    by (auto simp: pop_own_def jobs_def split: if_splits)
qed

lemma wstep_jobs:
  assumes inv: "job_inv n s" and w: "w < n" and step: "wstep P n w b weak s = Some t"
  shows "jobs k n t + finished k (W w b weak) s = jobs k n s + created k (W w b weak) s"
proof (cases "wpc s w")
  case (Poll j a)
  then show ?thesis using poll_jobs[OF _ w Poll, of k P b weak] inv step by (simp add: wstep_def job_inv_def)
next
  case (Steal_lock i v sn)
  with inv have v: "v < n" unfolding job_inv_def by (metis victim_ok.simps(1))
  show ?thesis
  proof (cases "queue s v")
    case Nil
    with step Steal_lock w show ?thesis by (auto simp: wstep_def move_jobs)
  next
    case (Cons j ts)
    with step Steal_lock w show ?thesis
      using in_hand_go[OF w, of k "Set_active j" "setq v ts s"] queued_setq[OF v, of k ts s]
      by (auto simp: wstep_def jobs_def split: if_splits)
  qed
qed (use step w in \<open>auto simp: wstep_def move_jobs pop_jobs steal_step_def Let_def split: if_splits sum.splits\<close>)

lemma estep_jobs:
  assumes "job_inv n s" "estep P n e ps s = Some t"
  shows "jobs k n t = jobs k n s + created k (E e ps) s"
proof (cases "ext s e")
  case (E_push qs)
  show ?thesis
  proof (cases qs)
    case (Cons p rs)
    with E_push assms(1) have p: "push_ok n p"
      unfolding job_inv_def by (metis pushes_ok.simps(1) list.pred_inject(2))
    show ?thesis
    proof (cases p)
      case (Back i js)
      with p Cons E_push assms(2) jobs_setq[of i n k "queue s i @ js" s] show ?thesis
        by (auto simp: estep_def Let_def push_ok_def)
    next
      case (To_front i j)
      with p Cons E_push assms(2) jobs_setq[of i n k "j # queue s i" s] show ?thesis
        by (auto simp: estep_def Let_def push_ok_def split: if_splits)
    qed
  qed (use E_push assms in \<open>auto simp: estep_def bump_eq\<close>)
qed (use assms in \<open>auto simp: estep_def split: if_splits\<close>)

lemma body_step_frame:
  "ext (body_step n w j b s) = ext s" "v \<noteq> w \<Longrightarrow> wpc (body_step n w j b s) v = wpc s v"
  "wpc s w = Poll j' a \<Longrightarrow> victim_ok m (wpc (body_step n w j b s) w)"
  by (cases b; simp add: sched_upds Let_def)+

lemma wstep_job_inv:
  assumes "job_inv n s" "w < n" "wstep P n w b weak s = Some t"
  shows "job_inv n t"
proof (cases "wpc s w")
  case (Poll j a)
  have "ext t = ext s" "\<forall>v. v \<noteq> w \<longrightarrow> wpc t v = wpc s v" "victim_ok n (wpc t w)"
    using assms(3) Poll
    by (auto simp: wstep_def poll_act_step_def body_step_frame bump_eq sched_upds
        split: poll_act.splits list.splits if_splits) (cases j; simp)+
  then show ?thesis using assms(1) unfolding job_inv_def by metis
next
  case (Steal k sn)
  have v: "other_workers n w ! (unat (seed s w) mod (n - 1)) < n" if "n - 1 \<noteq> 0"
    using that assms(2) by (intro other_workers_less) auto
  with assms Steal show ?thesis
    by (auto simp: wstep_def job_inv_def sched_upds steal_step_def Let_def split: if_splits)
qed (use assms in \<open>auto simp: wstep_def job_inv_def sched_upds Let_def split: list.splits if_splits sum.splits\<close>)

lemma estep_job_inv:
  assumes "job_inv n s" "estep P n e ps s = Some t"
  shows "job_inv n t"
proof (cases "ext s e")
  case (E_push qs)
  with assms(1) have qs: "list_all (push_ok n) qs" unfolding job_inv_def by (metis pushes_ok.simps(1))
  show ?thesis
  proof (cases qs)
    case (Cons p rs)
    with E_push assms qs show ?thesis
      by (cases p) (auto simp: estep_def job_inv_def Let_def sched_upds)
  qed (use E_push assms in \<open>auto simp: estep_def job_inv_def bump_eq\<close>)
qed (use assms in \<open>auto simp: estep_def job_inv_def split: if_splits\<close>)

lemma sched_step_job_inv: "job_inv n s \<Longrightarrow> sched_step P n s t \<Longrightarrow> job_inv n t"
proof -
  assume inv: "job_inv n s" and "sched_step P n s t"
  then obtain l where step: "sstep P n l s = Some t" by (auto simp: sched_step_def)
  show "job_inv n t"
  proof (cases l)
    case (W w b weak)
    with step wstep_job_inv[OF inv] show ?thesis by (auto split: if_splits)
  next
    case (E e ps)
    with step estep_job_inv[OF inv] show ?thesis by simp
  next
    case (Tick d)
    with step inv show ?thesis by (auto simp: job_inv_def)
  qed
qed

lemma sched_init_job_inv: "sched_init P n s \<Longrightarrow> job_inv n s"
  by (simp add: sched_init_def job_inv_def)

interpretation job: inductive_invariant "sched_init P n" "sched_step P n" "job_inv n" for P n
  by unfold_locales (rule sched_init_job_inv, assumption, rule sched_step_job_inv)

text \<open>
  C11: no task is lost or duplicated by the scheduler.  In every reachable state and for every step of
  a worker, an outside thread or the clock, the number of occurrences of a task in queues and in the
  hands of workers grows by the copies the step pushes and shrinks by the one whose \<open>poll\<close> returns:
  stealing, popping, spawning, deferring and the shutdown keep every task exactly once.
\<close>

theorem jobs_conserved:
  assumes "sched_reach P n s" and "sstep P n l s = Some t"
  shows "jobs k n t + finished k l s = jobs k n s + created k l s"
proof (cases l)
  case (W w b weak)
  with assms(2) wstep_jobs[OF job.reach_inv[OF assms(1)], of w P b weak t k] show ?thesis by (auto split: if_splits)
next
  case (E e ps)
  with assms(2) estep_jobs[OF job.reach_inv[OF assms(1)], of P e ps t k] show ?thesis by simp
next
  case (Tick d)
  with assms(2) show ?thesis by auto
qed

lemma jobs_schedule:
  "\<exists>s. run (sstep fifo_lot 1) [E 0 [Back 0 [Job 7]]] (sched_start [] 1) = Some s \<and>
     ext s 0 = E_push [Back 0 [Job 7]]"
  by (simp add: replay)

theorem jobs_conserved_witness:
  "\<exists>s t. sched_reach fifo_lot 1 s \<and> sstep fifo_lot 1 (E 0 []) s = Some t \<and> created 7 (E 0 []) s = 1 \<and>
     jobs 7 1 t + finished 7 (E 0 []) s = jobs 7 1 s + created 7 (E 0 []) s"
proof -
  obtain s where s: "sched_reach fifo_lot 1 s" "ext s 0 = E_push [Back 0 [Job 7]]"
    using fifo_run_reach[OF jobs_schedule] by auto
  then obtain t where t: "sstep fifo_lot 1 (E 0 []) s = Some t" by (simp add: estep_def Let_def)
  have "created 7 (E 0 []) s = 1" using s(2) by simp
  then show ?thesis using s(1) t jobs_conserved[OF s(1) t, of 7] by blast
qed

end
