(* ===== verification/Scheduler_Shutdown.thy ===== *)
theory Scheduler_Shutdown
  imports Scheduler_Invariant
begin

text \<open>
  The shutdown protocol (\<open>Shutdown::poll\<close> in \<open>worker.rs\<close>, \<open>shutdown_async\<close> in \<open>runtime.rs\<close>): once a
  worker has left its loop the shutdown is on its way to every other one; and a schedule on which one
  of them nevertheless never leaves.
\<close>

section \<open>The shutdown reaches every worker\<close>

text \<open>\<open>serves w pc\<close>: a worker at \<open>pc\<close> is going to send \<open>Shut\<close> to worker \<open>w\<close>, or finds it on its way out.\<close>

fun serves :: "nat \<Rightarrow> wpc \<Rightarrow> bool" where
  "serves w (Set_active Shut) = True"
| "serves w (Active_wake Shut) = True"
| "serves w (Poll j Shut_flag) = True"
| "serves w (Poll j (Push is)) = (w \<in> set is)"
| "serves w (Poll j (Front i is)) = (w = i \<or> w \<in> set is)"
| "serves w _ = False"

definition served :: "nat \<Rightarrow> 'l sched \<Rightarrow> nat \<Rightarrow> bool" where
  "served n s w \<longleftrightarrow> shutdown s w \<or> Shut \<in> set (queue s w) \<or> (\<exists>u<n. serves w (wpc s u))"

definition shutdown_inv :: "nat \<Rightarrow> 'l sched \<Rightarrow> bool" where
  "shutdown_inv n s \<longleftrightarrow> (\<forall>v. wpc s v = Exited \<longrightarrow> shutdown s v) \<and>
     ((\<exists>v<n. shutdown s v) \<longrightarrow> (\<forall>w<n. served n s w))"

lemma serves_start [simp]:
  "serves w (Poll Shut (poll_start Shut))" "serves w (Poll j (poll_start j)) = (j = Shut)"
  by (cases j; simp)+

lemma serves_job [simp]: "serves w (Set_active j) = (j = Shut)" "serves w (Active_wake j) = (j = Shut)"
  by (cases j; simp)+

text \<open>What a step of worker \<open>u\<close> keeps.\<close>

definition hands_over :: "nat \<Rightarrow> nat \<Rightarrow> 'l sched \<Rightarrow> 'l sched \<Rightarrow> bool" where
  "hands_over n u s t \<longleftrightarrow> (\<forall>v. v \<noteq> u \<longrightarrow> wpc t v = wpc s v) \<and> (wpc t u = Exited \<longrightarrow> shutdown t u) \<and>
     (\<forall>w. shutdown s w \<longrightarrow> shutdown t w) \<and>
     (\<forall>w. shutdown t w \<longrightarrow> shutdown s w \<or> (\<forall>x. serves x (wpc s u))) \<and>
     (\<forall>w. Shut \<in> set (queue s w) \<longrightarrow> Shut \<in> set (queue t w) \<or> (\<forall>x. serves x (wpc t u))) \<and>
     (\<forall>w<n. serves w (wpc s u) \<longrightarrow> shutdown t w \<or> Shut \<in> set (queue t w) \<or> serves w (wpc t u))"

lemma hands_over_inv:
  assumes "shutdown_inv n s" "hands_over n u s t" "u < n"
  shows "shutdown_inv n t"
proof -
  have "served n t w" if "served n s w" "w < n" for w
    using that assms(2,3) unfolding served_def hands_over_def by metis
  then show ?thesis
    using assms unfolding shutdown_inv_def hands_over_def served_def by metis
qed

lemma body_hands_over: "wpc s u = Poll j Body \<Longrightarrow> hands_over n u s (body_step n u j b s)"
  by (cases b) (auto simp: hands_over_def sched_upds Let_def)

lemma poll_hands_over:
  assumes "wpc s u = Poll j a" 
  shows "hands_over n u s (poll_act_step P n u j a b s)"
proof (cases a)
  case Body
  then show ?thesis using body_hands_over assms by (simp add: poll_act_step_def)
next
  case Shut_flag
  then show ?thesis using assms by (auto simp: poll_act_step_def hands_over_def sched_upds other_workers_def)
next
  case (Push ws)
  then show ?thesis using assms
    by (cases ws; cases j) (auto simp: poll_act_step_def hands_over_def sched_upds bump_eq)
next
  case (Front i ws)
  then show ?thesis using assms by (auto simp: poll_act_step_def hands_over_def sched_upds)
next
  case Unpark
  then show ?thesis using assms by (cases j) (auto simp: poll_act_step_def hands_over_def sched_upds)
qed

lemma wstep_hands_over:
  assumes "wstep P n u b weak s = Some t"
  shows "hands_over n u s t"
proof (cases "wpc s u")
  case (Poll j a)
  then show ?thesis using assms poll_hands_over by (auto simp: wstep_def)
qed (use assms in \<open>auto simp: wstep_def hands_over_def sched_upds steal_step_def Let_def
    split: list.splits if_splits sum.splits\<close>)

lemma estep_keeps:
  assumes "estep P n e ps s = Some t"
  shows "wpc t = wpc s \<and> shutdown t = shutdown s \<and> (\<forall>w. set (queue s w) \<subseteq> set (queue t w))"
proof (cases "ext s e")
  case (E_push qs)
  show ?thesis
  proof (cases qs)
    case (Cons p rs)
    with E_push assms show ?thesis by (cases p) (auto simp: estep_def sched_upds Let_def)
  qed (use E_push assms in \<open>auto simp: estep_def bump_eq\<close>)
qed (use assms in \<open>auto simp: estep_def split: if_splits\<close>)

lemma sched_step_shutdown_inv:
  assumes inv: "shutdown_inv n s" and "sched_step P n s t"
  shows "shutdown_inv n t"
proof -
  obtain l where step: "sstep P n l s = Some t" using assms(2) by (auto simp: sched_step_def)
  show ?thesis
  proof (cases l)
    case (W u b weak)
    with step hands_over_inv[OF inv wstep_hands_over] show ?thesis by (auto split: if_splits)
  next
    case (E e ps)
    with step inv estep_keeps[of P n e ps s t] show ?thesis
      unfolding shutdown_inv_def served_def by (simp add: subset_iff) metis
  next
    case (Tick d)
    with step inv show ?thesis by (auto simp: shutdown_inv_def served_def)
  qed
qed

lemma sched_init_shutdown_inv: "sched_init P n s \<Longrightarrow> shutdown_inv n s"
  by (simp add: sched_init_def shutdown_inv_def)

interpretation shutdown: inductive_invariant "sched_init P n" "sched_step P n" "shutdown_inv n" for P n
  by unfold_locales (rule sched_init_shutdown_inv, assumption, rule sched_step_shutdown_inv)

text \<open>
  C26: the shutdown reaches every worker.  As soon as one worker has left its loop, every worker has
  its shutdown flag set, or has a \<open>Shutdown\<close> task in its own queue, or some worker is about to send
  it one (it carries a \<open>Shutdown\<close> task it has not polled yet, or is inside the loop of
  \<open>Shutdown::poll\<close> or \<open>shutdown_async\<close> with that worker still ahead).
\<close>

theorem shutdown_reaches_all:
  assumes "sched_reach P n s" and "v < n" and "wpc s v = Exited" and "w < n"
  shows "shutdown s w \<or> Shut \<in> set (queue s w) \<or> (\<exists>u<n. serves w (wpc s u))"
  using shutdown.reach_inv[OF assms(1)] assms(2-) unfolding shutdown_inv_def served_def by blast

section \<open>The shutdown can hang\<close>

definition hang_schedule :: "slabel list" where
  "hang_schedule =
     [act 1, act 1]                                        \<comment> \<open>worker 1 finds its queue empty, and is preempted\<close>
     @ [E 0 [Back 0 [Job 7]], E 0 [], E 0 []]               \<comment> \<open>the main thread runs \<open>async_main\<close>\<close>
     @ [act 0, W 0 B_shutdown_async False]                 \<comment> \<open>worker 0 polls it: \<open>shutdown_async\<close>\<close>
     @ [act 0, act 0, act 0, act 0, act 0, act 0, act 0]   \<comment> \<open>... to its end, and back to the loop\<close>
     @ [act 0, act 0, act 0, act 0, act 0, act 0]          \<comment> \<open>worker 0 polls \<open>Shutdown\<close> and leaves\<close>
     @ [act 1]                                             \<comment> \<open>worker 1 becomes inactive\<close>"

definition spinning :: "wpc \<Rightarrow> snap \<Rightarrow> bool" where
  "spinning pc sn \<longleftrightarrow> pc = Head sn \<or> (\<exists>k. pc = Steal k sn) \<or> pc = Refresh sn \<or> (\<exists>t. pc = Reload t sn)"

definition trapped :: "'l sched \<Rightarrow> bool" where
  "trapped s \<longleftrightarrow> wpc s 0 = Exited \<and> queue s 0 = [] \<and> Shut \<in> set (queue s 1) \<and> active_count (status s) \<noteq> 0 \<and>
     (\<exists>sn. spinning (wpc s 1) sn \<and> active_count (old_status sn) \<noteq> 0 \<and> epoch (old_status sn) = epoch (status s))"

lemma hang_run:
  "\<exists>t. run (sstep P 2) hang_schedule (sched_start l 2) = Some t \<and> trapped t \<and> shutdown t 0"
  by (simp add: hang_schedule_def replay trapped_def spinning_def)

lemma hang_length: "length hang_schedule = 21"
  by (simp add: hang_schedule_def)

lemma trapped_wstep:
  assumes "trapped s" "wstep P 2 1 b weak s = Some t"
  shows "trapped t"
proof -
  from assms(1) obtain sn where
    pc: "spinning (wpc s 1) sn" and sn: "active_count (old_status sn) \<noteq> 0" "epoch (old_status sn) = epoch (status s)"
    and s: "wpc s 0 = Exited" "queue s 0 = []" "Shut \<in> set (queue s 1)" "active_count (status s) \<noteq> 0"
    by (auto simp: trapped_def)
  have keep: "trapped (go 1 pc' s')" if "spinning pc' sn'" "active_count (old_status sn') \<noteq> 0"
    "epoch (old_status sn') = epoch (status s)" "s' = s \<or> s' = reseed 1 s" for pc' sn' s'
    using that s by (auto simp: trapped_def sched_upds)
  have victim: "other_workers 2 (Suc 0) ! 0 = 0" by (simp add: other_workers_def upt_rec)
  from pc consider "wpc s 1 = Head sn" | k where "wpc s 1 = Steal k sn" | "wpc s 1 = Refresh sn"
    | i where "wpc s 1 = Reload i sn" by (auto simp: spinning_def)
  then show ?thesis
  proof cases
    case 1
    show ?thesis using assms(2) 1 keep[of "Steal 8 sn" sn s] sn by (simp add: wstep_def spinning_def)
  next
    case (2 k)
    show ?thesis using assms(2) 2 keep[of "Refresh sn" sn s] keep[of "Steal (k - 1) sn" sn "reseed 1 s"] sn s
      by (auto simp: wstep_def spinning_def steal_step_def victim sched_upds Let_def split: if_splits)
  next
    case 3
    show ?thesis using assms(2) 3 keep[of "Reload (now s) sn" sn s] sn by (simp add: wstep_def spinning_def)
  next
    case (4 i)
    show ?thesis
      using assms(2) 4 keep[of "Head \<lparr>old_status = status s, old_instant = i, seen = n_epochs s\<rparr>"
          "\<lparr>old_status = status s, old_instant = i, seen = n_epochs s\<rparr>" s] sn s
      by (simp add: wstep_def spinning_def get_status_def Let_def)
  qed
qed

lemma trapped_run:
  assumes "trapped s" "\<forall>e ps. E e ps \<notin> set ls" "run (sstep P 2) ls s = Some t"
  shows "trapped t"
  using assms
proof (induction ls arbitrary: s)
  case (Cons l ls)
  then obtain u where u: "sstep P 2 l s = Some u" "run (sstep P 2) ls u = Some t"
    by (auto split: option.splits)
  have "trapped u"
  proof (cases l)
    case (W w b weak)
    have "wstep P 2 0 b weak s = None" using Cons.prems(1) by (simp add: wstep_def trapped_def)
    with W u(1) have "w = 1" by (cases "w = 0") (auto split: if_splits)
    with W u(1) trapped_wstep[OF Cons.prems(1)] show ?thesis by (auto split: if_splits)
  next
    case (E e ps)
    with Cons.prems(2) show ?thesis by auto
  next
    case (Tick d)
    with u(1) Cons.prems(1) show ?thesis by (auto simp: trapped_def)
  qed
  then show ?case using Cons.IH[OF _ _ u(2)] Cons.prems(2) by auto
qed simp

text \<open>
  C23: the shutdown can hang.  With two workers there is a schedule after which worker 0 has polled
  \<open>Shutdown\<close> and left, while worker 1 spins in the steal loop for ever with a \<open>Shutdown\<close> task in its
  own queue: the pushes and the \<open>next_epoch\<close> happened between its last look at the queue
  (\<open>worker.rs\<close> 108) and its \<open>set_inactive\<close> (120), the epoch it compares with already includes them
  (142), and worker 0, gone without \<open>set_inactive\<close>, counts as active for ever (122).  Only a further
  push from outside the runtime would release it; without one, however long the worker runs, it
  does not exit.
\<close>

theorem shutdown_can_hang:
  assumes "parking_lot_ops P"
  shows "\<exists>s. sched_reach P 2 s \<and> shutdown s 0 \<and> wpc s 0 = Exited \<and>
    (\<forall>ls t. (\<forall>e ps. E e ps \<notin> set ls) \<longrightarrow> run (sstep P 2) ls s = Some t \<longrightarrow>
       wpc t 1 \<noteq> Exited \<and> Shut \<in> set (queue t 1))"
proof -
  let ?s = "sched_start (pl_unpark_all P undefined) 2"
  obtain s where s: "run (sstep P 2) hang_schedule ?s = Some s" "trapped s" "shutdown s 0"
    using hang_run[of P "pl_unpark_all P undefined"] by (elim exE conjE) (rule that)
  have "sched_init P 2 ?s"
    by (rule sched_start_init) (simp_all add: parking_lot_ops.parked_unpark_all[OF assms])
  then have "sched_reach P 2 ?s" by (rule reach_init)
  then have "sched_reach P 2 s"
    by (rule sched_reach_run[OF _ s(1)]) (simp add: hang_length sched_start_def)
  moreover have "wpc t 1 \<noteq> Exited \<and> Shut \<in> set (queue t 1)"
    if "\<forall>e ps. E e ps \<notin> set ls" "run (sstep P 2) ls s = Some t" for ls t
    using trapped_run[OF s(2) that] by (auto simp: trapped_def spinning_def)
  ultimately show ?thesis using s(2,3) unfolding trapped_def by blast
qed

theorem shutdown_can_hang_witness:
  "\<exists>s. sched_reach fifo_lot 2 s \<and> shutdown s 0 \<and> wpc s 0 = Exited \<and>
    (\<forall>ls t. (\<forall>e ps. E e ps \<notin> set ls) \<longrightarrow> run (sstep fifo_lot 2) ls s = Some t \<longrightarrow>
       wpc t 1 \<noteq> Exited \<and> Shut \<in> set (queue t 1))"
  by (rule shutdown_can_hang[OF fifo.parking_lot_ops_axioms])

theorem shutdown_reaches_all_witness:
  "\<exists>s. sched_reach fifo_lot 2 s \<and> wpc s 0 = Exited \<and>
     (shutdown s 1 \<or> Shut \<in> set (queue s 1) \<or> (\<exists>u<2. serves 1 (wpc s u)))"
proof -
  obtain s where s: "sched_reach fifo_lot 2 s" "trapped s"
    using fifo_run_reach[OF hang_run] by (auto simp: hang_length)
  then have "wpc s 0 = Exited" by (simp add: trapped_def)
  with s(1) shutdown_reaches_all[OF s(1), of 0 1] show ?thesis by auto
qed

end
