(* ===== verification/Memory.thy ===== *)
theory Memory
  imports Prelude
begin

text \<open>
  Manual memory management (\<open>yaay-mt-runtime/src/mem.rs\<close>, and its copy in
  \<open>yaay-mio/src/helper.rs\<close>).  A heap maps an address to its block; a block is allocated but not
  written, holds a live object, or holds an object whose \<open>drop\<close> has run.  The address the system
  allocator returns is an argument \<open>p\<close> of the allocating operations: \<open>alloc_ok\<close> is what
  \<open>std::alloc::alloc\<close> documents (null when it fails, else an address not in use).  An operation on
  a block in the wrong state is a fault.  A block is of one type, so that the \<open>Layout\<close> the source passes to the
  allocator is not part of the model.
\<close>

section \<open>Definitions\<close>

datatype 'a block = Uninit | Init 'a | Dropped 'a

type_synonym 'a heap = "addr \<rightharpoonup> 'a block"

definition alloc_ok :: "addr \<Rightarrow> 'a heap \<Rightarrow> bool" where
  "alloc_ok p h \<longleftrightarrow> p = null \<or> p \<notin> dom h"

definition do_alloc :: "addr \<Rightarrow> 'a heap \<Rightarrow> addr option \<times> 'a heap" where
  "do_alloc p h = (if p = null then (None, h) else (Some p, h(p \<mapsto> Uninit)))"

text \<open>\<open>ptr.write(data)\<close>: whatever the block held is overwritten without being dropped.\<close>

definition write_ptr :: "addr \<Rightarrow> 'a \<Rightarrow> 'a heap \<Rightarrow> 'a heap res" where
  "write_ptr p v h =
     (if p = null then Inl Null_deref
      else case h p of None \<Rightarrow> Inl Use_after_free | Some _ \<Rightarrow> Inr (h(p \<mapsto> Init v)))"

definition do_new :: "addr \<Rightarrow> 'a \<Rightarrow> 'a heap \<Rightarrow> (addr option \<times> 'a heap) res" where
  "do_new p v h =
     (let (ptr, h) = do_alloc p h
      in case ptr of None \<Rightarrow> Inr (None, h) | Some x \<Rightarrow> bind_r (write_ptr x v h) (\<lambda>h. Inr (ptr, h)))"

definition do_drop_in_place :: "addr \<Rightarrow> 'a heap \<Rightarrow> 'a heap res" where
  "do_drop_in_place p h =
     (if p = null then Inl Null_deref
      else case h p of
        None \<Rightarrow> Inl Use_after_free
      | Some Uninit \<Rightarrow> Inl Uninit_read
      | Some (Init v) \<Rightarrow> Inr (h(p \<mapsto> Dropped v))
      | Some (Dropped v) \<Rightarrow> Inl Use_after_drop)"

definition do_dealloc :: "addr \<Rightarrow> 'a heap \<Rightarrow> 'a heap res" where
  "do_dealloc p h =
     (if p = null then Inl Null_deref
      else case h p of None \<Rightarrow> Inl Use_after_free | Some _ \<Rightarrow> Inr (h(p := None)))"

definition do_drop :: "addr \<Rightarrow> 'a heap \<Rightarrow> 'a heap res" where
  "do_drop p h = bind_r (do_drop_in_place p h) (do_dealloc p)"

section \<open>Behaviour\<close>

lemma do_new_eq: "do_new p v h = Inr (if p = null then (None, h) else (Some p, h(p \<mapsto> Init v)))"
  by (simp add: do_new_def do_alloc_def write_ptr_def)

lemma do_drop_eq: "p \<noteq> null \<Longrightarrow> h p = Some (Init v) \<Longrightarrow> do_drop p h = Inr (h(p := None))"
  by (simp add: do_drop_def do_drop_in_place_def do_dealloc_def)

lemma do_drop_in_place_eq:
  "p \<noteq> null \<Longrightarrow> h p = Some (Init v) \<Longrightarrow> do_drop_in_place p h = Inr (h(p \<mapsto> Dropped v))"
  by (simp add: do_drop_in_place_def)

lemma do_dealloc_eq: "p \<noteq> null \<Longrightarrow> h p = Some b \<Longrightarrow> do_dealloc p h = Inr (h(p := None))"
  by (simp add: do_dealloc_def)

section \<open>Properties\<close>

text \<open>
  The two ways to release what \<open>do_new\<close> made give the heap back as it was.  On an address the
  allocator may return, \<open>do_new\<close> followed by \<open>do_drop\<close>, and by \<open>do_drop_in_place\<close> and then
  \<open>do_dealloc\<close>, both restore the heap and never fault, while a second \<open>do_drop\<close> is a use after free.
\<close>

lemma do_new_do_drop:
  assumes "p \<noteq> null" and "alloc_ok p h"
  shows "\<exists>h'. do_new p v h = Inr (Some p, h') \<and> do_drop p h' = Inr h \<and>
    bind_r (do_drop_in_place p h') (do_dealloc p) = Inr h \<and>
    bind_r (do_drop p h') (do_drop p) = Inl Use_after_free"
proof -
  have h: "h p = None" using assms by (auto simp: alloc_ok_def)
  then have "h(p := None) = h" by auto
  with h assms(1) show ?thesis
    by (auto simp: do_new_eq do_drop_eq do_drop_in_place_eq do_dealloc_eq do_drop_in_place_def do_drop_def)
qed

lemma do_new_do_drop_example:
  "alloc_ok 7 (Map.empty :: nat heap) \<and>
   (\<exists>h'. do_new 7 (5 :: nat) Map.empty = Inr (Some 7, h') \<and> do_drop 7 h' = Inr Map.empty \<and>
    bind_r (do_drop_in_place 7 h') (do_dealloc 7) = Inr Map.empty \<and>
    bind_r (do_drop 7 h') (do_drop 7) = Inl Use_after_free)"
  using do_new_do_drop[of 7 "Map.empty :: nat heap" 5] by (simp add: alloc_ok_def)

end
