(* ===== verification/Runtime_State.thy ===== *)
theory Runtime_State
  imports Memory Epoch
begin

text \<open>
  The memory of the runtime and the objects in it.  All objects the crate allocates with
  \<open>do_new\<close> or \<open>do_alloc\<close> live in one heap: tasks (\<open>TaskInner\<close> of \<open>task.rs\<close>), workers
  (\<open>worker.rs\<close>), the epoch word (\<open>epoch.rs\<close>), the shared data (\<open>worker_manager.rs\<close>) and the
  batches of a reactor thread (\<open>RuntimeLocalData\<close> of \<open>task.rs\<close>).  Since pointers are untyped
  (\<open>GLOBAL\<close> and \<open>LOCAL\<close> of \<open>shared.rs\<close> are \<open>*mut ()\<close>), an access through a pointer of the
  wrong type is possible; it is the fault \<open>Type_confusion\<close>.

  A \<open>T: Future\<close> is a value of the type parameter \<open>'f\<close>; the vtable of a task is determined by \<open>T\<close>
  and needs no field.  A task's header (\<open>Task\<close>) stays readable after its future was dropped.
\<close>

section \<open>Definitions\<close>

record TaskList =
  head :: addr
  tail :: addr

record Task =
  t_status :: u8
  t_rc :: usize
  t_next :: addr
  t_worker_id :: u32

record Worker =
  task_list :: TaskList
  w_seed :: u32
  n_workers :: u32
  w_epoch :: addr
  other_workers :: "addr list"
  w_shutdown :: bool
  worker_id :: u32

record RuntimeSharedData =
  s_epoch :: addr
  worker_ptrs :: "addr list"

record RuntimeLocalData =
  task_lists :: "TaskList list"

datatype 'f obj =
    TaskInner Task 'f
  | Obj_worker Worker
  | Obj_epoch u32
  | Obj_shared RuntimeSharedData
  | Obj_local RuntimeLocalData

text \<open>What the runtime does outside its memory: wake the parked workers, print to standard error.\<close>

datatype event = Unpark_all addr | Leak_warning addr

record 'f rt =
  mem :: "'f obj heap"
  GLOBAL :: addr
  LOCAL :: "tid \<Rightarrow> addr"
  events :: "event list"

definition set_global :: "addr \<Rightarrow> 'f rt \<Rightarrow> 'f rt" where
  "set_global ptr s = s\<lparr>GLOBAL := ptr\<rparr>"

definition get_global :: "'f rt \<Rightarrow> addr" where
  "get_global s = GLOBAL s"

definition set_local :: "tid \<Rightarrow> addr \<Rightarrow> 'f rt \<Rightarrow> 'f rt" where
  "set_local i ptr s = s\<lparr>LOCAL := (LOCAL s)(i := ptr)\<rparr>"

definition get_local :: "tid \<Rightarrow> 'f rt \<Rightarrow> addr" where
  "get_local i s = LOCAL s i"

text \<open>Reading and writing objects through a pointer.\<close>

definition deref :: "addr \<Rightarrow> 'f rt \<Rightarrow> 'f obj res" where
  "deref a s =
     (if a = null then Inl Null_deref
      else case mem s a of
        None \<Rightarrow> Inl Use_after_free
      | Some Uninit \<Rightarrow> Inl Uninit_read
      | Some (Dropped ob) \<Rightarrow> Inl Use_after_drop
      | Some (Init ob) \<Rightarrow> Inr ob)"

definition deref_worker :: "addr \<Rightarrow> 'f rt \<Rightarrow> Worker res" where
  "deref_worker a s = bind_r (deref a s) (\<lambda>ob. case ob of Obj_worker w \<Rightarrow> Inr w | _ \<Rightarrow> Inl Type_confusion)"

definition deref_epoch :: "addr \<Rightarrow> 'f rt \<Rightarrow> u32 res" where
  "deref_epoch a s = bind_r (deref a s) (\<lambda>ob. case ob of Obj_epoch e \<Rightarrow> Inr e | _ \<Rightarrow> Inl Type_confusion)"

definition deref_shared :: "addr \<Rightarrow> 'f rt \<Rightarrow> RuntimeSharedData res" where
  "deref_shared a s = bind_r (deref a s) (\<lambda>ob. case ob of Obj_shared d \<Rightarrow> Inr d | _ \<Rightarrow> Inl Type_confusion)"

definition deref_local :: "addr \<Rightarrow> 'f rt \<Rightarrow> RuntimeLocalData res" where
  "deref_local a s = bind_r (deref a s) (\<lambda>ob. case ob of Obj_local d \<Rightarrow> Inr d | _ \<Rightarrow> Inl Type_confusion)"

definition deref_task :: "addr \<Rightarrow> 'f rt \<Rightarrow> Task res" where
  "deref_task a s =
     (if a = null then Inl Null_deref
      else case mem s a of
        None \<Rightarrow> Inl Use_after_free
      | Some Uninit \<Rightarrow> Inl Uninit_read
      | Some (Init (TaskInner t f)) \<Rightarrow> Inr t
      | Some (Dropped (TaskInner t f)) \<Rightarrow> Inr t
      | _ \<Rightarrow> Inl Type_confusion)"

fun map_hdr :: "(Task \<Rightarrow> Task) \<Rightarrow> 'f obj \<Rightarrow> 'f obj" where
  "map_hdr g (TaskInner t f) = TaskInner (g t) f"
| "map_hdr g ob = ob"

abbreviation map_task :: "(Task \<Rightarrow> Task) \<Rightarrow> 'f obj block \<Rightarrow> 'f obj block" where
  "map_task g \<equiv> map_block (map_hdr g)"

definition modify_task :: "addr \<Rightarrow> (Task \<Rightarrow> Task) \<Rightarrow> 'f rt \<Rightarrow> 'f rt res" where
  "modify_task a g s =
     bind_r (deref_task a s) (\<lambda>t. Inr (s\<lparr>mem := (mem s)(a := map_option (map_task g) (mem s a))\<rparr>))"

text \<open>Overwriting a live object in place (the address was dereferenced before).\<close>

definition store :: "addr \<Rightarrow> 'f obj \<Rightarrow> 'f rt \<Rightarrow> 'f rt" where
  "store a ob s = s\<lparr>mem := (mem s)(a \<mapsto> Init ob)\<rparr>"

definition new_obj :: "addr \<Rightarrow> 'f obj \<Rightarrow> 'f rt \<Rightarrow> (addr \<times> 'f rt) res" where
  "new_obj p ob s =
     bind_r (do_new p ob (mem s)) (\<lambda>(r, h).
       case r of None \<Rightarrow> Inl Panic_unwrap | Some a \<Rightarrow> Inr (a, s\<lparr>mem := h\<rparr>))"

definition on_mem :: "('f obj heap \<Rightarrow> 'f obj heap res) \<Rightarrow> 'f rt \<Rightarrow> 'f rt res" where
  "on_mem g s = bind_r (g (mem s)) (\<lambda>h. Inr (s\<lparr>mem := h\<rparr>))"

text \<open>\<open>shared.epoch.as_ref().next_epoch()\<close> on the epoch at address \<open>a\<close>.\<close>

definition next_epoch_at :: "addr \<Rightarrow> 'f rt \<Rightarrow> 'f rt res" where
  "next_epoch_at a s =
     bind_r (deref_epoch a s) (\<lambda>e.
       let (e', wake) = next_epoch e; s = store a (Obj_epoch e') s
       in Inr (if wake then s\<lparr>events := events s @ [Unpark_all a]\<rparr> else s))"

definition RuntimeSharedData_get :: "'f rt \<Rightarrow> RuntimeSharedData res" where
  "RuntimeSharedData_get s = deref_shared (get_global s) s"

section \<open>Access lemmas\<close>

text \<open>\<open>is_task s a\<close>: \<open>a\<close> points to a task, dropped or not.\<close>

definition is_task :: "'f rt \<Rightarrow> addr \<Rightarrow> bool" where
  "is_task s a \<longleftrightarrow> a \<noteq> null \<and> (\<exists>t f. mem s a = Some (Init (TaskInner t f)) \<or> mem s a = Some (Dropped (TaskInner t f)))"

definition task_at :: "'f rt \<Rightarrow> addr \<Rightarrow> Task" where
  "task_at s a = (case mem s a of Some (Init (TaskInner t f)) \<Rightarrow> t | Some (Dropped (TaskInner t f)) \<Rightarrow> t)"

lemma deref_task_Inr [res_simps]: "deref_task a s = Inr t \<longleftrightarrow> is_task s a \<and> t = task_at s a"
  by (auto simp: deref_task_def is_task_def task_at_def split: option.splits block.splits obj.splits)

lemma is_task_deref: "is_task s a \<Longrightarrow> deref_task a s = Inr (task_at s a)"
  by (simp add: deref_task_Inr)

lemma deref_Inr [res_simps]: "deref a s = Inr ob \<longleftrightarrow> a \<noteq> null \<and> mem s a = Some (Init ob)"
  by (auto simp: deref_def split: option.splits block.splits)

lemma deref_worker_Inr [res_simps]: "deref_worker a s = Inr w \<longleftrightarrow> a \<noteq> null \<and> mem s a = Some (Init (Obj_worker w))"
  by (auto simp: deref_worker_def deref_def split: option.splits block.splits obj.splits)

lemma deref_epoch_Inr [res_simps]: "deref_epoch a s = Inr e \<longleftrightarrow> a \<noteq> null \<and> mem s a = Some (Init (Obj_epoch e))"
  by (auto simp: deref_epoch_def deref_def split: option.splits block.splits obj.splits)

lemma deref_shared_Inr [res_simps]: "deref_shared a s = Inr d \<longleftrightarrow> a \<noteq> null \<and> mem s a = Some (Init (Obj_shared d))"
  by (auto simp: deref_shared_def deref_def split: option.splits block.splits obj.splits)

lemma deref_local_Inr [res_simps]: "deref_local a s = Inr d \<longleftrightarrow> a \<noteq> null \<and> mem s a = Some (Init (Obj_local d))"
  by (auto simp: deref_local_def deref_def split: option.splits block.splits obj.splits)

lemma map_hdr_comp [simp]: "map_hdr g (map_hdr h ob) = map_hdr (g \<circ> h) ob"
  by (cases ob) auto

lemma map_hdr_id: "(\<And>t f. ob = TaskInner t f \<Longrightarrow> g t = t) \<Longrightarrow> map_hdr g ob = ob"
  by (cases ob) auto

lemma map_task_comp [simp]: "map_task g (map_task h b) = map_task (g \<circ> h) b"
  by (cases b) auto

lemma map_task_eq [simp]:
  "map_task g b = Init (TaskInner t f) \<longleftrightarrow> (\<exists>u. b = Init (TaskInner u f) \<and> t = g u)"
  "map_task g b = Dropped (TaskInner t f) \<longleftrightarrow> (\<exists>u. b = Dropped (TaskInner u f) \<and> t = g u)"
  "map_task g b = Init (Obj_worker w) \<longleftrightarrow> b = Init (Obj_worker w)"
  "map_task g b = Init (Obj_epoch e) \<longleftrightarrow> b = Init (Obj_epoch e)"
  "map_task g b = Init (Obj_shared d) \<longleftrightarrow> b = Init (Obj_shared d)"
  "map_task g b = Init (Obj_local ld) \<longleftrightarrow> b = Init (Obj_local ld)"
  subgoal by (cases b; simp; rename_tac ob; case_tac ob; auto)
  subgoal by (cases b; simp; rename_tac ob; case_tac ob; auto)
  subgoal by (cases b; simp; rename_tac ob; case_tac ob; auto)
  subgoal by (cases b; simp; rename_tac ob; case_tac ob; auto)
  subgoal by (cases b; simp; rename_tac ob; case_tac ob; auto)
  subgoal by (cases b; simp; rename_tac ob; case_tac ob; auto)
  done

text \<open>Changing the header of a task keeps every object what it is.\<close>

lemma is_task_map: "is_task (s\<lparr>mem := (mem s)(a := map_option (map_task g) (mem s a))\<rparr>) = is_task s"
  by (auto simp: is_task_def fun_eq_iff)

lemma task_at_map:
  "is_task s a \<Longrightarrow> task_at (s\<lparr>mem := (mem s)(a := map_option (map_task g) (mem s a))\<rparr>) = (task_at s)(a := g (task_at s a))"
  by (auto simp: is_task_def fun_eq_iff task_at_def)

lemma modify_task_eq:
  "is_task s a \<Longrightarrow> modify_task a g s = Inr (s\<lparr>mem := (mem s)(a := map_option (map_task g) (mem s a))\<rparr>)"
  by (simp add: modify_task_def is_task_deref)

end
