(* ===== verification/Task_List.thy ===== *)
theory Task_List
  imports Runtime_State
begin

text \<open>
  The intrusive singly linked list of tasks (\<open>yaay-mt-runtime/src/task_list.rs\<close>), with the
  accessors of the \<open>next\<close> pointer (\<open>task.rs\<close> 61-71).  The last task's \<open>next\<close> pointer is whatever
  an earlier list left there: the list ends where \<open>tail\<close> says, not at a null pointer.  A
  \<open>SyncTaskList\<close> is a \<open>TaskList\<close> whose operations run under its lock, each as one locked section;
  its lock-free \<open>is_empty\<close> reads \<open>head\<close> only.
\<close>

section \<open>Definitions\<close>

definition get_next :: "addr \<Rightarrow> 'f rt \<Rightarrow> addr res" where
  "get_next task s = bind_r (deref_task task s) (\<lambda>t. Inr (t_next t))"

definition set_next :: "addr \<Rightarrow> addr \<Rightarrow> 'f rt \<Rightarrow> 'f rt res" where
  "set_next task nx s = modify_task task (\<lambda>t. t\<lparr>t_next := nx\<rparr>) s"

definition TaskList_new :: TaskList where
  "TaskList_new = \<lparr>head = null, tail = null\<rparr>"

definition push_back_batch :: "TaskList \<Rightarrow> TaskList \<Rightarrow> 'f rt \<Rightarrow> (TaskList \<times> 'f rt) res" where
  "push_back_batch self tasks s =
     (if tail self = null then Inr (self\<lparr>head := head tasks, tail := tail tasks\<rparr>, s)
      else bind_r (set_next (tail self) (head tasks) s) (\<lambda>s. Inr (self\<lparr>tail := tail tasks\<rparr>, s)))"

definition push_back :: "TaskList \<Rightarrow> addr \<Rightarrow> 'f rt \<Rightarrow> (TaskList \<times> 'f rt) res" where
  "push_back self task s = push_back_batch self \<lparr>head = task, tail = task\<rparr> s"

definition push_front_batch :: "TaskList \<Rightarrow> TaskList \<Rightarrow> 'f rt \<Rightarrow> (TaskList \<times> 'f rt) res" where
  "push_front_batch self tasks s =
     (if head self = null then Inr (self\<lparr>tail := tail tasks, head := head tasks\<rparr>, s)
      else bind_r (set_next (tail tasks) (head self) s) (\<lambda>s. Inr (self\<lparr>head := head tasks\<rparr>, s)))"

definition push_front :: "TaskList \<Rightarrow> addr \<Rightarrow> 'f rt \<Rightarrow> (TaskList \<times> 'f rt) res" where
  "push_front self task s = push_front_batch self \<lparr>head = task, tail = task\<rparr> s"

definition pop_front :: "TaskList \<Rightarrow> 'f rt \<Rightarrow> (addr option \<times> TaskList) res" where
  "pop_front self s =
     (if head self = null then Inr (None, self)
      else if head self = tail self then Inr (Some (head self), self\<lparr>head := null, tail := null\<rparr>)
      else bind_r (get_next (head self) s) (\<lambda>head_next. Inr (Some (head self), self\<lparr>head := head_next\<rparr>)))"

definition is_empty :: "TaskList \<Rightarrow> bool" where
  "is_empty self = (head self = null)"

definition pop_all :: "TaskList \<Rightarrow> TaskList \<times> TaskList" where
  "pop_all self = (\<lparr>head = head self, tail = tail self\<rparr>, self\<lparr>head := null, tail := null\<rparr>)"

text \<open>
  \<open>tasks.into_iter().for_each(f)\<close>: the iterator's \<open>next\<close> is \<open>pop_front\<close>.  \<open>None\<close>: the loop does
  not end.
\<close>

partial_function (option) for_each_task ::
  "(addr \<Rightarrow> 'f rt \<Rightarrow> 'f rt res) \<Rightarrow> TaskList \<Rightarrow> 'f rt \<Rightarrow> 'f rt res option" where
  "for_each_task f l s =
     (case pop_front l s of
        Inl e \<Rightarrow> Some (Inl e)
      | Inr (x, l') \<Rightarrow>
          (case x of
             None \<Rightarrow> Some (Inr s)
           | Some task \<Rightarrow> (case f task s of Inl e \<Rightarrow> Some (Inl e) | Inr s' \<Rightarrow> for_each_task f l' s')))"

text \<open>
  What a list stands for: \<open>holds node nxt l xs\<close> says that \<open>l\<close> holds the distinct nodes \<open>xs\<close>,
  first to last, where \<open>nxt\<close> gives the \<open>next\<close> pointers.
\<close>

fun linked :: "(addr \<Rightarrow> addr) \<Rightarrow> addr list \<Rightarrow> bool" where
  "linked nxt [] = True"
| "linked nxt (x # xs) = ((xs \<noteq> [] \<longrightarrow> nxt x = hd xs) \<and> linked nxt xs)"

definition holds :: "(addr \<Rightarrow> bool) \<Rightarrow> (addr \<Rightarrow> addr) \<Rightarrow> TaskList \<Rightarrow> addr list \<Rightarrow> bool" where
  "holds node nxt l xs \<longleftrightarrow> distinct xs \<and> (\<forall>x\<in>set xs. node x) \<and> linked nxt xs \<and>
     (if xs = [] then head l = null \<and> tail l = null else head l = hd xs \<and> tail l = last xs)"

definition next_at :: "'f rt \<Rightarrow> addr \<Rightarrow> addr" where
  "next_at s a = t_next (task_at s a)"

definition queue_at :: "'f rt \<Rightarrow> TaskList \<Rightarrow> addr list \<Rightarrow> bool" where
  "queue_at s l xs \<longleftrightarrow> holds (is_task s) (next_at s) l xs"

text \<open>\<open>relink A s s'\<close>: only \<open>next\<close> pointers of tasks in \<open>A\<close> changed.\<close>

definition relink :: "addr set \<Rightarrow> 'f rt \<Rightarrow> 'f rt \<Rightarrow> bool" where
  "relink A s s' \<longleftrightarrow> (\<exists>g. s' = s\<lparr>mem := (\<lambda>a. if a \<in> A
     then map_option (map_task (\<lambda>t. t\<lparr>t_next := g a\<rparr>)) (mem s a) else mem s a)\<rparr>)"

section \<open>Linked nodes\<close>

lemma linked_append:
  "linked nxt (xs @ ys) \<longleftrightarrow> linked nxt xs \<and> linked nxt ys \<and> (xs \<noteq> [] \<and> ys \<noteq> [] \<longrightarrow> nxt (last xs) = hd ys)"
  by (induction xs) (auto simp: neq_Nil_conv)

lemma linked_upd: "a \<notin> set (butlast xs) \<Longrightarrow> linked (nxt(a := b)) xs = linked nxt xs"
  by (induction xs) (auto split: if_splits)

lemma linked_cong: "\<forall>x\<in>set xs. nxt x = nxt' x \<Longrightarrow> linked nxt xs = linked nxt' xs"
  by (induction xs) auto

text \<open>
  The interface of the nodes: which addresses are nodes, the \<open>next\<close> pointer of a node, a load of it,
  and a store to it that changes nothing else.
\<close>

locale node_store =
  fixes node :: "'s \<Rightarrow> addr \<Rightarrow> bool" and nxt :: "'s \<Rightarrow> addr \<Rightarrow> addr"
    and get :: "addr \<Rightarrow> 's \<Rightarrow> addr res" and put :: "addr \<Rightarrow> addr \<Rightarrow> 's \<Rightarrow> 's res"
  assumes node_null: "\<not> node s null"
    and get_node: "node s a \<Longrightarrow> get a s = Inr (nxt s a)"
    and put_node: "node s a \<Longrightarrow> \<exists>s'. put a b s = Inr s' \<and> node s' = node s \<and> nxt s' = (nxt s)(a := b)"
begin

lemma holds_null: "holds (node s) (nxt s) l xs \<Longrightarrow> (head l = null \<longleftrightarrow> xs = []) \<and> (tail l = null \<longleftrightarrow> xs = [])"
proof (cases "xs = []")
  case False
  moreover assume "holds (node s) (nxt s) l xs"
  ultimately have "node s (head l)" "node s (tail l)" by (auto simp: holds_def)
  then have "head l \<noteq> null" "tail l \<noteq> null" using node_null[of s] by metis+
  then show ?thesis using False by simp
qed (simp add: holds_def)

text \<open>Linking the last node of one list to the first of another appends them.\<close>

lemma put_append:
  assumes l: "holds (node s) (nxt s) l xs" and m: "holds (node s) (nxt s) m ys"
    and ne: "xs \<noteq> []" "ys \<noteq> []" and disj: "set xs \<inter> set ys = {}"
  shows "\<exists>s'. put (tail l) (head m) s = Inr s' \<and>
    holds (node s') (nxt s') \<lparr>head = head l, tail = tail m\<rparr> (xs @ ys)"
proof -
  have last: "tail l = last xs" "node s (last xs)" "head m = hd ys" using l m ne by (auto simp: holds_def)
  from put_node[OF last(2), of "hd ys"] obtain s' where
    s': "put (last xs) (hd ys) s = Inr s'" "node s' = node s" "nxt s' = (nxt s)(last xs := hd ys)" by auto
  have "last xs \<notin> set (butlast xs)" using l ne(1) by (metis append_butlast_last_id distinct_butlast holds_def not_distinct_conv_prefix append.right_neutral)
  moreover have "last xs \<notin> set (butlast ys)" using disj last_in_set[OF ne(1)] by (auto dest: in_set_butlastD)
  ultimately have "linked (nxt s') (xs @ ys)" using l m s'(3) by (simp add: linked_append linked_upd holds_def)
  then show ?thesis using l m ne disj s' last by (auto simp: holds_def)
qed

lemma get_tail:
  assumes "holds (node s) (nxt s) l (x # xs)" "xs \<noteq> []"
  shows "get (head l) s = Inr (hd xs) \<and> holds (node s) (nxt s) (l\<lparr>head := hd xs\<rparr>) xs"
  using assms get_node[of s x] by (auto simp: holds_def)

end

section \<open>Relinking\<close>

lemma relink_refl [simp]: "relink A s s"
  unfolding relink_def by (rule exI[of _ "next_at s"])
    (auto intro!: rt.equality map_option_idI[symmetric] block.map_ident_strong map_hdr_id
      simp: fun_eq_iff next_at_def task_at_def split: block.splits)

lemma relink_trans:
  assumes "relink A s t" "relink B t u"
  shows "relink (A \<union> B) s u"
proof -
  obtain g h where g: "t = s\<lparr>mem := (\<lambda>a. if a \<in> A then map_option (map_task (\<lambda>t. t\<lparr>t_next := g a\<rparr>)) (mem s a) else mem s a)\<rparr>"
    and h: "u = t\<lparr>mem := (\<lambda>a. if a \<in> B then map_option (map_task (\<lambda>t. t\<lparr>t_next := h a\<rparr>)) (mem t a) else mem t a)\<rparr>"
    using assms by (auto simp: relink_def)
  show ?thesis unfolding relink_def g h
    by (intro exI[of _ "\<lambda>a. if a \<in> B then h a else g a"]) (auto simp: fun_eq_iff option.map_comp o_def)
qed

lemma relink_mono: "relink A s t \<Longrightarrow> A \<subseteq> B \<Longrightarrow> relink B s t"
  using relink_trans[of A s t B t] by (simp add: Un_absorb1)

lemma relink_frame [simp]:
  assumes "relink A s s'"
  shows "GLOBAL s' = GLOBAL s" "LOCAL s' = LOCAL s" "events s' = events s"
    "a \<notin> A \<Longrightarrow> mem s' a = mem s a" "is_task s' = is_task s" "a \<notin> A \<Longrightarrow> task_at s' a = task_at s a"
    "mem s' a = Some (Init (Obj_worker w)) \<longleftrightarrow> mem s a = Some (Init (Obj_worker w))"
    "mem s' a = Some (Init (Obj_epoch e)) \<longleftrightarrow> mem s a = Some (Init (Obj_epoch e))"
    "mem s' a = Some (Init (Obj_shared d)) \<longleftrightarrow> mem s a = Some (Init (Obj_shared d))"
    "mem s' a = Some (Init (Obj_local ld)) \<longleftrightarrow> mem s a = Some (Init (Obj_local ld))"
  using assms by (auto simp: relink_def is_task_def fun_eq_iff task_at_def split: if_splits)

lemma relink_dom: "relink A s s' \<Longrightarrow> dom (mem s') = dom (mem s)"
  by (auto simp: relink_def dom_def split: if_splits)

lemma relink_task:
  assumes "relink A s s'" "is_task s a"
  shows "\<exists>nx. task_at s' a = (task_at s a)\<lparr>t_next := nx\<rparr>"
  using assms by (cases "a \<in> A") (auto simp: relink_def is_task_def task_at_def intro: exI[of _ "t_next (task_at s a)"])

lemma queue_at_frame:
  assumes "relink A s s'" "A \<inter> set xs = {}" "queue_at s l xs"
  shows "queue_at s' l xs"
proof -
  have "\<forall>x\<in>set xs. next_at s x = next_at s' x"
    using assms(1,2) unfolding next_at_def by (metis disjoint_iff relink_frame(6))
  then show ?thesis using assms(1,3) linked_cong[of xs] by (auto simp: queue_at_def holds_def)
qed

lemma set_next_eq:
  assumes "is_task s a"
  shows "\<exists>s'. set_next a b s = Inr s' \<and> is_task s' = is_task s \<and> next_at s' = (next_at s)(a := b) \<and> relink {a} s s'"
proof -
  let ?s = "s\<lparr>mem := (mem s)(a := map_option (map_task (\<lambda>t. t\<lparr>t_next := b\<rparr>)) (mem s a))\<rparr>"
  have "set_next a b s = Inr ?s" using assms by (simp add: set_next_def modify_task_eq)
  moreover have "relink {a} s ?s" unfolding relink_def by (rule exI[of _ "\<lambda>_. b"]) (auto simp: fun_eq_iff)
  ultimately show ?thesis using assms by (auto simp: is_task_map task_at_map next_at_def fun_eq_iff)
qed

interpretation tasks: node_store is_task next_at get_next set_next
proof
  show "\<not> is_task s null" for s :: "'a rt" by (simp add: is_task_def)
  show "get_next a s = Inr (next_at s a)" if "is_task s a" for s :: "'a rt" and a
    using that by (simp add: get_next_def is_task_deref next_at_def)
  show "\<exists>s'. set_next a b s = Inr s' \<and> is_task s' = is_task s \<and> next_at s' = (next_at s)(a := b)"
    if "is_task s a" for s :: "'a rt" and a b
    using set_next_eq[OF that, of b] by auto
qed

lemmas queue_null = tasks.holds_null[folded queue_at_def]

section \<open>The operations on lists\<close>

lemma queue_at_nil [simp]: "queue_at s l [] \<longleftrightarrow> l = TaskList_new"
  by (cases l) (auto simp: queue_at_def holds_def TaskList_new_def)

lemma queue_at_single: "is_task s t \<Longrightarrow> queue_at s \<lparr>head = t, tail = t\<rparr> [t]"
  by (simp add: queue_at_def holds_def)

lemma push_back_batch_ok:
  assumes l: "queue_at s l xs" and m: "queue_at s m ys" and ne: "ys \<noteq> []" and disj: "set xs \<inter> set ys = {}"
  shows "\<exists>l' s'. push_back_batch l m s = Inr (l', s') \<and> queue_at s' l' (xs @ ys) \<and> relink (set xs) s s'"
proof (cases "xs = []")
  case True
  then show ?thesis using l m by (auto simp: push_back_batch_def TaskList_new_def queue_at_def holds_def)
next
  case False
  from tasks.put_append[folded queue_at_def, OF l m False ne disj] obtain s' where
    s': "set_next (tail l) (head m) s = Inr s'" "queue_at s' \<lparr>head = head l, tail = tail m\<rparr> (xs @ ys)" by auto
  have tl: "tail l = last xs" "is_task s (last xs)" using l False by (auto simp: queue_at_def holds_def)
  have "relink {last xs} s s'" using set_next_eq[OF tl(2), of "head m"] s'(1) tl(1) by auto
  then have "relink (set xs) s s'" by (rule relink_mono) (simp add: False)
  then show ?thesis using s' queue_null[OF l] False by (cases l) (auto simp: push_back_batch_def)
qed

lemma push_front_batch_ok:
  assumes l: "queue_at s l xs" and m: "queue_at s m ys" and ne: "ys \<noteq> []" and disj: "set xs \<inter> set ys = {}"
  shows "\<exists>l' s'. push_front_batch l m s = Inr (l', s') \<and> queue_at s' l' (ys @ xs) \<and> relink (set ys) s s'"
proof (cases "xs = []")
  case True
  then show ?thesis using l m by (auto simp: push_front_batch_def TaskList_new_def queue_at_def holds_def)
next
  case False
  have disj': "set ys \<inter> set xs = {}" using disj by auto
  from tasks.put_append[folded queue_at_def, OF m l ne False disj'] obtain s' where
    s': "set_next (tail m) (head l) s = Inr s'" "queue_at s' \<lparr>head = head m, tail = tail l\<rparr> (ys @ xs)" by auto
  have tl: "tail m = last ys" "is_task s (last ys)" using m ne by (auto simp: queue_at_def holds_def)
  have "relink {last ys} s s'" using set_next_eq[OF tl(2), of "head l"] s'(1) tl(1) by auto
  then have "relink (set ys) s s'" by (rule relink_mono) (simp add: ne)
  then show ?thesis using s' queue_null[OF l] False by (cases l) (auto simp: push_front_batch_def)
qed

lemma push_back_ok:
  assumes "queue_at s l xs" "is_task s t" "t \<notin> set xs"
  shows "\<exists>l' s'. push_back l t s = Inr (l', s') \<and> queue_at s' l' (xs @ [t]) \<and> relink (set xs) s s'"
  using push_back_batch_ok[OF assms(1) queue_at_single[OF assms(2)]] assms(3) by (simp add: push_back_def)

lemma push_front_ok:
  assumes "queue_at s l xs" "is_task s t" "t \<notin> set xs"
  shows "\<exists>l' s'. push_front l t s = Inr (l', s') \<and> queue_at s' l' (t # xs) \<and> relink {t} s s'"
  using push_front_batch_ok[OF assms(1) queue_at_single[OF assms(2)]] assms(3) by (simp add: push_front_def)

lemma pop_front_nil [simp]: "pop_front TaskList_new s = Inr (None, TaskList_new)"
  by (simp add: pop_front_def TaskList_new_def)

lemma pop_front_ok:
  assumes "queue_at s l (x # xs)"
  shows "\<exists>l'. pop_front l s = Inr (Some x, l') \<and> queue_at s l' xs"
proof (cases "xs = []")
  case True
  then show ?thesis using assms queue_null[OF assms]
    by (cases l) (auto simp: pop_front_def queue_at_def holds_def TaskList_new_def)
next
  case False
  have "head l = x" "tail l = last xs" "x \<notin> set xs" using assms False by (auto simp: queue_at_def holds_def)
  moreover from this False have "head l \<noteq> tail l" by (metis last_in_set)
  ultimately show ?thesis using tasks.get_tail[folded queue_at_def, OF assms False] queue_null[OF assms]
    by (auto simp: pop_front_def)
qed

lemma is_empty_iff: "queue_at s l xs \<Longrightarrow> is_empty l \<longleftrightarrow> xs = []"
  using queue_null[of s l xs] by (simp add: is_empty_def)

lemma pop_all_eq: "pop_all l = (l, TaskList_new)"
  by (cases l) (simp add: pop_all_def TaskList_new_def)

section \<open>Properties\<close>

text \<open>
  C33: the pushes refine appending lists.  Pushing a non-empty list of tasks to the back or to the front
  of a list never faults, gives a list that holds the tasks of both in that order, and changes
  nothing in memory but the \<open>next\<close> pointers of the list whose end is linked.  \<open>push_back\<close> and
  \<open>push_front\<close> are the case of one task.
\<close>

theorem TaskList_push_refines:
  assumes "queue_at s l xs" and "queue_at s m ys" and "ys \<noteq> []" and "set xs \<inter> set ys = {}"
  shows "(\<exists>l' s'. push_back_batch l m s = Inr (l', s') \<and> queue_at s' l' (xs @ ys) \<and> relink (set xs) s s') \<and>
    (\<exists>l' s'. push_front_batch l m s = Inr (l', s') \<and> queue_at s' l' (ys @ xs) \<and> relink (set ys) s s')"
  using push_back_batch_ok[OF assms] push_front_batch_ok[OF assms] by blast

text \<open>
  C34: the pops refine taking a list apart.  \<open>pop_front\<close> returns the first task, if any, and leaves the
  rest; \<open>pop_all\<close> hands the whole list over and leaves the empty one; \<open>is_empty\<close> tells which case it is.
  The link field of the last task is never followed, so it may hold anything.
\<close>

theorem TaskList_pop_refines:
  assumes "queue_at s l xs"
  shows "(case xs of [] \<Rightarrow> pop_front l s = Inr (None, l)
      | x # ys \<Rightarrow> \<exists>l'. pop_front l s = Inr (Some x, l') \<and> queue_at s l' ys) \<and>
    (\<exists>m l'. pop_all l = (m, l') \<and> queue_at s m xs \<and> queue_at s l' []) \<and> (is_empty l \<longleftrightarrow> xs = [])"
  using assms pop_front_ok[of s l] is_empty_iff[OF assms] by (cases xs) (simp_all add: pop_all_eq)

text \<open>Two tasks, linked, whose last link is stale.\<close>

definition two_tasks :: "unit rt" where
  "two_tasks = \<lparr>mem = [1 \<mapsto> Init (TaskInner \<lparr>t_status = 3, t_rc = 1, t_next = 2, t_worker_id = 0\<rparr> ()),
     2 \<mapsto> Init (TaskInner \<lparr>t_status = 3, t_rc = 1, t_next = 1, t_worker_id = 0\<rparr> ()),
     3 \<mapsto> Init (TaskInner \<lparr>t_status = 3, t_rc = 1, t_next = 2, t_worker_id = 0\<rparr> ())],
     GLOBAL = null, LOCAL = (\<lambda>_. null), events = []\<rparr>"

lemma two_tasks_queue:
  "queue_at two_tasks \<lparr>head = 1, tail = 2\<rparr> [1, 2]" "queue_at two_tasks \<lparr>head = 3, tail = 3\<rparr> [3]"
  by (simp_all add: queue_at_def holds_def is_task_def next_at_def task_at_def two_tasks_def)

theorem TaskList_push_refines_witness:
  "(\<exists>l' s'. push_back_batch \<lparr>head = 1, tail = 2\<rparr> \<lparr>head = 3, tail = 3\<rparr> two_tasks = Inr (l', s') \<and> queue_at s' l' [1, 2, 3]) \<and>
   (\<exists>l' s'. push_front_batch \<lparr>head = 1, tail = 2\<rparr> \<lparr>head = 3, tail = 3\<rparr> two_tasks = Inr (l', s') \<and> queue_at s' l' [3, 1, 2])"
  using TaskList_push_refines[OF two_tasks_queue] by auto

theorem TaskList_pop_refines_witness:
  "\<exists>l'. pop_front \<lparr>head = 1, tail = 2\<rparr> two_tasks = Inr (Some 1, l') \<and> queue_at two_tasks l' [2]"
  using TaskList_pop_refines[OF two_tasks_queue(1)] by simp

end
