(* ===== verification/Task_Protocol.thy ===== *)
theory Task_Protocol
  imports Transition
begin

text \<open>
  The life of one task under concurrency (\<open>task.rs\<close>: \<open>wake\<close>, \<open>poll\<close>, \<open>drop_in_place\<close>,
  \<open>rc_inc\<close>, \<open>rc_dec\<close>; \<open>task_waker.rs\<close>; the drop loop of \<open>WorkerGuard\<close> in
  \<open>worker_manager.rs\<close>).

  Every atomic access of the task's \<open>status\<close> and \<open>rc\<close> is one step, so the state records where
  each thread stands between two of them: \<open>ts_poll w\<close> is the position of worker thread \<open>w\<close> in
  \<open>Task::poll\<close> (or of the main thread in the drop loop of \<open>WorkerGuard\<close>), \<open>ts_use u\<close> that of
  the \<open>u\<close>-th call running through a waker.  Any number of threads, wakers and calls may exist.
  \<open>ts_queued\<close> counts the queue entries that hold the task, whichever queue they are in.

  Wakers: \<open>Hd i\<close> is a waker made by \<open>clone\<close> and counted in \<open>rc\<close>; \<open>Cx\<close> is the waker
  \<open>Task::poll\<close> makes without counting it and \<open>forget\<close>s before it returns, usable only while the
  future runs.  Rust's ownership rules are guards of the steps: a call uses a live waker, a waker is
  dropped when no call borrows it, the future returns when no call borrows \<open>Cx\<close>.
  \<open>Waker::wake(self)\<close> is \<open>fn_wake\<close>: a call (\<open>L_call\<close> to its end), then \<open>L_drop\<close>.

  Ghost state: \<open>ts_unseen\<close> is set by every \<open>wake\<close> and cleared when a poll that comes after it
  starts; \<open>ts_drops\<close> counts runs of \<open>fn_drop_in_place\<close>; \<open>ts_bad\<close> records an access after
  the memory was freed, a poll or second drop of a dropped future, or a second free.
\<close>

section \<open>Definitions\<close>

definition MUTED :: u8 where
  "MUTED = 1"

definition NOTIFIED :: u8 where
  "NOTIFIED = push_bit 1 MUTED"

definition DROPPED :: u8 where
  "DROPPED = push_bit 1 NOTIFIED"

datatype handle = Cx | Hd nat

datatype poll_pc =
    Not_polling
  | P_clear          \<comment> \<open>line 146: about to clear \<open>NOTIFIED\<close>\<close>
  | P_run            \<comment> \<open>line 150: the future's \<open>poll\<close> is running\<close>
  | P_cas u8         \<comment> \<open>line 156: in the compare-exchange loop with this \<open>prev\<close>\<close>
  | P_or_dropped     \<comment> \<open>line 173\<close>
  | P_drop_future    \<comment> \<open>line 174\<close>
  | P_rc_dec         \<comment> \<open>line 177\<close>
  | P_dealloc        \<comment> \<open>line 104, \<open>fetch_sub\<close> returned 1\<close>
  | G_or             \<comment> \<open>line 188, called by \<open>WorkerGuard::drop\<close>\<close>
  | G_drop_future    \<comment> \<open>line 190\<close>

datatype use_pc =
    No_call
  | U_or handle      \<comment> \<open>line 115: in \<open>wake\<close>, about to set \<open>MUTED | NOTIFIED\<close>\<close>
  | U_push handle    \<comment> \<open>lines 122-135: must push the task to a queue\<close>
  | U_dealloc        \<comment> \<open>line 104, \<open>fetch_sub\<close> of a waker's \<open>drop\<close> returned 1\<close>

record tstate =
  ts_status :: u8
  ts_rc :: usize
  ts_freed :: bool
  ts_drops :: nat
  ts_queued :: nat
  ts_poll :: "nat \<Rightarrow> poll_pc"
  ts_alive :: "nat set"
  ts_use :: "nat \<Rightarrow> use_pc"
  ts_unseen :: bool
  ts_bad :: bool

text \<open>The task right after \<open>Task::new\<close> and the push of its creator.\<close>

definition ts_new :: tstate where
  "ts_new = \<lparr>ts_status = MUTED OR NOTIFIED, ts_rc = 1, ts_freed = False, ts_drops = 0,
     ts_queued = 1, ts_poll = (\<lambda>_. Not_polling), ts_alive = {}, ts_use = (\<lambda>_. No_call),
     ts_unseen = True, ts_bad = False\<rparr>"

datatype label =
    L_pop nat | L_guard_pop nat | L_poll nat bool | L_return nat bool
  | L_clone handle nat | L_call nat handle | L_use nat | L_drop nat nat

text \<open>An access to the task's memory.\<close>

definition touch :: "tstate \<Rightarrow> tstate" where
  "touch s = s\<lparr>ts_bad := ts_bad s \<or> ts_freed s\<rparr>"

definition handle_ok :: "tstate \<Rightarrow> handle \<Rightarrow> nat \<Rightarrow> bool" where
  "handle_ok s h w = (case h of Cx \<Rightarrow> ts_poll s w = P_run | Hd i \<Rightarrow> i \<in> ts_alive s)"

text \<open>
  One atomic step of worker \<open>w\<close> inside \<open>Task::poll\<close> (from the clearing of \<open>NOTIFIED\<close> on) or
  inside the drop loop.  \<open>weak\<close> makes a \<open>compare_exchange_weak\<close> fail spuriously.  When the
  future has returned, the next position is chosen by \<open>L_return\<close>.
\<close>

definition poll_step :: "nat \<Rightarrow> bool \<Rightarrow> tstate \<Rightarrow> tstate option" where
  "poll_step w weak s0 =
    (let s = touch s0; at = (\<lambda>pc t. Some (t\<lparr>ts_poll := (ts_poll t)(w := pc)\<rparr>)); st = ts_status s
     in case ts_poll s w of
       Not_polling \<Rightarrow> None
     | P_run \<Rightarrow> None
     | P_clear \<Rightarrow>
         at P_run (s\<lparr>ts_status := st AND NOT NOTIFIED, ts_unseen := False,
           ts_bad := ts_bad s \<or> 0 < ts_drops s\<rparr>)
     | P_cas prev \<Rightarrow>
         (if prev = MUTED then
            if st = prev \<and> \<not> weak then at Not_polling (s\<lparr>ts_status := 0\<rparr>)
            else at (P_cas st) s
          else
            if st = prev \<and> \<not> weak then
              at P_run (s\<lparr>ts_status := MUTED, ts_unseen := False,
                ts_bad := ts_bad s \<or> 0 < ts_drops s\<rparr>)
            else at (P_cas st) s)
     | P_or_dropped \<Rightarrow> at P_drop_future (s\<lparr>ts_status := st OR DROPPED\<rparr>)
     | P_drop_future \<Rightarrow>
         at P_rc_dec (s\<lparr>ts_drops := Suc (ts_drops s), ts_bad := ts_bad s \<or> 0 < ts_drops s\<rparr>)
     | P_rc_dec \<Rightarrow>
         at (if ts_rc s = 1 then P_dealloc else Not_polling) (s\<lparr>ts_rc := ts_rc s - 1\<rparr>)
     | P_dealloc \<Rightarrow> at Not_polling (s\<lparr>ts_freed := True\<rparr>)
     | G_or \<Rightarrow>
         at (if st AND DROPPED = 0 then G_drop_future else P_rc_dec) (s\<lparr>ts_status := st OR DROPPED\<rparr>)
     | G_drop_future \<Rightarrow>
         at P_rc_dec (s\<lparr>ts_drops := Suc (ts_drops s), ts_bad := ts_bad s \<or> 0 < ts_drops s\<rparr>))"

text \<open>One atomic step of the \<open>u\<close>-th call: \<open>Task::wake\<close>, or the end of a waker's \<open>drop\<close>.\<close>

definition use_step :: "nat \<Rightarrow> tstate \<Rightarrow> tstate option" where
  "use_step u s0 =
    (let s = touch s0; at = (\<lambda>pc t. Some (t\<lparr>ts_use := (ts_use t)(u := pc)\<rparr>)); prev = ts_status s
     in case ts_use s u of
       No_call \<Rightarrow> None
     | U_or h \<Rightarrow>
         at (if prev AND (MUTED OR DROPPED) \<noteq> 0 then No_call else U_push h)
           (s\<lparr>ts_status := prev OR (MUTED OR NOTIFIED), ts_unseen := True\<rparr>)
     | U_push h \<Rightarrow> at No_call (s\<lparr>ts_queued := Suc (ts_queued s)\<rparr>)
     | U_dealloc \<Rightarrow> at No_call (s\<lparr>ts_freed := True\<rparr>))"

text \<open>
  All steps: \<open>L_pop w\<close> a worker pops the task from a queue to poll it, \<open>L_guard_pop w\<close> the drop
  of \<open>WorkerGuard\<close> pops it, \<open>L_return w ready\<close> the future returns \<open>Ready\<close> or \<open>Pending\<close>,
  \<open>L_clone h i\<close> clones waker \<open>h\<close> into a new one, \<open>L_call u h\<close> calls \<open>wake_by_ref\<close>,
  \<open>L_drop u i\<close> drops waker \<open>i\<close>.  \<open>rc\<close> is a word whose \<open>fetch_add\<close> wraps around without a check (task.rs 94);
  \<open>clone\<close> has the guard that the live wakers, values of 16 bytes, fit into an address space of \<open>2 ^ 64\<close> bytes; a
  waker lost by \<open>mem::forget\<close> counts as live.
\<close>

definition max_wakers :: nat where
  "max_wakers = 2 ^ 60"

definition calls_through :: "tstate \<Rightarrow> handle \<Rightarrow> nat set" where
  "calls_through s h = {u. ts_use s u = U_or h \<or> ts_use s u = U_push h}"

inductive tstep :: "label \<Rightarrow> tstate \<Rightarrow> tstate \<Rightarrow> bool" where
  pop: "0 < ts_queued s \<Longrightarrow> ts_poll s w = Not_polling \<Longrightarrow>
    tstep (L_pop w) s
      ((touch s)\<lparr>ts_queued := ts_queued s - 1, ts_poll := (ts_poll s)(w := P_clear)\<rparr>)"
| guard_pop: "0 < ts_queued s \<Longrightarrow> ts_poll s w = Not_polling \<Longrightarrow>
    tstep (L_guard_pop w) s
      ((touch s)\<lparr>ts_queued := ts_queued s - 1, ts_poll := (ts_poll s)(w := G_or)\<rparr>)"
| poll: "poll_step w weak s = Some t \<Longrightarrow> tstep (L_poll w weak) s t"
| return: "ts_poll s w = P_run \<Longrightarrow> calls_through s Cx = {} \<Longrightarrow>
    tstep (L_return w ready) s
      (s\<lparr>ts_poll := (ts_poll s)(w := if ready then P_or_dropped else P_cas MUTED)\<rparr>)"
| clone: "handle_ok s h w \<Longrightarrow> i \<notin> ts_alive s \<Longrightarrow> card (ts_alive s) < max_wakers \<Longrightarrow>
    tstep (L_clone h i) s
      ((touch s)\<lparr>ts_rc := ts_rc s + 1, ts_alive := insert i (ts_alive s)\<rparr>)"
| call: "handle_ok s h w \<Longrightarrow> ts_use s u = No_call \<Longrightarrow>
    tstep (L_call u h) s (s\<lparr>ts_use := (ts_use s)(u := U_or h)\<rparr>)"
| wake: "use_step u s = Some t \<Longrightarrow> tstep (L_use u) s t"
| drop: "i \<in> ts_alive s \<Longrightarrow> calls_through s (Hd i) = {} \<Longrightarrow> ts_use s u = No_call \<Longrightarrow>
    tstep (L_drop u i) s
      ((touch s)\<lparr>ts_alive := ts_alive s - {i}, ts_rc := ts_rc s - 1,
         ts_use := (ts_use s)(u := if ts_rc s = 1 then U_dealloc else No_call)\<rparr>)"

definition task_step :: "tstate \<Rightarrow> tstate \<Rightarrow> bool" where
  "task_step s t \<longleftrightarrow> (\<exists>l. tstep l s t)"

abbreviation task_reach :: "tstate \<Rightarrow> bool" where
  "task_reach \<equiv> reach (\<lambda>s. s = ts_new) task_step"

section \<open>The invariant\<close>

text \<open>
  At any time at most one party is responsible for getting the task polled: a queue entry, a call
  of \<open>wake\<close> that is about to push it, or the thread that polls it.  \<open>O_idle\<close> is a task that
  waits for a wake-up, \<open>O_done\<close> one whose future is gone.
\<close>

datatype owner = O_idle | O_queue | O_call nat | O_poll nat | O_done

lemmas status_bits = MUTED_def NOTIFIED_def DROPPED_def

fun poll_status_ok :: "poll_pc \<Rightarrow> u8 \<Rightarrow> bool" where
  "poll_status_ok Not_polling st = False"
| "poll_status_ok P_clear st = (st = 3)"
| "poll_status_ok P_run st = (st = 1 \<or> st = 3)"
| "poll_status_ok (P_cas prev) st = ((st = 1 \<or> st = 3) \<and> (prev = 1 \<or> prev = 3))"
| "poll_status_ok P_or_dropped st = (st = 1 \<or> st = 3)"
| "poll_status_ok P_drop_future st = (st = 5 \<or> st = 7)"
| "poll_status_ok P_rc_dec st = (st = 5 \<or> st = 7)"
| "poll_status_ok P_dealloc st = (st = 5 \<or> st = 7)"
| "poll_status_ok G_or st = (st = 3)"
| "poll_status_ok G_drop_future st = (st = 7)"

fun owner_status_ok :: "tstate \<Rightarrow> owner \<Rightarrow> bool" where
  "owner_status_ok s O_idle = (ts_status s = 0)"
| "owner_status_ok s O_queue = (ts_status s = 3)"
| "owner_status_ok s (O_call u) = (ts_status s = 3)"
| "owner_status_ok s (O_poll w) = poll_status_ok (ts_poll s w) (ts_status s)"
| "owner_status_ok s O_done = (ts_status s = 5 \<or> ts_status s = 7)"

text \<open>Whether the future has been dropped, and whether the runtime's reference is released.\<close>

fun owner_dropped :: "tstate \<Rightarrow> owner \<Rightarrow> bool" where
  "owner_dropped s (O_poll w) = (ts_poll s w = P_rc_dec \<or> ts_poll s w = P_dealloc)"
| "owner_dropped s O_done = True"
| "owner_dropped s _ = False"

fun owner_released :: "tstate \<Rightarrow> owner \<Rightarrow> bool" where
  "owner_released s (O_poll w) = (ts_poll s w = P_dealloc)"
| "owner_released s O_done = True"
| "owner_released s _ = False"

definition own_inv :: "tstate \<Rightarrow> owner \<Rightarrow> bool" where
  "own_inv s ow \<longleftrightarrow>
     ts_queued s = (if ow = O_queue then 1 else 0) \<and>
     (\<forall>w. ts_poll s w \<noteq> Not_polling \<longleftrightarrow> ow = O_poll w) \<and>
     (\<forall>u. (\<exists>h. ts_use s u = U_push h) \<longleftrightarrow> ow = O_call u) \<and>
     owner_status_ok s ow \<and>
     ts_drops s = (if owner_dropped s ow then 1 else 0)"

definition ref_inv :: "tstate \<Rightarrow> owner \<Rightarrow> bool" where
  "ref_inv s ow \<longleftrightarrow>
     finite (ts_alive s) \<and>
     card (ts_alive s) \<le> max_wakers \<and>
     unat (ts_rc s) = card (ts_alive s) + (if owner_released s ow then 0 else 1) \<and>
     (\<forall>u i. ts_use s u = U_or (Hd i) \<or> ts_use s u = U_push (Hd i) \<longrightarrow> i \<in> ts_alive s) \<and>
     (\<forall>u. ts_use s u = U_or Cx \<longrightarrow> (\<exists>w. ts_poll s w = P_run)) \<and>
     (\<forall>u. ts_use s u \<noteq> U_push Cx)"

definition free_inv :: "tstate \<Rightarrow> owner \<Rightarrow> bool" where
  "free_inv s ow \<longleftrightarrow>
     \<not> ts_bad s \<and>
     (ts_rc s \<noteq> 0 \<longrightarrow>
        \<not> ts_freed s \<and> (\<forall>w. ts_poll s w \<noteq> P_dealloc) \<and> (\<forall>u. ts_use s u \<noteq> U_dealloc)) \<and>
     (ts_freed s \<longrightarrow> (\<forall>w. ts_poll s w \<noteq> P_dealloc) \<and> (\<forall>u. ts_use s u = No_call)) \<and>
     (\<forall>w u. ts_use s u \<noteq> No_call \<longrightarrow> ts_poll s w \<noteq> P_dealloc) \<and>
     (\<forall>u v. ts_use s u = U_dealloc \<longrightarrow> ts_use s v = No_call \<or> v = u) \<and>
     (ts_rc s = 0 \<longrightarrow> ts_freed s \<or> (\<exists>w. ts_poll s w = P_dealloc) \<or> (\<exists>u. ts_use s u = U_dealloc))"

definition unseen_inv :: "tstate \<Rightarrow> owner \<Rightarrow> bool" where
  "unseen_inv s ow \<longleftrightarrow> (ts_unseen s \<longrightarrow> ts_status s AND (NOTIFIED OR DROPPED) \<noteq> 0)"

lemmas task_inv_defs = own_inv_def ref_inv_def free_inv_def unseen_inv_def

definition task_inv :: "tstate \<Rightarrow> bool" where
  "task_inv s \<longleftrightarrow> (\<exists>ow. own_inv s ow \<and> ref_inv s ow \<and> free_inv s ow \<and> unseen_inv s ow)"

lemma task_invI:
  "own_inv s ow \<Longrightarrow> ref_inv s ow \<Longrightarrow> free_inv s ow \<Longrightarrow> unseen_inv s ow \<Longrightarrow> task_inv s"
  by (auto simp: task_inv_def)

lemma few_wakers [simp]: "k \<le> 8 \<Longrightarrow> k < max_wakers"
  by (simp add: max_wakers_def)

lemma rc_add: "unat (x :: usize) \<le> max_wakers + 1 \<Longrightarrow> unat (x + 1) = Suc (unat x) \<and> x + 1 \<noteq> 0"
  by (simp add: max_wakers_def unat_word_ariths word_gt_0 word_unat_eq_iff)

lemma rc_sub: "(x :: usize) \<noteq> 0 \<Longrightarrow> unat (x - 1) = unat x - 1"
  by (simp add: unat_minus_one)

lemma rc_one: "unat (x :: usize) = Suc 0 \<longleftrightarrow> x = 1"
  by (metis One_nat_def unat_1 word_unat_eq_iff)

lemma task_inv_new: "task_inv ts_new"
  by (rule task_invI [where ow = O_queue])
    (simp_all add: task_inv_defs ts_new_def status_bits)

lemma ref_rc_pos: "ref_inv s ow \<Longrightarrow> \<not> owner_released s ow \<or> ts_alive s \<noteq> {} \<Longrightarrow> ts_rc s \<noteq> 0"
  by (auto simp: ref_inv_def)

lemma queue_not_freed: "own_inv s ow \<Longrightarrow> ref_inv s ow \<Longrightarrow> free_inv s ow \<Longrightarrow>
   \<not> owner_released s ow \<Longrightarrow> \<not> ts_freed s \<and> ts_rc s \<noteq> 0"
  using ref_rc_pos[of s ow] by (auto simp: free_inv_def)

lemma pop_inv:
  assumes "own_inv s ow" "ref_inv s ow" "free_inv s ow" "unseen_inv s ow"
    and "0 < ts_queued s" "ts_poll s w = Not_polling" "pc = P_clear \<or> pc = G_or"
  shows "task_inv ((touch s)\<lparr>ts_queued := ts_queued s - 1, ts_poll := (ts_poll s)(w := pc)\<rparr>)"
proof -
  have ow: "ow = O_queue" using assms by (auto simp: own_inv_def split: if_splits)
  with assms have nf: "\<not> ts_freed s" by (auto dest: queue_not_freed)
  show ?thesis
    by (rule task_invI [where ow = "O_poll w"]; insert assms ow nf)
      (auto simp: task_inv_defs touch_def status_bits)
qed


lemma poll_owner: "own_inv s ow \<Longrightarrow> ts_poll s w \<noteq> Not_polling \<Longrightarrow> ow = O_poll w"
  by (auto simp: own_inv_def)

lemma poll_not_freed:
  assumes "own_inv s ow" "ref_inv s ow" "free_inv s ow" "ts_poll s w \<noteq> Not_polling"
  shows "\<not> ts_freed s"
proof (cases "ts_poll s w = P_dealloc")
  case True
  with assms(3) show ?thesis by (auto simp: free_inv_def)
next
  case False
  with poll_owner[OF assms(1,4)] have "\<not> owner_released s ow" by simp
  with assms show ?thesis using queue_not_freed by blast
qed

lemma touch_id: "\<not> ts_freed s \<Longrightarrow> touch s = s"
  by (simp add: touch_def)

lemma no_cx_call:
  assumes "own_inv s ow" "ref_inv s ow" "ts_poll s w \<noteq> Not_polling" "ts_poll s w \<noteq> P_run"
  shows "ts_use s u \<noteq> U_or Cx"
proof
  assume "ts_use s u = U_or Cx"
  with assms(2) obtain v where v: "ts_poll s v = P_run" by (auto simp: ref_inv_def)
  with assms poll_owner[of s ow v] poll_owner[of s ow w] show False by auto
qed

text \<open>
  A step by which the polling thread \<open>w\<close> moves on inside \<open>poll\<close>, changing the status, the
  future and the ghosts only.
\<close>

lemma poll_move:
  assumes inv: "own_inv s ow" "ref_inv s ow" "free_inv s ow"
    and pc: "ts_poll s w \<noteq> Not_polling" "ts_poll s w \<noteq> P_run" "ts_poll s w \<noteq> P_dealloc"
    and t: "ts_poll t = (ts_poll s)(w := pc')" "ts_queued t = ts_queued s" "ts_rc t = ts_rc s"
      "ts_alive t = ts_alive s" "ts_use t = ts_use s" "ts_freed t = ts_freed s" "\<not> ts_bad t"
    and pc': "pc' \<noteq> Not_polling" "pc' \<noteq> P_dealloc" "poll_status_ok pc' (ts_status t)"
      "ts_drops t = (if pc' = P_rc_dec then 1 else 0)" "unseen_inv t (O_poll w)"
  shows "task_inv t"
proof (rule task_invI [where ow = "O_poll w"])
  note ow = poll_owner[OF inv(1) pc(1)]
  show "own_inv t (O_poll w)" using inv(1) ow t pc' by (auto simp: own_inv_def)
  show "ref_inv t (O_poll w)" using inv(2) ow t pc pc' no_cx_call[OF inv(1,2) pc(1,2)]
    by (auto simp: ref_inv_def)
  show "free_inv t (O_poll w)" using inv ow t pc pc' queue_not_freed[OF inv]
    by (auto simp: free_inv_def)
  show "unseen_inv t (O_poll w)" by (rule pc')
qed

lemma poll_cas_done_inv:
  assumes inv: "own_inv s ow" "ref_inv s ow" "free_inv s ow" "unseen_inv s ow"
    and pc: "ts_poll s w = P_cas prev" "ts_status s = MUTED"
  shows "task_inv (s\<lparr>ts_status := 0, ts_poll := (ts_poll s)(w := Not_polling)\<rparr>)" (is "task_inv ?t")
proof (rule task_invI [where ow = O_idle])
  have ow: "ow = O_poll w" using poll_owner[OF inv(1)] pc by simp
  have nocx: "ts_use s u \<noteq> U_or Cx" for u by (rule no_cx_call[OF inv(1,2), of w]) (use pc in simp_all)
  show "own_inv ?t O_idle" using inv(1) ow pc by (auto simp: own_inv_def)
  show "ref_inv ?t O_idle" using inv(2) ow pc nocx by (auto simp: ref_inv_def)
  show "free_inv ?t O_idle" using inv ow pc queue_not_freed[OF inv(1-3)] by (auto simp: free_inv_def)
  show "unseen_inv ?t O_idle" using inv(4) pc by (auto simp: unseen_inv_def status_bits)
qed

lemma poll_rc_dec_inv:
  assumes inv: "own_inv s ow" "ref_inv s ow" "free_inv s ow" "unseen_inv s ow"
    and pc: "ts_poll s w = P_rc_dec"
  shows "task_inv (s\<lparr>ts_rc := ts_rc s - 1,
    ts_poll := (ts_poll s)(w := if ts_rc s = 1 then P_dealloc else Not_polling)\<rparr>)" (is "task_inv ?t")
proof (rule task_invI [where ow = "if ts_rc s = 1 then O_poll w else O_done"])
  let ?ow = "if ts_rc s = 1 then O_poll w else O_done"
  have ow: "ow = O_poll w" using poll_owner[OF inv(1)] pc by simp
  have nocx: "ts_use s u \<noteq> U_or Cx" for u by (rule no_cx_call[OF inv(1,2), of w]) (use pc in simp_all)
  have nf: "\<not> ts_freed s \<and> ts_rc s \<noteq> 0" using queue_not_freed[OF inv(1-3)] ow pc by simp
  have last: "ts_use s u = No_call" if "ts_rc s = 1" for u
  proof (cases "ts_use s u")
    case (U_or h)
    with that inv ow pc nocx show ?thesis by (cases h) (auto simp: ref_inv_def)
  next
    case (U_push h)
    with inv ow show ?thesis by (auto simp: own_inv_def)
  qed (use that inv in \<open>auto simp: free_inv_def\<close>)
  show "own_inv ?t ?ow" using inv(1) ow pc by (auto simp: own_inv_def)
  show "ref_inv ?t ?ow" using inv(2) ow pc nocx rc_sub[OF nf[THEN conjunct2]] by (auto simp: ref_inv_def)
  show "free_inv ?t ?ow" using inv ow pc nf last by (auto simp: free_inv_def)
  show "unseen_inv ?t ?ow" using inv(4) by (auto simp: unseen_inv_def)
qed

lemma poll_dealloc_inv:
  assumes inv: "own_inv s ow" "ref_inv s ow" "free_inv s ow" "unseen_inv s ow"
    and pc: "ts_poll s w = P_dealloc"
  shows "task_inv (s\<lparr>ts_freed := True, ts_poll := (ts_poll s)(w := Not_polling)\<rparr>)" (is "task_inv ?t")
proof (rule task_invI [where ow = O_done])
  have ow: "ow = O_poll w" using poll_owner[OF inv(1)] pc by simp
  have rc: "ts_rc s = 0" and idle: "ts_use s u = No_call" for u
    using inv(3) pc unfolding free_inv_def by blast+
  show "own_inv ?t O_done" using inv(1) ow pc by (auto simp: own_inv_def)
  show "ref_inv ?t O_done" using inv(2) ow pc idle by (auto simp: ref_inv_def)
  have other: "v \<noteq> w \<Longrightarrow> ts_poll s v = Not_polling" for v using inv(1) ow by (auto simp: own_inv_def)
  show "free_inv ?t O_done" using inv(3) rc idle other by (auto simp: free_inv_def)
  show "unseen_inv ?t O_done" using inv(4) by (simp add: unseen_inv_def)
qed

lemma poll_step_inv:
  assumes inv: "own_inv s ow" "ref_inv s ow" "free_inv s ow" "unseen_inv s ow"
    and step: "poll_step w weak s = Some t"
  shows "task_inv t"
proof -
  have np: "ts_poll s w \<noteq> Not_polling" and nr: "ts_poll s w \<noteq> P_run"
    using step by (auto simp: poll_step_def Let_def touch_def)
  note ow = poll_owner[OF inv(1) np]
  note unfold = poll_step_def Let_def touch_id[OF poll_not_freed[OF inv(1-3) np]]
  note move = poll_move[OF inv(1-3) np nr]
  have st: "poll_status_ok (ts_poll s w) (ts_status s)"
    and drops: "ts_drops s = (if owner_dropped s (O_poll w) then 1 else 0)" and nb: "\<not> ts_bad s"
    using inv(1,3) ow by (auto simp: own_inv_def) (simp add: free_inv_def)
  have un: "unseen_inv s (O_poll w)" using inv(4) by (simp add: unseen_inv_def)
  note facts = st drops nb
  show ?thesis
  proof (cases "ts_poll s w")
    case P_clear
    with step have t: "t = s\<lparr>ts_status := ts_status s AND NOT NOTIFIED, ts_unseen := False,
        ts_bad := ts_bad s \<or> 0 < ts_drops s, ts_poll := (ts_poll s)(w := P_run)\<rparr>"
      by (simp add: unfold)
    show ?thesis
      by (rule move [where pc' = P_run]) (use P_clear facts in \<open>simp_all add: t status_bits unseen_inv_def\<close>)
  next
    case (P_cas prev)
    consider "ts_status s = prev" "\<not> weak" "prev = MUTED" | "ts_status s = prev" "\<not> weak" "prev \<noteq> MUTED"
      | "\<not> (ts_status s = prev \<and> \<not> weak)" by blast
    then show ?thesis
    proof cases
      case 1
      with P_cas step poll_cas_done_inv[OF inv P_cas] show ?thesis by (simp add: unfold)
    next
      case 2
      with P_cas step have t: "t = s\<lparr>ts_status := MUTED, ts_unseen := False,
          ts_bad := ts_bad s \<or> 0 < ts_drops s, ts_poll := (ts_poll s)(w := P_run)\<rparr>"
        by (simp add: unfold)
      show ?thesis
        by (rule move [where pc' = P_run]) (use P_cas facts in \<open>simp_all add: t status_bits unseen_inv_def\<close>)
    next
      case 3
      with P_cas step have t: "t = s\<lparr>ts_poll := (ts_poll s)(w := P_cas (ts_status s))\<rparr>"
        by (auto simp: unfold split: if_splits)
      show ?thesis
        by (rule move [where pc' = "P_cas (ts_status s)"])
          (use P_cas facts un in \<open>simp_all add: t unseen_inv_def\<close>)
    qed
  next
    case P_or_dropped
    with step have t: "t = s\<lparr>ts_status := ts_status s OR DROPPED, ts_poll := (ts_poll s)(w := P_drop_future)\<rparr>"
      by (simp add: unfold)
    show ?thesis
      by (rule move [where pc' = P_drop_future])
        (use P_or_dropped facts in \<open>auto simp: t status_bits unseen_inv_def\<close>)
  next
    case P_drop_future
    with step have t: "t = s\<lparr>ts_drops := Suc (ts_drops s), ts_bad := ts_bad s \<or> 0 < ts_drops s,
        ts_poll := (ts_poll s)(w := P_rc_dec)\<rparr>"
      by (simp add: unfold)
    show ?thesis
      by (rule move [where pc' = P_rc_dec]) (use P_drop_future facts un in \<open>simp_all add: t unseen_inv_def\<close>)
  next
    case P_rc_dec
    with step poll_rc_dec_inv[OF inv P_rc_dec] show ?thesis by (simp add: unfold)
  next
    case P_dealloc
    with step poll_dealloc_inv[OF inv P_dealloc] show ?thesis by (simp add: unfold)
  next
    case G_or
    with step st have t: "t = s\<lparr>ts_status := ts_status s OR DROPPED, ts_poll := (ts_poll s)(w := G_drop_future)\<rparr>"
      by (simp add: unfold status_bits)
    show ?thesis
      by (rule move [where pc' = G_drop_future])
        (use G_or facts in \<open>simp_all add: t status_bits unseen_inv_def\<close>)
  next
    case G_drop_future
    with step have t: "t = s\<lparr>ts_drops := Suc (ts_drops s), ts_bad := ts_bad s \<or> 0 < ts_drops s,
        ts_poll := (ts_poll s)(w := P_rc_dec)\<rparr>"
      by (simp add: unfold)
    show ?thesis
      by (rule move [where pc' = P_rc_dec]) (use G_drop_future facts un in \<open>simp_all add: t unseen_inv_def\<close>)
  qed (use np nr in simp_all)
qed


lemma return_inv:
  assumes inv: "own_inv s ow" "ref_inv s ow" "free_inv s ow" "unseen_inv s ow"
    and pc: "ts_poll s w = P_run" "calls_through s Cx = {}"
  shows "task_inv (s\<lparr>ts_poll := (ts_poll s)(w := if ready then P_or_dropped else P_cas MUTED)\<rparr>)"
    (is "task_inv ?t")
proof (rule task_invI [where ow = "O_poll w"])
  have ow: "ow = O_poll w" using poll_owner[OF inv(1)] pc by simp
  have nocx: "ts_use s u \<noteq> U_or Cx" for u using pc(2) by (auto simp: calls_through_def)
  show "own_inv ?t (O_poll w)" using inv(1) ow pc by (auto simp: own_inv_def status_bits)
  show "ref_inv ?t (O_poll w)" using inv(2) ow pc nocx by (auto simp: ref_inv_def)
  have "ts_rc s \<noteq> 0" using ref_rc_pos[OF inv(2)] ow pc by simp
  then show "free_inv ?t (O_poll w)" using inv(3) by (auto simp: free_inv_def)
  show "unseen_inv ?t (O_poll w)" using inv(4) by (simp add: unseen_inv_def)
qed

lemma handle_ok_rc:
  assumes "own_inv s ow" "ref_inv s ow" "free_inv s ow" "handle_ok s h w"
  shows "ts_rc s \<noteq> 0 \<and> \<not> ts_freed s"
proof -
  have "ts_rc s \<noteq> 0"
  proof (cases h)
    case Cx
    with assms(4) poll_owner[OF assms(1), of w] have "\<not> owner_released s ow" by (auto simp: handle_ok_def)
    then show ?thesis using ref_rc_pos[OF assms(2)] by blast
  next
    case (Hd i)
    with assms(4) show ?thesis using ref_rc_pos[OF assms(2)] by (auto simp: handle_ok_def)
  qed
  with assms(3) show ?thesis by (simp add: free_inv_def)
qed

lemma clone_inv:
  assumes inv: "own_inv s ow" "ref_inv s ow" "free_inv s ow" "unseen_inv s ow"
    and h: "handle_ok s h w" "i \<notin> ts_alive s" "card (ts_alive s) < max_wakers"
  shows "task_inv ((touch s)\<lparr>ts_rc := ts_rc s + 1, ts_alive := insert i (ts_alive s)\<rparr>)"
proof -
  note rc = handle_ok_rc[OF inv(1-3) h(1)]
  have "unat (ts_rc s) \<le> max_wakers + 1" using inv(2) h(3) by (auto simp: ref_inv_def)
  note add = rc_add[OF this]
  show ?thesis unfolding touch_id[OF rc[THEN conjunct2]]
  proof (rule task_invI [where ow = ow], goal_cases)
    case 1 show ?case using inv(1) by (cases ow) (auto simp: own_inv_def)
  next
    case 2
    have fin: "finite (ts_alive s)" using inv(2) by (simp add: ref_inv_def)
    have "card (insert i (ts_alive s)) = Suc (card (ts_alive s))" using fin h(2) by simp
    moreover have "owner_released (s\<lparr>ts_rc := ts_rc s + 1, ts_alive := insert i (ts_alive s)\<rparr>) ow \<longleftrightarrow> owner_released s ow"
      by (cases ow) auto
    ultimately show ?case using inv(2) h(3) add fin unfolding ref_inv_def by (auto simp del: card_insert_disjoint)
  next
    case 3
    show ?case using inv(3) rc add by (auto simp: free_inv_def)
  next
    case 4 show ?case using inv(4) by (simp add: unseen_inv_def)
  qed
qed

lemma call_inv:
  assumes inv: "own_inv s ow" "ref_inv s ow" "free_inv s ow" "unseen_inv s ow"
    and h: "handle_ok s h w" "ts_use s u = No_call"
  shows "task_inv (s\<lparr>ts_use := (ts_use s)(u := U_or h)\<rparr>)"
proof (rule task_invI [where ow = ow], goal_cases)
  have "ow \<noteq> O_call u" using inv(1) h(2) unfolding own_inv_def by force
  then show "own_inv (s\<lparr>ts_use := (ts_use s)(u := U_or h)\<rparr>) ow"
    using inv(1) h(2) by (cases ow) (auto simp: own_inv_def)
next
  case 2 show ?case using inv(2) h by (cases ow) (auto simp: ref_inv_def handle_ok_def split: handle.splits)
next
  case 3 show ?case using inv(3) handle_ok_rc[OF inv(1-3) h(1)] by (auto simp: free_inv_def)
next
  case 4 show ?case using inv(4) by (simp add: unseen_inv_def)
qed

lemma use_rc:
  assumes inv: "own_inv s ow" "ref_inv s ow" "free_inv s ow"
    and u: "ts_use s u = U_or h \<or> ts_use s u = U_push h"
  shows "ts_rc s \<noteq> 0 \<and> \<not> ts_freed s"
proof -
  have "\<exists>w. handle_ok s h w"
    using inv(2) u by (cases h) (auto simp: ref_inv_def handle_ok_def)
  then show ?thesis using handle_ok_rc[OF inv] by blast
qed

text \<open>The status word only ever takes six values; \<open>wake\<close> sets the two low bits.\<close>

lemma owner_status_range:
  "own_inv s ow \<Longrightarrow> ts_status s = 0 \<and> ow = O_idle \<or> ow \<noteq> O_idle \<and> ts_status s \<in> {1, 3, 5, 7}"
  by (cases ow) (auto simp: own_inv_def elim: poll_status_ok.elims)

lemma poll_status_ok_wake:
  "poll_status_ok pc st \<Longrightarrow> poll_status_ok pc (st OR 3)"
  by (cases pc) auto

lemma wake_muted_inv:
  assumes inv: "own_inv s ow" "ref_inv s ow" "free_inv s ow" "unseen_inv s ow"
    and u: "ts_use s u = U_or h" "ow \<noteq> O_idle"
  shows "task_inv (s\<lparr>ts_status := ts_status s OR 3, ts_unseen := True,
    ts_use := (ts_use s)(u := No_call)\<rparr>)" (is "task_inv ?t")
proof (rule task_invI [where ow = ow])
  have "ow \<noteq> O_call u" using inv(1) u(1) unfolding own_inv_def by force
  then show "own_inv ?t ow"
    using inv(1) u by (cases ow) (auto simp: own_inv_def intro: poll_status_ok_wake)
  show "ref_inv ?t ow" using inv(2) by (cases ow) (auto simp: ref_inv_def)
  show "free_inv ?t ow" using inv(3) use_rc[OF inv(1-3), of u h] u by (auto simp: free_inv_def)
  show "unseen_inv ?t ow"
    using owner_status_range[OF inv(1)] u(2) by (auto simp: unseen_inv_def status_bits)
qed

lemma wake_idle_inv:
  assumes inv: "own_inv s ow" "ref_inv s ow" "free_inv s ow" "unseen_inv s ow"
    and u: "ts_use s u = U_or h" "ow = O_idle"
  shows "task_inv (s\<lparr>ts_status := 3, ts_unseen := True, ts_use := (ts_use s)(u := U_push h)\<rparr>)"
    (is "task_inv ?t")
proof (rule task_invI [where ow = "O_call u"])
  have "\<forall>w. ts_poll s w = Not_polling" using inv(1) u(2) by (auto simp: own_inv_def)
  then have "h \<noteq> Cx" using inv(2) u(1) by (auto simp: ref_inv_def)
  then show "ref_inv ?t (O_call u)" using inv(2) u by (cases h) (auto simp: ref_inv_def)
  show "own_inv ?t (O_call u)" using inv(1) u by (auto simp: own_inv_def)
  show "free_inv ?t (O_call u)" using inv(3) use_rc[OF inv(1-3), of u h] u by (auto simp: free_inv_def)
  show "unseen_inv ?t (O_call u)" by (simp add: unseen_inv_def status_bits)
qed

lemma push_inv:
  assumes inv: "own_inv s ow" "ref_inv s ow" "free_inv s ow" "unseen_inv s ow"
    and u: "ts_use s u = U_push h"
  shows "task_inv (s\<lparr>ts_queued := Suc (ts_queued s), ts_use := (ts_use s)(u := No_call)\<rparr>)"
    (is "task_inv ?t")
proof (rule task_invI [where ow = O_queue])
  have ow: "ow = O_call u" using inv(1) u unfolding own_inv_def by metis
  have only: "ts_use s v \<noteq> U_push k" if "v \<noteq> u" for v k using inv(1) ow that by (auto simp: own_inv_def)
  show "own_inv ?t O_queue" using inv(1) ow only by (auto simp: own_inv_def)
  show "ref_inv ?t O_queue" using inv(2) ow by (auto simp: ref_inv_def)
  show "free_inv ?t O_queue" using inv(3) use_rc[OF inv(1-3), of u h] u by (auto simp: free_inv_def)
  show "unseen_inv ?t O_queue" using inv(4) by (simp add: unseen_inv_def)
qed

lemma released_done:
  assumes inv: "own_inv s ow" "ref_inv s ow" "free_inv s ow"
    and "unat (ts_rc s) = card (ts_alive s)" "ts_use s u = U_dealloc \<or> ts_rc s \<noteq> 0"
  shows "ow = O_done"
proof -
  have "owner_released s ow" using inv(2) assms(4) by (simp add: ref_inv_def split: if_splits)
  with assms(3,5) show ?thesis by (cases ow) (auto simp: free_inv_def)
qed

lemma use_dealloc_inv:
  assumes inv: "own_inv s ow" "ref_inv s ow" "free_inv s ow" "unseen_inv s ow"
    and u: "ts_use s u = U_dealloc"
  shows "\<not> ts_freed s" "task_inv (s\<lparr>ts_freed := True, ts_use := (ts_use s)(u := No_call)\<rparr>)"
proof -
  have rc: "ts_rc s = 0" and nf: "\<not> ts_freed s" and nd: "ts_poll s w \<noteq> P_dealloc" for w
    using inv(3) u unfolding free_inv_def by auto
  have others: "v \<noteq> u \<Longrightarrow> ts_use s v = No_call" for v using inv(3) u unfolding free_inv_def by blast
  have "ow = O_done" using released_done[OF inv(1-3) _ disjI1[OF u]] rc inv(2) by (simp add: ref_inv_def)
  then show "task_inv (s\<lparr>ts_freed := True, ts_use := (ts_use s)(u := No_call)\<rparr>)"
    by (intro task_invI [where ow = O_done]; insert inv rc nd others)
      (auto simp: task_inv_defs)
  show "\<not> ts_freed s" by (rule nf)
qed

lemma use_step_inv:
  assumes inv: "own_inv s ow" "ref_inv s ow" "free_inv s ow" "unseen_inv s ow"
    and step: "use_step u s = Some t"
  shows "task_inv t"
proof (cases "ts_use s u")
  case (U_or h)
  note touch = touch_id[OF use_rc[OF inv(1-3), of u h, THEN conjunct2]]
  show ?thesis
  proof (cases "ow = O_idle")
    case True
    with inv(1) have "ts_status s = 0" by (simp add: own_inv_def)
    with True step U_or wake_idle_inv[OF inv U_or] show ?thesis
      by (simp add: use_step_def Let_def touch status_bits)
  next
    case False
    with owner_status_range[OF inv(1)] have "ts_status s AND 5 \<noteq> 0" by auto
    with False step U_or wake_muted_inv[OF inv U_or] show ?thesis
      by (simp add: use_step_def Let_def touch status_bits)
  qed
next
  case (U_push h)
  note touch = touch_id[OF use_rc[OF inv(1-3), of u h, THEN conjunct2]]
  from U_push step push_inv[OF inv U_push] show ?thesis
    by (simp add: use_step_def Let_def touch)
next
  case U_dealloc
  note use_dealloc_inv[OF inv U_dealloc]
  with U_dealloc step show ?thesis by (simp add: use_step_def Let_def touch_id)
qed (use step in \<open>simp add: use_step_def Let_def touch_def\<close>)

lemma drop_inv:
  assumes inv: "own_inv s ow" "ref_inv s ow" "free_inv s ow" "unseen_inv s ow"
    and i: "i \<in> ts_alive s" "calls_through s (Hd i) = {}" "ts_use s u = No_call"
  shows "task_inv ((touch s)\<lparr>ts_alive := ts_alive s - {i}, ts_rc := ts_rc s - 1,
         ts_use := (ts_use s)(u := if ts_rc s = 1 then U_dealloc else No_call)\<rparr>)"
proof -
  have fin: "finite (ts_alive s)" using inv(2) by (simp add: ref_inv_def)
  have rc: "ts_rc s \<noteq> 0 \<and> \<not> ts_freed s"
    using handle_ok_rc[OF inv(1-3), of "Hd i" 0] i(1) by (simp add: handle_ok_def)
  have card: "Suc (card (ts_alive s - {i})) = card (ts_alive s)"
    using card_Suc_Diff1[OF fin i(1)] .
  have ncall: "ow \<noteq> O_call u" using inv(1) i(3) unfolding own_inv_def by force
  have nouse: "ts_use s v \<noteq> U_or (Hd i)" "ts_use s v \<noteq> U_push (Hd i)" for v
    using i(2) by (auto simp: calls_through_def)
  have odone: "ow = O_done" if "ts_rc s = 1"
    using released_done[OF inv(1-3)] that inv(2) card by (simp add: ref_inv_def split: if_splits)
  show ?thesis unfolding touch_id[OF rc[THEN conjunct2]]
  proof (rule task_invI [where ow = ow], goal_cases)
    case 1 show ?case using inv(1) ncall i(3) by (cases ow) (auto simp: own_inv_def)
  next
    case 2 show ?case using inv(2) nouse card i(3) rc_sub[OF rc[THEN conjunct1]] by (cases ow) (auto simp: ref_inv_def)
  next
    case 3
    have "ts_use s v = No_call" if "ts_rc s = 1" for v
    proof (cases "ts_use s v")
      case (U_or h)
      have "\<forall>w. ts_poll s w = Not_polling" using inv(1) odone[OF that] by (auto simp: own_inv_def)
      moreover have "card (ts_alive s) = 1" using inv(2) odone[OF that] that by (simp add: ref_inv_def)
      then have "ts_alive s = {i}" using i(1) by (metis card_1_singletonE singletonD)
      ultimately show ?thesis using inv(2) U_or nouse(1)[of v] by (cases h) (auto simp: ref_inv_def)
    next
      case (U_push h)
      with inv(1) odone[OF that] show ?thesis by (auto simp: own_inv_def)
    qed (use inv(3) that in \<open>auto simp: free_inv_def\<close>)
    then show ?case using inv(3) rc by (auto simp: free_inv_def)
  next
    case 4 show ?case using inv(4) by (simp add: unseen_inv_def)
  qed
qed


lemma task_step_inv: "task_inv s \<Longrightarrow> task_step s t \<Longrightarrow> task_inv t"
proof -
  assume "task_inv s" and "task_step s t"
  then obtain ow l where inv: "own_inv s ow" "ref_inv s ow" "free_inv s ow" "unseen_inv s ow"
    and "tstep l s t" by (auto simp: task_inv_def task_step_def)
  from \<open>tstep l s t\<close> show "task_inv t"
  proof cases
    case (pop w) then show ?thesis using pop_inv[OF inv] by simp
  next
    case (guard_pop w) then show ?thesis using pop_inv[OF inv] by simp
  next
    case (poll w weak) then show ?thesis using poll_step_inv[OF inv] by simp
  next
    case (return w ready) then show ?thesis using return_inv[OF inv] by simp
  next
    case (clone h w i) then show ?thesis using clone_inv[OF inv] by simp
  next
    case (call h w u) then show ?thesis using call_inv[OF inv] by simp
  next
    case (wake u) then show ?thesis using use_step_inv[OF inv] by simp
  next
    case (drop i u) then show ?thesis using drop_inv[OF inv] by simp
  qed
qed

interpretation tp: inductive_invariant "\<lambda>s. s = ts_new" task_step task_inv
  by unfold_locales (auto simp: task_inv_new intro: task_step_inv)

lemma task_reach_owner:
  assumes "task_reach s"
  obtains ow where "own_inv s ow" "ref_inv s ow" "free_inv s ow" "unseen_inv s ow"
  using tp.reach_inv[OF assms] by (auto simp: task_inv_def)

section \<open>Properties\<close>

text \<open>
  C1: exclusive scheduling.  In every reachable state the task is in at most one queue, at most one
  thread polls (or drops) it, at most one call of \<open>wake\<close> is about to push it, and these three
  exclude each other.
\<close>

theorem task_exclusive:
  assumes "task_reach s"
  shows "ts_queued s \<le> 1 \<and>
    (\<forall>w v. ts_poll s w \<noteq> Not_polling \<and> ts_poll s v \<noteq> Not_polling \<longrightarrow> w = v) \<and>
    (\<forall>u v h k. ts_use s u = U_push h \<and> ts_use s v = U_push k \<longrightarrow> u = v) \<and>
    (ts_queued s = 1 \<longrightarrow> (\<forall>w. ts_poll s w = Not_polling) \<and> (\<forall>u h. ts_use s u \<noteq> U_push h)) \<and>
    (\<forall>u h w. ts_use s u = U_push h \<longrightarrow> ts_poll s w = Not_polling)"
proof -
  from assms obtain ow where own: "own_inv s ow" by (rule task_reach_owner)
  have push: "ow = O_call u" if "ts_use s u = U_push h" for u h
    using own that unfolding own_inv_def by blast
  have poll: "ow = O_poll w" if "ts_poll s w \<noteq> Not_polling" for w
    using own that by (rule poll_owner)
  have queue: "ts_queued s = (if ow = O_queue then 1 else 0)" using own by (simp add: own_inv_def)
  show ?thesis using push poll queue
    by (metis le_refl owner.distinct owner.inject zero_le zero_neq_one)
qed


text \<open>
  C13: no lost wake-up.  As long as the future has not been dropped, a \<open>wake\<close> that no poll has
  picked up yet is recorded in the \<open>NOTIFIED\<close> bit, and somebody is responsible for the next poll:
  the task is queued, a call of \<open>wake\<close> is about to queue it, or a thread is inside \<open>poll\<close>.
\<close>

theorem wake_not_lost:
  assumes "task_reach s" and "ts_unseen s" and "ts_status s AND DROPPED = 0"
  shows "ts_status s AND NOTIFIED \<noteq> 0 \<and>
    (ts_queued s = 1 \<or> (\<exists>u h. ts_use s u = U_push h) \<or> (\<exists>w. ts_poll s w \<noteq> Not_polling))"
proof -
  from assms(1) obtain ow where own: "own_inv s ow" and un: "unseen_inv s ow"
    by (rule task_reach_owner)
  from owner_status_range[OF own] assms(2,3) un
  have "ts_status s = 3 \<and> ow \<noteq> O_idle" by (auto simp: unseen_inv_def status_bits)
  moreover from this own have "ow \<noteq> O_done" by (auto simp: own_inv_def)
  ultimately show ?thesis using own by (cases ow) (auto simp: own_inv_def status_bits)
qed

text \<open>
  C3: memory safety.  In every reachable state no thread has touched the task's memory after it was
  freed, the future has been dropped at most once, it was never polled after its drop, and the
  memory was not freed twice.
\<close>

theorem task_memory_safe:
  assumes "task_reach s"
  shows "\<not> ts_bad s \<and> ts_drops s \<le> 1"
proof -
  from assms obtain ow where "own_inv s ow" "free_inv s ow" by (rule task_reach_owner)
  then show ?thesis by (simp add: own_inv_def free_inv_def)
qed

text \<open>
  C37: the reference count.  In every reachable state the word \<open>rc\<close> is, without ever having wrapped around, the number
  of live wakers, plus one for the runtime until \<open>rc_dec\<close> after the future's drop; and the memory is freed if and only
  if \<open>rc\<close> is zero and the thread whose \<open>fetch_sub\<close> returned 1 is no longer about to free it.  Hence, once no
  thread is inside an operation, it is freed if and only if the future is dropped and no waker is left.
\<close>

theorem task_freed_iff:
  assumes "task_reach s"
  shows "unat (ts_rc s) = card (ts_alive s) + (if ts_drops s = 0 \<or> (\<exists>w. ts_poll s w = P_rc_dec) then 1 else 0) \<and>
    (ts_freed s \<longleftrightarrow> ts_rc s = 0 \<and> (\<forall>w. ts_poll s w \<noteq> P_dealloc) \<and> (\<forall>u. ts_use s u \<noteq> U_dealloc)) \<and>
    ((\<forall>w. ts_poll s w = Not_polling) \<and> (\<forall>u. ts_use s u = No_call) \<longrightarrow>
       (ts_freed s \<longleftrightarrow> ts_drops s = 1 \<and> ts_alive s = {}))"
proof -
  from assms obtain ow where inv: "own_inv s ow" "ref_inv s ow" "free_inv s ow"
    by (rule task_reach_owner)
  have drops: "ts_drops s = (if owner_dropped s ow then 1 else 0)" using inv(1) by (simp add: own_inv_def)
  have dec: "(\<exists>w. ts_poll s w = P_rc_dec) \<longleftrightarrow> owner_dropped s ow \<and> \<not> owner_released s ow"
  proof (cases ow)
    case (O_poll v)
    then have "ts_poll s w = P_rc_dec \<Longrightarrow> w = v" for w using poll_owner[OF inv(1), of w] by simp
    then show ?thesis using O_poll by auto
  qed (use inv(1) in \<open>auto simp: own_inv_def\<close>)
  have rel: "owner_released s ow \<longrightarrow> owner_dropped s ow" by (cases ow) auto
  have rc: "unat (ts_rc s) = card (ts_alive s) + (if owner_released s ow then 0 else 1)" and fin: "finite (ts_alive s)"
    using inv(2) by (auto simp: ref_inv_def)
  have freed: "ts_freed s \<longleftrightarrow> ts_rc s = 0 \<and> (\<forall>w. ts_poll s w \<noteq> P_dealloc) \<and> (\<forall>u. ts_use s u \<noteq> U_dealloc)"
    using inv(3) unfolding free_inv_def by (metis use_pc.distinct(5))
  have "ts_freed s \<longleftrightarrow> ts_drops s = 1 \<and> ts_alive s = {}"
    if q: "\<forall>w. ts_poll s w = Not_polling" "\<forall>u. ts_use s u = No_call"
  proof -
    have "ts_freed s \<longleftrightarrow> unat (ts_rc s) = 0" using freed q by (simp add: unat_eq_0)
    moreover have "owner_dropped s ow \<longleftrightarrow> owner_released s ow" using q(1) dec rel by auto
    ultimately show ?thesis using rc drops fin by auto
  qed
  then show ?thesis using freed rc drops dec rel by auto
qed

text \<open>
  The steps of the threads that are responsible for a task that was woken: a \<open>wake\<close> that pushes it, a worker that pops
  it, and a poll that starts, or that finds \<open>NOTIFIED\<close> with a compare-exchange that does not fail spuriously.
\<close>

fun on_duty :: "tstate \<Rightarrow> label \<Rightarrow> bool" where
  "on_duty s (L_use u) = (case ts_use s u of U_push h \<Rightarrow> True | _ \<Rightarrow> False)"
| "on_duty s (L_pop w) = True"
| "on_duty s (L_poll w weak) = (\<not> weak \<and> (case ts_poll s w of P_clear \<Rightarrow> True | P_cas prev \<Rightarrow> True | _ \<Rightarrow> False))"
| "on_duty s _ = False"

definition duty_step :: "tstate \<Rightarrow> tstate \<Rightarrow> bool" where
  "duty_step s t \<longleftrightarrow> (\<exists>l. on_duty s l \<and> tstep l s t)"

text \<open>All steps but those of \<open>WorkerGuard::drop\<close>: the runtime is not torn down.\<close>

definition live_step :: "tstate \<Rightarrow> tstate \<Rightarrow> bool" where
  "live_step s t \<longleftrightarrow> (\<exists>l. (\<forall>w. l \<noteq> L_guard_pop w) \<and> tstep l s t)"

text \<open>A poll is running that started after every wake-up so far.\<close>

definition repolled :: "tstate \<Rightarrow> bool" where
  "repolled s \<longleftrightarrow> \<not> ts_unseen s \<and> (\<exists>w. ts_poll s w = P_run)"

text \<open>A task that was woken and waits for the poll that takes notice.\<close>

definition awaits_poll :: "tstate \<Rightarrow> bool" where
  "awaits_poll s \<longleftrightarrow> task_reach s \<and> ts_unseen s \<and> ts_status s AND DROPPED = 0 \<and>
     (\<forall>w. ts_poll s w \<notin> {P_run, P_or_dropped, G_or})"

definition duty_rank :: "tstate \<Rightarrow> nat" where
  "duty_rank s = (if \<exists>u h. ts_use s u = U_push h then 2
     else if 0 < ts_queued s \<or> (\<exists>w prev. ts_poll s w = P_cas prev \<and> prev \<noteq> 3) then 1 else 0)"

lemma awaits_poll_cases:
  assumes "awaits_poll s"
  obtains (queued) "ts_status s = 3" "ts_queued s = 1" "\<forall>w. ts_poll s w = Not_polling" "\<forall>u h. ts_use s u \<noteq> U_push h"
  | (pushing) u h where "ts_status s = 3" "ts_use s u = U_push h" "ts_queued s = 0" "\<forall>w. ts_poll s w = Not_polling"
      "\<forall>v k. v \<noteq> u \<longrightarrow> ts_use s v \<noteq> U_push k"
  | (polling) w where "ts_status s = 3" "ts_poll s w = P_clear \<or> (\<exists>prev. ts_poll s w = P_cas prev \<and> (prev = 1 \<or> prev = 3))"
      "ts_queued s = 0" "\<forall>v. v \<noteq> w \<longrightarrow> ts_poll s v = Not_polling" "\<forall>u h. ts_use s u \<noteq> U_push h"
proof -
  from assms obtain ow where own: "own_inv s ow" and un: "unseen_inv s ow"
    by (auto simp: awaits_poll_def elim: task_reach_owner)
  from owner_status_range[OF own] assms un
  have st: "ts_status s = 3" by (auto simp: unseen_inv_def awaits_poll_def status_bits)
  show ?thesis
  proof (cases ow)
    case O_queue
    then show ?thesis using own st by (intro queued) (auto simp: own_inv_def)
  next
    case (O_call u)
    with own obtain h where "ts_use s u = U_push h" by (auto simp: own_inv_def)
    then show ?thesis using own st O_call by (intro pushing[of u h]) (auto simp: own_inv_def)
  next
    case (O_poll w)
    then have "poll_status_ok (ts_poll s w) 3" using own st by (simp add: own_inv_def)
    then have "ts_poll s w = P_clear \<or> (\<exists>prev. ts_poll s w = P_cas prev \<and> (prev = 1 \<or> prev = 3))"
      using assms by (cases "ts_poll s w") (auto simp: awaits_poll_def dest: spec[of _ w])
    then show ?thesis using own st O_poll by (intro polling[of w]) (auto simp: own_inv_def)
  qed (use own st in \<open>auto simp: own_inv_def\<close>)
qed

lemma task_reach_tstep: "task_reach s \<Longrightarrow> tstep l s t \<Longrightarrow> task_reach t"
  by (rule reach_step) (auto simp: task_step_def)

text \<open>A step of a thread that has no part in this changes neither the status nor who is responsible.\<close>

lemma awaits_poll_frame:
  assumes "awaits_poll s" "tstep l s t"
    and "ts_status t = ts_status s" "ts_unseen t" "ts_queued t = ts_queued s" "ts_poll t = ts_poll s"
    and "\<And>v h. ts_use t v = U_push h \<longleftrightarrow> ts_use s v = U_push h"
  shows "awaits_poll t \<and> duty_rank t = duty_rank s"
  using assms task_reach_tstep[of s l t] by (simp add: awaits_poll_def duty_rank_def)

lemma clear_step:
  assumes "ts_poll s w = P_clear"
  shows "\<exists>t. poll_step w weak s = Some t \<and> \<not> ts_unseen t \<and> ts_poll t w = P_run"
  using assms by (simp add: poll_step_def Let_def touch_def)

lemma awaits_poll_step:
  assumes s: "awaits_poll s" and step: "tstep l s t" and l: "\<forall>w. l \<noteq> L_guard_pop w" and g: "\<not> repolled t"
  shows "awaits_poll t \<and> duty_rank t + (if on_duty s l then 1 else 0) \<le> duty_rank s"
proof -
  note frame = awaits_poll_frame[OF s step]
  have un: "ts_unseen s" and reach: "task_reach t" using s task_reach_tstep[OF _ step] by (auto simp: awaits_poll_def)
  from step show ?thesis
  proof cases
    case (pop w)
    from s show ?thesis
      by (cases rule: awaits_poll_cases)
        (use pop un reach in \<open>auto simp: awaits_poll_def duty_rank_def touch_def status_bits\<close>)
  next
    case (poll w weak)
    from s show ?thesis
    proof (cases rule: awaits_poll_cases)
      case (polling v)
      then have v: "v = w" using poll by (cases "v = w") (auto simp: poll_step_def Let_def touch_def)
      consider "ts_poll s v = P_clear" | prev where "ts_poll s v = P_cas prev" "prev = 1 \<or> prev = 3" using polling(2) by blast
      then show ?thesis
      proof cases
        case 1
        then have "repolled t" using poll v clear_step[of s w weak] by (auto simp: repolled_def)
        then show ?thesis using g by contradiction
      next
        case pc: (2 prev)
        have "\<not> (prev = 3 \<and> \<not> weak)"
          using g poll(2) pc v polling(1) by (cases weak) (auto simp: poll_step_def Let_def touch_def status_bits repolled_def split: if_splits)
        then have t: "t = (touch s)\<lparr>ts_poll := (ts_poll s)(w := P_cas 3)\<rparr>"
          using poll(2) pc v polling(1) by (cases weak) (auto simp: poll_step_def Let_def touch_def status_bits)
        have "awaits_poll t" using s reach polling v by (auto simp: awaits_poll_def t touch_def)
        moreover have "duty_rank t = 0" using polling v by (auto simp: duty_rank_def t touch_def)
        moreover have "duty_rank s = 1" if "prev = 1"
        proof -
          have "\<exists>w p. ts_poll s w = P_cas p \<and> p \<noteq> 3" using pc(1) that by (intro exI[of _ v] exI[of _ 1]) simp
          then show ?thesis using polling by (auto simp: duty_rank_def)
        qed
        ultimately show ?thesis using \<open>\<not> (prev = 3 \<and> \<not> weak)\<close> pc poll(1) by auto
      qed
    qed (use poll in \<open>auto simp: poll_step_def Let_def touch_def\<close>)
  next
    case (wake u)
    show ?thesis
    proof (cases "ts_use s u")
      case (U_or h)
      have "ts_status s = 3" using s by (rule awaits_poll_cases)
      then have "awaits_poll t \<and> duty_rank t = duty_rank s"
        using wake U_or un by (intro frame) (auto simp: use_step_def touch_def Let_def status_bits split: if_splits)
      then show ?thesis using wake U_or by simp
    next
      case (U_push h)
      from s show ?thesis
      proof (cases rule: awaits_poll_cases)
        case (pushing v k)
        then have v: "v = u" using U_push by metis
        have t: "t = (touch s)\<lparr>ts_queued := 1, ts_use := (ts_use s)(u := No_call)\<rparr>"
          using wake U_push pushing by (simp add: use_step_def Let_def touch_def)
        have "ts_use t x \<noteq> U_push y" for x y using pushing(5) v by (auto simp: t)
        then have "duty_rank t = 1" by (auto simp: duty_rank_def t)
        moreover have "duty_rank s = 2" using U_push by (auto simp: duty_rank_def)
        moreover have "awaits_poll t" using s reach pushing un by (auto simp: awaits_poll_def t touch_def)
        ultimately show ?thesis using wake U_push by simp
      qed (use U_push wake in auto)
    next
      case U_dealloc
      then have "awaits_poll t \<and> duty_rank t = duty_rank s"
        using wake un by (intro frame) (auto simp: use_step_def touch_def Let_def split: if_splits)
      then show ?thesis using wake U_dealloc by simp
    qed (use wake in \<open>simp add: use_step_def Let_def touch_def\<close>)
  next
    case (return w ready)
    then show ?thesis using s by (auto simp: awaits_poll_def)
  next
    case (clone h w i)
    then have "awaits_poll t \<and> duty_rank t = duty_rank s" using un by (intro frame) (auto simp: touch_def split: if_splits)
    then show ?thesis using clone by simp
  next
    case (call h w u)
    then have "awaits_poll t \<and> duty_rank t = duty_rank s" using un by (intro frame) (auto split: if_splits)
    then show ?thesis using call by simp
  next
    case (drop i u)
    then have "awaits_poll t \<and> duty_rank t = duty_rank s" using un by (intro frame) (auto simp: touch_def split: if_splits)
    then show ?thesis using drop by simp
  qed (use l in simp)
qed

lemma duty_step_enabled:
  assumes "awaits_poll s"
  shows "\<exists>t. duty_step s t"
  using assms
proof (cases rule: awaits_poll_cases)
  case queued
  then have "tstep (L_pop 0) s ((touch s)\<lparr>ts_queued := ts_queued s - 1, ts_poll := (ts_poll s)(0 := P_clear)\<rparr>)"
    by (intro tstep.pop) auto
  then show ?thesis unfolding duty_step_def by (metis on_duty.simps(2))
next
  case (pushing u h)
  then obtain t where "use_step u s = Some t" by (simp add: use_step_def Let_def touch_def)
  then have "on_duty s (L_use u) \<and> tstep (L_use u) s t" using pushing by (simp add: tstep.wake)
  then show ?thesis unfolding duty_step_def by blast
next
  case (polling w)
  then have "\<exists>t. poll_step w False s = Some t" by (auto simp: poll_step_def Let_def touch_def)
  then obtain t where "poll_step w False s = Some t" ..
  then have "on_duty s (L_poll w False) \<and> tstep (L_poll w False) s t" using polling by (auto simp: tstep.poll)
  then show ?thesis unfolding duty_step_def by blast
qed

text \<open>
  C4: a woken task is polled again.  Take a reachable state with an unseen wake-up in which the future is neither running
  nor finished nor being dropped, and any execution from there, in which every thread may move in any order but the
  runtime is not torn down.  As long as no poll has started after the wake-up a step of the threads responsible for the
  task (a push by \<open>wake\<close>, a pop by a worker, the start of a poll, or a compare-exchange that does not fail
  spuriously) is possible, and no execution contains three such steps without that poll having started.
\<close>

theorem woken_task_gets_polled:
  assumes "task_reach s" and "ts_unseen s" and "ts_status s AND DROPPED = 0"
    and "\<forall>w. ts_poll s w \<notin> {P_run, P_or_dropped, G_or}"
    and "avoiding live_step duty_step repolled k s t"
  shows "k \<le> 2 \<and> (\<exists>u. duty_step t u)"
proof -
  have "awaits_poll s" using assms(1-4) by (simp add: awaits_poll_def)
  then have "awaits_poll t \<and> k + duty_rank t \<le> duty_rank s"
  proof (rule avoiding_bound[OF assms(5)])
    fix t u assume t: "awaits_poll t" "live_step t u" "\<not> repolled u"
    then show "awaits_poll u \<and> duty_rank u \<le> duty_rank t"
      using awaits_poll_step[of t _ u] unfolding live_step_def by (metis add_leD1)
    show "duty_rank u < duty_rank t" if d: "duty_step t u"
    proof -
      obtain l where "on_duty t l" "tstep l t u" using d by (auto simp: duty_step_def)
      with awaits_poll_step[of t l u] t(1,3) show ?thesis by (cases l) auto
    qed
  qed
  moreover have "duty_rank s \<le> 2" by (simp add: duty_rank_def)
  ultimately show ?thesis using duty_step_enabled by fastforce
qed


section \<open>Witnesses\<close>

text \<open>
  A run in which the task is woken while it is polled: worker 0 pops and polls it, the future
  clones its waker, another thread wakes through the clone, and the future returns \<open>Pending\<close>.
\<close>

definition demo_running :: tstate where
  "demo_running = ts_new\<lparr>ts_status := 1, ts_queued := 0, ts_poll := (\<lambda>_. Not_polling)(0 := P_run),
     ts_unseen := False\<rparr>"

definition demo_woken :: tstate where
  "demo_woken = demo_running\<lparr>ts_status := 3, ts_rc := 2, ts_alive := {0},
     ts_poll := (\<lambda>_. Not_polling)(0 := P_cas 1), ts_unseen := True\<rparr>"

lemmas demo_defs = ts_new_def demo_running_def demo_woken_def status_bits touch_def

lemma demo_running_reach: "task_reach demo_running"
proof -
  have "task_reach ts_new" by (rule reach_init) simp
  from task_reach_tstep[OF this tstep.pop[of ts_new 0]]
  have "task_reach (ts_new\<lparr>ts_queued := 0, ts_poll := (\<lambda>_. Not_polling)(0 := P_clear)\<rparr>)" (is "task_reach ?s")
    by (simp add: demo_defs)
  moreover have "poll_step 0 False ?s = Some demo_running"
    by (simp add: poll_step_def Let_def demo_defs)
  ultimately show ?thesis by (blast intro: task_reach_tstep tstep.poll)
qed

lemma demo_woken_reach: "task_reach demo_woken"
proof -
  let ?c = "demo_running\<lparr>ts_rc := 2, ts_alive := {0}\<rparr>"
  let ?u = "?c\<lparr>ts_use := (\<lambda>_. No_call)(0 := U_or (Hd 0))\<rparr>"
  let ?w = "?c\<lparr>ts_status := 3, ts_unseen := True\<rparr>"
  from task_reach_tstep[OF demo_running_reach tstep.clone[of demo_running Cx 0 0]]
  have "task_reach ?c" by (simp add: demo_defs handle_ok_def numeral_2_eq_2)
  from task_reach_tstep[OF this tstep.call[of ?c "Hd 0" 0 0]]
  have "task_reach ?u" by (simp add: demo_defs handle_ok_def)
  moreover have "use_step 0 ?u = Some ?w"
    by (simp add: use_step_def Let_def demo_defs fun_upd_idem)
  ultimately have "task_reach ?w" by (blast intro: task_reach_tstep tstep.wake)
  from task_reach_tstep[OF this tstep.return[of ?w 0 False]]
  show ?thesis by (simp add: demo_defs calls_through_def)
qed

theorem task_exclusive_witness:
  "task_reach demo_woken \<and> ts_poll demo_woken 0 \<noteq> Not_polling \<and> ts_queued demo_woken = 0"
  using task_exclusive [OF demo_woken_reach] demo_woken_reach by (simp add: demo_defs)

theorem wake_not_lost_witness:
  "ts_unseen demo_woken \<and> ts_status demo_woken AND NOTIFIED \<noteq> 0 \<and> ts_poll demo_woken 0 = P_cas MUTED"
  using wake_not_lost [OF demo_woken_reach] by (simp add: demo_defs)

theorem task_memory_safe_witness: "\<not> ts_bad demo_running \<and> ts_drops demo_running \<le> 1"
  using task_memory_safe [OF demo_running_reach] by simp

theorem task_freed_iff_witness: "unat (ts_rc demo_woken) = card (ts_alive demo_woken) + 1 \<and> \<not> ts_freed demo_woken"
  using task_freed_iff [OF demo_woken_reach] by (simp add: demo_defs)

theorem woken_task_gets_polled_witness:
  "awaits_poll demo_woken \<and> avoiding live_step duty_step repolled 0 demo_woken demo_woken \<and> (\<exists>u. duty_step demo_woken u)"
proof -
  have a: "avoiding live_step duty_step repolled 0 demo_woken demo_woken"
    by (rule avoiding_start) (simp add: repolled_def demo_defs)
  have "\<exists>u. duty_step demo_woken u"
    using woken_task_gets_polled [OF demo_woken_reach _ _ _ a] by (simp add: demo_defs)
  with a demo_woken_reach show ?thesis by (simp add: awaits_poll_def demo_defs)
qed

end
