(* ===== verification/Task.thy ===== *)
theory Task
  imports Task_List Task_Protocol
begin

text \<open>
  The operations on one task as sequential code (\<open>yaay-mt-runtime/src/task.rs\<close>, the waker vtable in
  \<open>task_waker.rs\<close>), and the batches of a reactor thread (\<open>RuntimeLocalData\<close> in \<open>task.rs\<close>,
  \<open>batch.rs\<close>).  \<open>i\<close> is the thread that runs an operation.  How the operations of several threads
  interleave is the subject of theory \<open>Task_Protocol\<close>; there is also \<open>Task::poll\<close>.
\<close>

section \<open>Definitions\<close>

definition Task_new :: "addr \<Rightarrow> 'f \<Rightarrow> 'f rt \<Rightarrow> (addr \<times> 'f rt) res" where
  "Task_new p future s =
     new_obj p (TaskInner \<lparr>t_status = MUTED OR NOTIFIED, t_rc = 1, t_next = null, t_worker_id = 0\<rparr> future) s"

definition get_worker_id :: "addr \<Rightarrow> 'f rt \<Rightarrow> u32 res" where
  "get_worker_id task s = bind_r (deref_task task s) (\<lambda>t. Inr (t_worker_id t))"

definition set_worker_id :: "addr \<Rightarrow> u32 \<Rightarrow> 'f rt \<Rightarrow> 'f rt res" where
  "set_worker_id task w s = modify_task task (\<lambda>t. t\<lparr>t_worker_id := w\<rparr>) s"

definition rc :: "addr \<Rightarrow> 'f rt \<Rightarrow> usize res" where
  "rc task s = bind_r (deref_task task s) (\<lambda>t. Inr (t_rc t))"

definition rc_inc :: "addr \<Rightarrow> 'f rt \<Rightarrow> 'f rt res" where
  "rc_inc task s = modify_task task (\<lambda>t. t\<lparr>t_rc := t_rc t + 1\<rparr>) s"

definition fn_dealloc :: "addr \<Rightarrow> 'f rt \<Rightarrow> 'f rt res" where
  "fn_dealloc task s = on_mem (do_dealloc task) s"

definition rc_dec :: "addr \<Rightarrow> 'f rt \<Rightarrow> 'f rt res" where
  "rc_dec task s =
     bind_r (rc task s) (\<lambda>prev.
     bind_r (modify_task task (\<lambda>t. t\<lparr>t_rc := t_rc t - 1\<rparr>) s) (\<lambda>s.
       if prev = 1 then fn_dealloc task s else Inr s))"

text \<open>
  The destructor of a future drops the wakers the future holds: \<open>owned f\<close> are the tasks they point to, the future's own
  task among them when it holds dispatchers.  \<open>no_wakers\<close> is for a future that holds none.
\<close>

definition fn_drop :: "addr \<Rightarrow> 'f rt \<Rightarrow> 'f rt res" where
  "fn_drop task s = rc_dec task s"

fun drop_wakers :: "addr list \<Rightarrow> 'f rt \<Rightarrow> 'f rt res" where
  "drop_wakers [] s = Inr s"
| "drop_wakers (task # tasks) s = bind_r (fn_drop task s) (drop_wakers tasks)"

abbreviation no_wakers :: "'f \<Rightarrow> addr list" where
  "no_wakers \<equiv> \<lambda>_. []"

definition fn_drop_in_place :: "('f \<Rightarrow> addr list) \<Rightarrow> addr \<Rightarrow> 'f rt \<Rightarrow> 'f rt res" where
  "fn_drop_in_place owned task s =
     bind_r (deref task s) (\<lambda>ob.
       case ob of
         TaskInner t f \<Rightarrow> bind_r (on_mem (do_drop_in_place task) s) (drop_wakers (owned f))
       | _ \<Rightarrow> Inl Type_confusion)"

definition drop_in_place :: "('f \<Rightarrow> addr list) \<Rightarrow> addr \<Rightarrow> 'f rt \<Rightarrow> 'f rt res" where
  "drop_in_place owned task s =
     bind_r (deref_task task s) (\<lambda>t.
     bind_r (modify_task task (\<lambda>t. t\<lparr>t_status := t_status t OR DROPPED\<rparr>) s) (\<lambda>s.
       if t_status t AND DROPPED = 0 then fn_drop_in_place owned task s else Inr s))"

text \<open>\<open>worker.as_ref().task_list.lock()\<close> and one operation on the locked list.\<close>

definition on_queue :: "addr \<Rightarrow> (TaskList \<Rightarrow> 'f rt \<Rightarrow> (TaskList \<times> 'f rt) res) \<Rightarrow> 'f rt \<Rightarrow> 'f rt res" where
  "on_queue a g s =
     bind_r (deref_worker a s) (\<lambda>w.
     bind_r (g (task_list w) s) (\<lambda>(l, s). Inr (store a (Obj_worker (w\<lparr>task_list := l\<rparr>)) s)))"

definition RuntimeLocalData_new :: "'f rt \<Rightarrow> RuntimeLocalData res" where
  "RuntimeLocalData_new s =
     bind_r (RuntimeSharedData_get s) (\<lambda>shared.
       Inr \<lparr>task_lists = replicate (length (worker_ptrs shared)) TaskList_new\<rparr>)"

definition RuntimeLocalData_get :: "tid \<Rightarrow> 'f rt \<Rightarrow> (addr \<times> RuntimeLocalData) option res" where
  "RuntimeLocalData_get i s =
     (let local = get_local i s
      in if local = null then Inr None else bind_r (deref_local local s) (\<lambda>d. Inr (Some (local, d))))"

definition RuntimeLocalData_get_unchecked :: "tid \<Rightarrow> 'f rt \<Rightarrow> (addr \<times> RuntimeLocalData) res" where
  "RuntimeLocalData_get_unchecked i s =
     (let local = get_local i s in bind_r (deref_local local s) (\<lambda>d. Inr (local, d)))"

definition wake :: "tid \<Rightarrow> addr \<Rightarrow> 'f rt \<Rightarrow> 'f rt res" where
  "wake i task s =
     bind_r (deref_task task s) (\<lambda>t.
     let prev = t_status t in
     bind_r (modify_task task (\<lambda>t. t\<lparr>t_status := t_status t OR (MUTED OR NOTIFIED)\<rparr>) s) (\<lambda>s.
       if prev AND (MUTED OR DROPPED) \<noteq> 0 then Inr s
       else
         bind_r (get_worker_id task s) (\<lambda>wid.
         bind_r (RuntimeLocalData_get i s) (\<lambda>local.
           case local of
             Some (a, d) \<Rightarrow>
               bind_r (get_unchecked (task_lists d) (unat wid)) (\<lambda>l.
               bind_r (push_back l task s) (\<lambda>(l, s).
                 Inr (store a (Obj_local (d\<lparr>task_lists := (task_lists d)[unat wid := l]\<rparr>)) s)))
           | None \<Rightarrow>
               bind_r (RuntimeSharedData_get s) (\<lambda>shared.
               bind_r (get_unchecked (worker_ptrs shared) (unat wid)) (\<lambda>worker.
               bind_r (on_queue worker (\<lambda>l. push_back l task) s) (\<lambda>s.
                 next_epoch_at (s_epoch shared) s)))))))"

subsection \<open>The waker's vtable\<close>

definition fn_clone :: "addr \<Rightarrow> 'f rt \<Rightarrow> 'f rt res" where
  "fn_clone task s = rc_inc task s"

definition fn_wake_by_ref :: "tid \<Rightarrow> addr \<Rightarrow> 'f rt \<Rightarrow> 'f rt res" where
  "fn_wake_by_ref i task s = wake i task s"

definition fn_wake :: "tid \<Rightarrow> addr \<Rightarrow> 'f rt \<Rightarrow> 'f rt res" where
  "fn_wake i task s = bind_r (wake i task s) (rc_dec task)"

subsection \<open>Batches\<close>

definition BatchGuard_new :: "addr \<Rightarrow> tid \<Rightarrow> 'f rt \<Rightarrow> 'f rt res" where
  "BatchGuard_new p i s =
     bind_r (RuntimeLocalData_new s) (\<lambda>d.
     bind_r (new_obj p (Obj_local d) s) (\<lambda>(local, s).
       if get_local i s \<noteq> null then Inl Panic_assert else Inr (set_local i local s)))"

text \<open>
  The loop of \<open>push_batch\<close> over \<open>(worker_id, tasks)\<close>: the lists after the loop, \<open>all_empty\<close>, and
  the state.
\<close>

fun push_lists :: "RuntimeSharedData \<Rightarrow> nat \<Rightarrow> TaskList list \<Rightarrow> bool \<Rightarrow> 'f rt \<Rightarrow> (TaskList list \<times> bool \<times> 'f rt) res" where
  "push_lists shared k [] all_empty s = Inr ([], all_empty, s)"
| "push_lists shared k (tasks # rest) all_empty s =
     (if is_empty tasks then
        bind_r (push_lists shared (Suc k) rest all_empty s) (\<lambda>(ls, e, s). Inr (tasks # ls, e, s))
      else
        let (popped, tasks') = pop_all tasks in
        bind_r (get_unchecked (worker_ptrs shared) k) (\<lambda>worker.
        bind_r (on_queue worker (\<lambda>l. push_back_batch l popped) s) (\<lambda>s.
        bind_r (push_lists shared (Suc k) rest False s) (\<lambda>(ls, e, s). Inr (tasks' # ls, e, s)))))"

definition push_batch :: "tid \<Rightarrow> 'f rt \<Rightarrow> 'f rt res" where
  "push_batch i s =
     bind_r (RuntimeSharedData_get s) (\<lambda>shared.
     bind_r (RuntimeLocalData_get_unchecked i s) (\<lambda>(a, local).
     bind_r (push_lists shared 0 (task_lists local) True s) (\<lambda>(ls, all_empty, s).
       let s = store a (Obj_local (local\<lparr>task_lists := ls\<rparr>)) s
       in if \<not> all_empty then next_epoch_at (s_epoch shared) s else Inr s)))"

definition BatchGuard_drop :: "tid \<Rightarrow> 'f rt \<Rightarrow> 'f rt res" where
  "BatchGuard_drop i s =
     bind_r (push_batch i s) (\<lambda>s.
     let local = get_local i s; s = set_local i null s
     in if local \<noteq> null then on_mem (do_drop local) s else Inr s)"

end
