(* ===== verification/Runtime_View.thy ===== *)
theory Runtime_View
  imports Task
begin

text \<open>
  The state of the running runtime seen as a list of queues: \<open>runtime s ep e wps qs\<close>.  The pointer
  structure in the heap (shared data, epoch word, workers, linked tasks) stands for the epoch word
  \<open>e\<close> and the queues \<open>qs\<close>, and every locked section of a queue, every \<open>next_epoch\<close> and every
  change of a task's header acts on this view.
\<close>

section \<open>The runtime as a list of queues\<close>

text \<open>
  \<open>runtime s ep e wps qs\<close>: the shared data is published; \<open>ep\<close> is the address of the epoch word
  and \<open>e\<close> its value; \<open>wps\<close> are the workers, each with the right private data, and \<open>qs\<close> their
  queues, which share no task.
\<close>

definition worker_ok :: "addr \<Rightarrow> addr list \<Rightarrow> nat \<Rightarrow> Worker \<Rightarrow> bool" where
  "worker_ok ep wps k w \<longleftrightarrow> unat (n_workers w) = length wps \<and> w_epoch w = ep \<and> unat (worker_id w) = k \<and>
     other_workers w = take k wps @ drop (Suc k) wps"

definition worker_at :: "'f rt \<Rightarrow> addr \<Rightarrow> addr list \<Rightarrow> addr list list \<Rightarrow> nat \<Rightarrow> bool" where
  "worker_at s ep wps qs k \<longleftrightarrow> wps ! k \<noteq> null \<and>
     (\<exists>w. mem s (wps ! k) = Some (Init (Obj_worker w)) \<and> worker_ok ep wps k w \<and> queue_at s (task_list w) (qs ! k))"

definition runtime :: "'f rt \<Rightarrow> addr \<Rightarrow> u32 \<Rightarrow> addr list \<Rightarrow> addr list list \<Rightarrow> bool" where
  "runtime s ep e wps qs \<longleftrightarrow>
     GLOBAL s \<noteq> null \<and> mem s (GLOBAL s) = Some (Init (Obj_shared \<lparr>s_epoch = ep, worker_ptrs = wps\<rparr>)) \<and>
     ep \<noteq> null \<and> mem s ep = Some (Init (Obj_epoch e)) \<and>
     distinct wps \<and> length qs = length wps \<and> (\<forall>k<length wps. worker_at s ep wps qs k) \<and> distinct (concat qs)"

lemma queue_at_cong:
  assumes "\<forall>x\<in>set xs. mem s' x = mem s x"
  shows "queue_at s' l xs = queue_at s l xs"
proof -
  have "\<forall>x\<in>set xs. is_task s' x = is_task s x \<and> next_at s' x = next_at s x"
    using assms by (auto simp: is_task_def next_at_def task_at_def)
  then show ?thesis using linked_cong[of xs "next_at s'" "next_at s"] by (auto simp: queue_at_def holds_def)
qed

lemma queue_tasks: "queue_at s l xs \<Longrightarrow> x \<in> set xs \<Longrightarrow> is_task s x"
  by (auto simp: queue_at_def holds_def)

lemma not_task [simp]:
  "mem s a = Some (Init (Obj_worker w)) \<Longrightarrow> \<not> is_task s a" "mem s a = Some (Init (Obj_epoch e)) \<Longrightarrow> \<not> is_task s a"
  "mem s a = Some (Init (Obj_shared d)) \<Longrightarrow> \<not> is_task s a" "mem s a = Some (Init (Obj_local ld)) \<Longrightarrow> \<not> is_task s a"
  "mem s a = None \<Longrightarrow> \<not> is_task s a"
  by (auto simp: is_task_def)

lemma concat_disjoint:
  assumes "distinct (concat qs)" "k < length qs" "j < length qs" "j \<noteq> k"
  shows "set (qs ! j) \<inter> set (qs ! k) = {}"
  using assms
proof (induction qs arbitrary: j k)
  case (Cons q qs)
  have "set q \<inter> set (qs ! m) = {}" if "m < length qs" for m
    using Cons.prems(1) nth_mem[OF that] by (auto simp: disjoint_iff)
  then show ?case using Cons by (cases j; cases k) (auto simp: Int_commute)
qed simp

lemma runtime_task: "runtime s ep e wps qs \<Longrightarrow> t \<in> set (concat qs) \<Longrightarrow> is_task s t"
  by (fastforce simp: runtime_def worker_at_def in_set_conv_nth dest: queue_tasks[OF _ nth_mem])

lemma runtime_nth:
  assumes "runtime s ep e wps qs" "k < length wps"
  shows "set (qs ! k) \<subseteq> set (concat qs)" "wps ! k \<in> set wps" "k < length qs"
proof -
  show k: "k < length qs" using assms by (simp add: runtime_def)
  show "set (qs ! k) \<subseteq> set (concat qs)" using nth_mem[OF k] by auto
qed (use assms in simp)

text \<open>Everything but the queues: what a locked section on a queue keeps.\<close>

definition keeps :: "'f rt \<Rightarrow> 'f rt \<Rightarrow> bool" where
  "keeps s s' \<longleftrightarrow> dom (mem s') = dom (mem s) \<and> GLOBAL s' = GLOBAL s \<and> LOCAL s' = LOCAL s \<and> events s' = events s \<and> is_task s' = is_task s \<and>
     (\<forall>t. is_task s t \<longrightarrow> (task_at s' t)\<lparr>t_next := null\<rparr> = (task_at s t)\<lparr>t_next := null\<rparr>) \<and>
     (\<forall>a d. mem s' a = Some (Init (Obj_local d)) \<longleftrightarrow> mem s a = Some (Init (Obj_local d)))"

lemma keeps_refl [simp]: "keeps s s"
  by (simp add: keeps_def)

lemma keeps_trans: "keeps s t \<Longrightarrow> keeps t u \<Longrightarrow> keeps s u"
  by (auto simp: keeps_def)

lemma relink_keeps: "relink A s s' \<Longrightarrow> keeps s s'"
  unfolding keeps_def by (intro conjI) (simp add: relink_dom, auto dest: relink_task)

lemma store_worker_keeps:
  "mem s a = Some (Init (Obj_worker w)) \<Longrightarrow> keeps s (store a (Obj_worker w') s)"
  by (auto simp: keeps_def store_def is_task_def task_at_def fun_eq_iff)

text \<open>A worker's data apart from its queue.\<close>

definition same_private :: "'f rt \<Rightarrow> 'f rt \<Rightarrow> bool" where
  "same_private s s' \<longleftrightarrow> (\<forall>a w. mem s a = Some (Init (Obj_worker w)) \<longrightarrow>
     (\<exists>l. mem s' a = Some (Init (Obj_worker (w\<lparr>task_list := l\<rparr>)))))"

lemma same_private_trans: "same_private s t \<Longrightarrow> same_private t u \<Longrightarrow> same_private s u"
  unfolding same_private_def by (metis Worker.update_convs(1) Worker.surjective)

text \<open>
  \<open>touches A U s s'\<close>: what changed in memory are links of tasks in \<open>A\<close> and the contents of workers and of
  the epoch word in \<open>U\<close>.
\<close>

definition touched :: "'f obj block option \<Rightarrow> 'f obj block option \<Rightarrow> bool" where
  "touched b b' \<longleftrightarrow> (\<exists>w w'. b = Some (Init (Obj_worker w)) \<and> b' = Some (Init (Obj_worker w'))) \<or>
     (\<exists>e e'. b = Some (Init (Obj_epoch e)) \<and> b' = Some (Init (Obj_epoch e')))"

definition touches :: "addr set \<Rightarrow> addr set \<Rightarrow> 'f rt \<Rightarrow> 'f rt \<Rightarrow> bool" where
  "touches A U s s' \<longleftrightarrow> GLOBAL s' = GLOBAL s \<and> LOCAL s' = LOCAL s \<and>
     (\<forall>a. mem s' a = mem s a \<or> a \<in> A \<and> (\<exists>nx. mem s' a = map_option (map_task (\<lambda>t. t\<lparr>t_next := nx\<rparr>)) (mem s a)) \<or>
       a \<in> U \<and> touched (mem s a) (mem s' a))"

text \<open>What a task's block says apart from the link and the future: whether it is live, the status, the count, the worker.\<close>

definition tview :: "'f rt \<Rightarrow> addr \<Rightarrow> (bool \<times> u8 \<times> usize \<times> u32) option" where
  "tview s a =
     (case mem s a of
        Some (Init (TaskInner h f)) \<Rightarrow> Some (True, t_status h, t_rc h, t_worker_id h)
      | Some (Dropped (TaskInner h f)) \<Rightarrow> Some (False, t_status h, t_rc h, t_worker_id h)
      | _ \<Rightarrow> None)"

lemma tview_Some:
  "tview s a = Some (l, st, r, w) \<longleftrightarrow> (\<exists>h f. mem s a = Some ((if l then Init else Dropped) (TaskInner h f)) \<and>
     t_status h = st \<and> t_rc h = r \<and> t_worker_id h = w)"
  by (cases l) (auto simp: tview_def split: option.splits block.splits obj.splits)

lemma tview_task: "is_task s a \<longleftrightarrow> a \<noteq> null \<and> tview s a \<noteq> None"
  by (auto simp: is_task_def tview_def split: option.splits block.splits obj.splits)

lemma tview_task_at:
  "tview s a = Some (l, st, r, w) \<Longrightarrow> t_status (task_at s a) = st \<and> t_rc (task_at s a) = r \<and> t_worker_id (task_at s a) = w"
  by (auto simp: tview_Some task_at_def split: if_splits)

lemma touches_refl [simp]: "touches A U s s"
  by (simp add: touches_def)

lemma touchesD:
  "touches A U s s' \<Longrightarrow> mem s' a = mem s a \<or>
     a \<in> A \<and> (\<exists>nx. mem s' a = map_option (map_task (\<lambda>t. t\<lparr>t_next := nx\<rparr>)) (mem s a)) \<or>
     a \<in> U \<and> touched (mem s a) (mem s' a)"
  by (simp add: touches_def)

lemma touched_task: "touched b b' \<Longrightarrow> map_option (map_task g) b = b \<and> map_option (map_task g) b' = b'"
  by (auto simp: touched_def)

lemma touches_trans:
  assumes "touches A U s t" "touches B V t u"
  shows "touches (A \<union> B) (U \<union> V) s u"
proof -
  have "mem u a = mem s a \<or> a \<in> A \<union> B \<and> (\<exists>nx. mem u a = map_option (map_task (\<lambda>t. t\<lparr>t_next := nx\<rparr>)) (mem s a)) \<or>
     a \<in> U \<union> V \<and> touched (mem s a) (mem u a)" for a
  proof -
    have comp: "map_option (map_task (\<lambda>t. t\<lparr>t_next := nx\<rparr>)) (map_option (map_task (\<lambda>t. t\<lparr>t_next := ny\<rparr>)) b) =
        map_option (map_task (\<lambda>t. t\<lparr>t_next := nx\<rparr>)) b" for nx ny and b :: "'a obj block option"
      by (simp add: option.map_comp o_def)
    consider "mem t a = mem s a" | nx where "a \<in> A" "mem t a = map_option (map_task (\<lambda>t. t\<lparr>t_next := nx\<rparr>)) (mem s a)"
      | "a \<in> U" "touched (mem s a) (mem t a)" using assms(1) by (auto simp: touches_def)
    then show ?thesis
    proof cases
      case 1
      then show ?thesis using touchesD[OF assms(2), of a] by auto
    next
      case 2
      have "touched (mem s a) b" if "touched (mem t a) b" for b using that unfolding 2(2) touched_def by auto
      with 2 show ?thesis using touchesD[OF assms(2), of a] comp by auto
    next
      case 3
      have "touched (mem s a) b" if "touched (mem t a) b" for b using that 3(2) unfolding touched_def by auto
      with 3 show ?thesis using touchesD[OF assms(2), of a] touched_task[OF 3(2)] by auto
    qed
  qed
  then show ?thesis using assms by (simp add: touches_def)
qed

lemma touches_mono: "touches A U s s' \<Longrightarrow> A \<subseteq> B \<Longrightarrow> U \<subseteq> V \<Longrightarrow> touches B V s s'"
  by (fastforce simp: touches_def)

lemma touches_events [simp]:
  "touches A U (s\<lparr>events := ev\<rparr>) s' = touches A U s s'" "touches A U s (s'\<lparr>events := ev\<rparr>) = touches A U s s'"
  by (simp_all add: touches_def)

lemma tview_link: "mem s' a = map_option (map_task (\<lambda>t. t\<lparr>t_next := nx\<rparr>)) (mem s a) \<Longrightarrow> tview s' a = tview s a"
  by (auto simp: tview_def split: option.splits block.splits obj.splits)

lemma touches_tview: "touches A U s s' \<Longrightarrow> tview s' = tview s"
proof
  fix a assume "touches A U s s'"
  then consider "mem s' a = mem s a" | nx where "mem s' a = map_option (map_task (\<lambda>t. t\<lparr>t_next := nx\<rparr>)) (mem s a)"
    | "touched (mem s a) (mem s' a)" by (auto simp: touches_def)
  then show "tview s' a = tview s a"
    by cases (simp add: tview_def, rule tview_link, auto simp: touched_def tview_def)
qed

lemma touches_same:
  assumes "touches A U s s'" "a \<notin> A" "a \<notin> U \<or> is_task s a \<or> mem s a = Some (Init (Obj_local d))"
  shows "mem s' a = mem s a"
  using assms by (auto simp: touches_def touched_def is_task_def)

lemma touches_local: "touches A U s s' \<Longrightarrow> mem s a = Some (Init (Obj_local d)) \<Longrightarrow> mem s' a = Some (Init (Obj_local d))"
  by (auto simp: touches_def touched_def dest!: spec[of _ a])

lemma touches_dom:
  assumes "touches A U s s'"
  shows "dom (mem s') = dom (mem s)"
proof -
  have "mem s' a = None \<longleftrightarrow> mem s a = None" for a using touchesD[OF assms, of a] by (auto simp: touched_def)
  then show ?thesis by (simp add: dom_def)
qed

lemma touches_queue:
  assumes "touches A U s s'" "queue_at s l xs" "A \<inter> set xs = {}"
  shows "queue_at s' l xs"
proof -
  have "mem s' x = mem s x" if "x \<in> set xs" for x
    using that assms(3) queue_tasks[OF assms(2) that] touches_same[OF assms(1), of x] by blast
  then show ?thesis using assms(2) queue_at_cong[of xs s' s l] by blast
qed

lemma relink_touches: "relink A s s' \<Longrightarrow> touches A {} s s'"
  unfolding relink_def touches_def by (elim exE) (auto split: if_splits)

lemma store_touches:
  "mem s a = Some (Init (Obj_worker w)) \<Longrightarrow> touches {} {a} s (store a (Obj_worker w') s)"
  "mem s a = Some (Init (Obj_epoch e)) \<Longrightarrow> touches {} {a} s (store a (Obj_epoch e') s)"
  by (auto simp: touches_def touched_def store_def)

text \<open>What a task's header says apart from the link.\<close>

lemma keeps_task:
  assumes "keeps s s'" "is_task s t"
  shows "t_status (task_at s' t) = t_status (task_at s t)" "t_rc (task_at s' t) = t_rc (task_at s t)"
    "t_worker_id (task_at s' t) = t_worker_id (task_at s t)"
  using assms by (auto simp: keeps_def dest!: spec[of _ t]) (cases "task_at s t"; cases "task_at s' t"; simp)+

text \<open>One locked section on the queue of worker \<open>k\<close>.\<close>

lemma on_queue_ok:
  assumes rt: "runtime s ep e wps qs" and k: "k < length wps"
    and op: "\<And>l. queue_at s l (qs ! k) \<Longrightarrow> \<exists>l' s'. g l s = Inr (l', s') \<and> queue_at s' l' ys \<and> relink A s s'"
    and A: "\<And>j. j < length wps \<Longrightarrow> j \<noteq> k \<Longrightarrow> A \<inter> set (qs ! j) = {}" and d: "distinct (concat (qs[k := ys]))"
  shows "\<exists>s'. on_queue (wps ! k) g s = Inr s' \<and> runtime s' ep e wps (qs[k := ys]) \<and> keeps s s' \<and> same_private s s' \<and>
    touches A {wps ! k} s s'"
proof -
  from rt k obtain w where w: "wps ! k \<noteq> null" "mem s (wps ! k) = Some (Init (Obj_worker w))" "worker_ok ep wps k w"
    "queue_at s (task_list w) (qs ! k)" by (auto simp: runtime_def worker_at_def)
  from op[OF w(4)] obtain l s1 where s1: "g (task_list w) s = Inr (l, s1)" "queue_at s1 l ys" "relink A s s1" by blast
  let ?s = "store (wps ! k) (Obj_worker (w\<lparr>task_list := l\<rparr>)) s1"
  have "on_queue (wps ! k) g s = Inr ?s" using w s1 by (simp add: on_queue_def deref_worker_def deref_def)
  have ne: "wps ! k \<noteq> GLOBAL s" "wps ! k \<noteq> ep" "\<And>j. j < length wps \<Longrightarrow> j \<noteq> k \<Longrightarrow> wps ! j \<noteq> wps ! k"
    using rt w(2) k by (auto simp: runtime_def nth_eq_iff_index_eq)
  have nt: "\<not> is_task s (wps ! k)" "\<not> is_task s1 (wps ! k)" using w(2) s1(3) by auto
  have "worker_at ?s ep wps (qs[k := ys]) j" if j: "j < length wps" for j
  proof (cases "j = k")
    case True
    have "queue_at ?s l ys"
      using s1(2) queue_tasks[OF s1(2)] nt(2) by (subst queue_at_cong) (auto simp: store_def)
    then show ?thesis using True w k rt by (auto simp: worker_at_def store_def worker_ok_def runtime_def)
  next
    case False
    from rt j obtain v where v: "wps ! j \<noteq> null" "mem s (wps ! j) = Some (Init (Obj_worker v))" "worker_ok ep wps j v"
      "queue_at s (task_list v) (qs ! j)" by (auto simp: runtime_def worker_at_def)
    have "queue_at s1 (task_list v) (qs ! j)" by (rule queue_at_frame[OF s1(3) A[OF j False] v(4)])
    then have "queue_at ?s (task_list v) (qs ! j)"
      using queue_tasks[OF v(4)] nt(1) by (subst queue_at_cong) (auto simp: store_def)
    then show ?thesis using False v ne(3)[OF j False] s1(3) by (auto simp: worker_at_def store_def)
  qed
  then have "runtime ?s ep e wps (qs[k := ys])"
    using rt d ne s1(3) by (auto simp: runtime_def store_def)
  moreover note \<open>on_queue (wps ! k) g s = Inr ?s\<close>
  moreover have "keeps s ?s"
    using keeps_trans[OF relink_keeps[OF s1(3)] store_worker_keeps[of s1 "wps ! k" w]] w(2) s1(3) by simp
  moreover have "same_private s ?s"
    unfolding same_private_def
  proof (intro allI impI)
    fix a v assume v: "mem s a = Some (Init (Obj_worker v))"
    show "\<exists>l. mem ?s a = Some (Init (Obj_worker (v\<lparr>task_list := l\<rparr>)))"
      using v w(2) s1(3) by (cases "a = wps ! k") (auto simp: store_def intro: exI[of _ "task_list v"])
  qed
  moreover have "touches A {wps ! k} s ?s"
    using touches_trans[OF relink_touches[OF s1(3)] store_touches(1)[of s1 "wps ! k" w "w\<lparr>task_list := l\<rparr>"]] w(2) s1(3) by simp
  ultimately show ?thesis by blast
qed

lemma store_epoch_ok:
  assumes rt: "runtime s ep e wps qs"
  shows "runtime (store ep (Obj_epoch e') s) ep e' wps qs \<and> keeps s (store ep (Obj_epoch e') s)"
proof -
  have m: "mem s ep = Some (Init (Obj_epoch e))" using rt by (simp add: runtime_def)
  then have nt: "\<not> is_task s ep" by simp
  have "worker_at (store ep (Obj_epoch e') s) ep wps qs k" if k: "k < length wps" for k
  proof -
    from rt k obtain w where w: "wps ! k \<noteq> null" "mem s (wps ! k) = Some (Init (Obj_worker w))" "worker_ok ep wps k w"
      "queue_at s (task_list w) (qs ! k)" by (auto simp: runtime_def worker_at_def)
    moreover have "queue_at (store ep (Obj_epoch e') s) (task_list w) (qs ! k)"
      using w(4) queue_tasks[OF w(4)] nt by (subst queue_at_cong) (auto simp: store_def)
    ultimately show ?thesis using m by (auto simp: worker_at_def store_def)
  qed
  moreover have "keeps s (store ep (Obj_epoch e') s)"
    using m by (auto simp: keeps_def store_def is_task_def task_at_def fun_eq_iff)
  ultimately show ?thesis using rt by (auto simp: runtime_def store_def)
qed

lemma runtime_events [simp]: "runtime (s\<lparr>events := ev\<rparr>) ep e wps qs = runtime s ep e wps qs"
proof -
  have "queue_at (s\<lparr>events := ev\<rparr>) l xs = queue_at s l xs" for l xs by (rule queue_at_cong) simp
  then show ?thesis by (simp add: runtime_def worker_at_def)
qed

text \<open>Everything but the queues and the events.\<close>

lemma is_task_events [simp]: "is_task (s\<lparr>events := ev\<rparr>) = is_task s" "task_at (s\<lparr>events := ev\<rparr>) = task_at s"
  by (simp_all add: is_task_def task_at_def fun_eq_iff)

definition epoch_events :: "addr \<Rightarrow> u32 \<Rightarrow> event list" where
  "epoch_events ep e = (if active_count e = 0 then [Unpark_all ep] else [])"

lemma next_epoch_at_ok:
  assumes rt: "runtime s ep e wps qs"
  shows "\<exists>s'. next_epoch_at ep s = Inr s' \<and> runtime s' ep (e + EPOCH) wps qs \<and>
    events s' = events s @ epoch_events ep e \<and> keeps (s\<lparr>events := events s'\<rparr>) s' \<and> same_private s s' \<and>
    touches {} {ep} s s'"
proof -
  have m: "ep \<noteq> null" "mem s ep = Some (Init (Obj_epoch e))" using rt by (simp_all add: runtime_def)
  let ?s = "store ep (Obj_epoch (e + EPOCH)) s" 
  let ?s' = "?s\<lparr>events := events s @ epoch_events ep e\<rparr>"
  have "next_epoch_at ep s = Inr ?s'"
    using m by (auto simp: next_epoch_at_def deref_epoch_def deref_def next_epoch_def epoch_events_def store_def)
  moreover have "keeps (s\<lparr>events := events ?s'\<rparr>) ?s'"
    using store_epoch_ok[OF rt, of "e + EPOCH"] by (auto simp: keeps_def)
  moreover have "same_private s ?s'"
    using m(2) unfolding same_private_def by (auto simp: store_def) (metis Worker.surjective Worker.update_convs(1))
  moreover have "touches {} {ep} s ?s'" using store_touches(2)[OF m(2)] by simp
  ultimately show ?thesis using store_epoch_ok[OF rt, of "e + EPOCH"] by auto
qed

text \<open>Changing the header of a task apart from its link.\<close>

definition with_hdr :: "addr \<Rightarrow> (Task \<Rightarrow> Task) \<Rightarrow> 'f rt \<Rightarrow> 'f rt" where
  "with_hdr a g s = s\<lparr>mem := (mem s)(a := map_option (map_task g) (mem s a))\<rparr>"

lemma with_hdr_simps [simp]:
  "GLOBAL (with_hdr a g s) = GLOBAL s" "LOCAL (with_hdr a g s) = LOCAL s" "events (with_hdr a g s) = events s"
  "is_task (with_hdr a g s) = is_task s"
  "is_task s a \<Longrightarrow> task_at (with_hdr a g s) = (task_at s)(a := g (task_at s a))"
  "mem (with_hdr a g s) x = Some (Init (Obj_worker w)) \<longleftrightarrow> mem s x = Some (Init (Obj_worker w))"
  "mem (with_hdr a g s) x = Some (Init (Obj_epoch e)) \<longleftrightarrow> mem s x = Some (Init (Obj_epoch e))"
  "mem (with_hdr a g s) x = Some (Init (Obj_shared d)) \<longleftrightarrow> mem s x = Some (Init (Obj_shared d))"
  "mem (with_hdr a g s) x = Some (Init (Obj_local ld)) \<longleftrightarrow> mem s x = Some (Init (Obj_local ld))"
  by (auto simp: with_hdr_def is_task_map task_at_map)

lemma modify_task_with_hdr: "is_task s a \<Longrightarrow> modify_task a g s = Inr (with_hdr a g s)"
  by (simp add: modify_task_eq with_hdr_def)

lemma with_hdr_queue:
  assumes "is_task s a" "\<And>t. t_next (g t) = t_next t"
  shows "queue_at (with_hdr a g s) l xs = queue_at s l xs"
proof -
  have "next_at (with_hdr a g s) = next_at s" using assms by (auto simp: next_at_def fun_eq_iff)
  then show ?thesis by (simp add: queue_at_def)
qed

lemma with_hdr_runtime:
  assumes "is_task s a" "\<And>t. t_next (g t) = t_next t"
  shows "runtime (with_hdr a g s) ep e wps qs = runtime s ep e wps qs"
  using with_hdr_queue[OF assms] by (simp add: runtime_def worker_at_def)

text \<open>Pushing a task that is in no queue.\<close>

lemma runtime_disjoint:
  "runtime s ep e wps qs \<Longrightarrow> k < length wps \<Longrightarrow> j < length wps \<Longrightarrow> j \<noteq> k \<Longrightarrow> set (qs ! k) \<inter> set (qs ! j) = {}"
  using concat_disjoint[of qs j k] by (auto simp: runtime_def)

lemma not_in_queue:
  assumes "runtime s ep e wps qs" "k < length wps" "t \<notin> set (concat qs)"
  shows "k < length qs" "t \<notin> set (qs ! k)"
  using assms nth_mem[of k qs] by (auto simp: runtime_def)

lemma distinct_concat_upd:
  assumes "distinct (concat qs)" "k < length qs" "distinct ys" "set ys \<subseteq> set (qs ! k) \<union> X" "X \<inter> set (concat qs) = {}"
  shows "distinct (concat (qs[k := ys]))"
proof -
  have qs: "qs = take k qs @ qs ! k # drop (Suc k) qs" using assms(2) by (simp add: id_take_nth_drop)
  have "distinct (concat (take k qs) @ qs ! k @ concat (drop (Suc k) qs))"
    using assms(1) by (subst (asm) qs) simp
  moreover have "set (concat qs) = set (concat (take k qs)) \<union> set (qs ! k) \<union> set (concat (drop (Suc k) qs))"
    by (subst qs) auto
  ultimately show ?thesis using assms(2-) by (subst upd_conv_take_nth_drop) (simp, auto 0 3)
qed

lemma on_queue_push_back:
  assumes rt: "runtime s ep e wps qs" and k: "k < length wps" and t: "is_task s t" "t \<notin> set (concat qs)"
  shows "\<exists>s'. on_queue (wps ! k) (\<lambda>l. push_back l t) s = Inr s' \<and>
    runtime s' ep e wps (qs[k := qs ! k @ [t]]) \<and> keeps s s' \<and> same_private s s' \<and>
    touches (set (qs ! k)) {wps ! k} s s'"
proof (rule on_queue_ok[OF rt k])
  note k' = not_in_queue[OF rt k t(2)]
  then show "\<exists>l' s'. push_back l t s = Inr (l', s') \<and> queue_at s' l' (qs ! k @ [t]) \<and> relink (set (qs ! k)) s s'"
    if "queue_at s l (qs ! k)" for l using push_back_ok[OF that t(1)] by blast
  show "distinct (concat (qs[k := qs ! k @ [t]]))"
    using rt k' t(2) by (intro distinct_concat_upd[where X = "{t}"]) (auto simp: runtime_def distinct_concat_iff)
qed (use rt k runtime_disjoint in blast)

lemma on_queue_push_front:
  assumes rt: "runtime s ep e wps qs" and k: "k < length wps" and t: "is_task s t" "t \<notin> set (concat qs)"
  shows "\<exists>s'. on_queue (wps ! k) (\<lambda>l. push_front l t) s = Inr s' \<and>
    runtime s' ep e wps (qs[k := t # qs ! k]) \<and> keeps s s' \<and> same_private s s' \<and> touches {t} {wps ! k} s s'"
proof (rule on_queue_ok[OF rt k])
  note k' = not_in_queue[OF rt k t(2)]
  then show "\<exists>l' s'. push_front l t s = Inr (l', s') \<and> queue_at s' l' (t # qs ! k) \<and> relink {t} s s'"
    if "queue_at s l (qs ! k)" for l using push_front_ok[OF that t(1)] by blast
  show "distinct (concat (qs[k := t # qs ! k]))"
    using rt k' t(2) by (intro distinct_concat_upd[where X = "{t}"]) (auto simp: runtime_def distinct_concat_iff)
qed (use not_in_queue[OF rt _ t(2)] in blast)

lemma on_queue_push_back_batch:
  assumes rt: "runtime s ep e wps qs" and k: "k < length wps" and m: "queue_at s m b" "b \<noteq> []"
    and disj: "set (concat qs) \<inter> set b = {}"
  shows "\<exists>s'. on_queue (wps ! k) (\<lambda>l. push_back_batch l m) s = Inr s' \<and>
    runtime s' ep e wps (qs[k := qs ! k @ b]) \<and> keeps s s' \<and> same_private s s' \<and>
    touches (set (qs ! k)) {wps ! k} s s'"
proof (rule on_queue_ok[OF rt k])
  have k': "k < length qs" using rt k by (simp add: runtime_def)
  then have "qs ! k \<in> set qs" by simp
  then have d: "set (qs ! k) \<inter> set b = {}" using disj unfolding set_concat by blast
  then show "\<exists>l' s'. push_back_batch l m s = Inr (l', s') \<and> queue_at s' l' (qs ! k @ b) \<and> relink (set (qs ! k)) s s'"
    if "queue_at s l (qs ! k)" for l using push_back_batch_ok[OF that m] by blast
  have "distinct b" using m(1) by (simp add: queue_at_def holds_def)
  then show "distinct (concat (qs[k := qs ! k @ b]))"
    using rt k' d disj by (intro distinct_concat_upd[where X = "set b"]) (auto simp: runtime_def distinct_concat_iff)
qed (use rt k runtime_disjoint in blast)

lemma runtime_shared: "runtime s ep e wps qs \<Longrightarrow> RuntimeSharedData_get s = Inr \<lparr>s_epoch = ep, worker_ptrs = wps\<rparr>"
  by (simp add: runtime_def RuntimeSharedData_get_def deref_shared_Inr get_global_def)

lemma relink_runtime:
  assumes "relink A s s'" "A \<inter> set (concat qs) = {}" "runtime s ep e wps qs"
  shows "runtime s' ep e wps qs"
proof -
  have "A \<inter> set (qs ! k) = {}" if "k < length wps" for k
  proof -
    have "qs ! k \<in> set qs" using that assms(3) by (simp add: runtime_def)
    then show ?thesis using assms(2) unfolding set_concat by blast
  qed
  then have "worker_at s' ep wps qs k" if "k < length wps" for k
    using that assms(1,3) queue_at_frame[OF assms(1)] by (fastforce simp: runtime_def worker_at_def)
  then show ?thesis using assms(1,3) by (simp add: runtime_def)
qed

end
