(* ===== verification/Wake.thy ===== *)
theory Wake
  imports Runtime_View
begin

text \<open>
  What \<open>Task::wake\<close>, \<open>BatchGuard::push_batch\<close> and the rest of \<open>batch.rs\<close> do to the queues.
\<close>

section \<open>Waking a task\<close>

lemma status_3: "(0 :: u8) OR (MUTED OR NOTIFIED) = 3" "(0 :: u8) AND (MUTED OR DROPPED) = 0"
  by (simp_all add: status_bits)

lemma wake_idle_unfold:
  assumes "is_task s t" "t_status (task_at s t) = 0"
  shows "wake i t s =
    (let s1 = with_hdr t (\<lambda>t. t\<lparr>t_status := t_status t OR (MUTED OR NOTIFIED)\<rparr>) s; wid = t_worker_id (task_at s t)
     in bind_r (RuntimeLocalData_get i s1) (\<lambda>local.
           case local of
             Some (a, d) \<Rightarrow>
               bind_r (get_unchecked (task_lists d) (unat wid)) (\<lambda>l.
               bind_r (push_back l t s1) (\<lambda>(l, s).
                 Inr (store a (Obj_local (d\<lparr>task_lists := (task_lists d)[unat wid := l]\<rparr>)) s)))
           | None \<Rightarrow>
               bind_r (RuntimeSharedData_get s1) (\<lambda>shared.
               bind_r (get_unchecked (worker_ptrs shared) (unat wid)) (\<lambda>worker.
               bind_r (on_queue worker (\<lambda>l. push_back l t) s1) (\<lambda>s.
                 next_epoch_at (s_epoch shared) s)))))"
  using assms by (simp add: wake_def is_task_deref modify_task_with_hdr get_worker_id_def Let_def)

lemma wake_idle_direct_ok:
  assumes rt: "runtime s ep e wps qs" and t: "is_task s t" "t \<notin> set (concat qs)"
    and st: "t_status (task_at s t) = 0" and loc: "LOCAL s i = null"
    and k: "k = unat (t_worker_id (task_at s t))" "k < length wps"
  shows "\<exists>s'. wake i t s = Inr s' \<and> runtime s' ep (e + EPOCH) wps (qs[k := qs ! k @ [t]]) \<and>
    t_status (task_at s' t) = MUTED OR NOTIFIED \<and> t_rc (task_at s' t) = t_rc (task_at s t) \<and>
    events s' = events s @ (if active_count e = 0 then [Unpark_all ep] else []) \<and>
    (\<forall>u. is_task s u \<and> u \<noteq> t \<longrightarrow> (task_at s' u)\<lparr>t_next := null\<rparr> = (task_at s u)\<lparr>t_next := null\<rparr>) \<and>
    touches (set (qs ! k)) {ep, wps ! k} (with_hdr t (\<lambda>t. t\<lparr>t_status := t_status t OR (MUTED OR NOTIFIED)\<rparr>) s) s'"
proof -
  let ?s1 = "with_hdr t (\<lambda>t. t\<lparr>t_status := t_status t OR (MUTED OR NOTIFIED)\<rparr>) s"
  have rt1: "runtime ?s1 ep e wps qs" using rt t(1) by (simp add: with_hdr_runtime)
  have t1: "is_task ?s1 t" using t by simp
  from on_queue_push_back[OF rt1 k(2) t1 t(2)] obtain s2 where
    s2: "on_queue (wps ! k) (\<lambda>l. push_back l t) ?s1 = Inr s2" "runtime s2 ep e wps (qs[k := qs ! k @ [t]])" "keeps ?s1 s2"
      "touches (set (qs ! k)) {wps ! k} ?s1 s2" by blast
  from next_epoch_at_ok[OF s2(2)] obtain s3 where
    s3: "next_epoch_at ep s2 = Inr s3" "runtime s3 ep (e + EPOCH) wps (qs[k := qs ! k @ [t]])"
      "events s3 = events s2 @ epoch_events ep e" "keeps (s2\<lparr>events := events s3\<rparr>) s3" "touches {} {ep} s2 s3" by blast
  have "wake i t s = Inr s3"
    using k loc s2(1) s3(1)
    by (simp add: wake_idle_unfold[OF t(1) st] RuntimeLocalData_get_def get_local_def runtime_shared[OF rt1]
        get_unchecked_def Let_def)
  moreover have "t_status (task_at s3 t) = MUTED OR NOTIFIED" "t_rc (task_at s3 t) = t_rc (task_at s t)"
    using keeps_task[OF s2(3) t1] keeps_task[OF s3(4), of t] t s2(3) st by (auto simp: keeps_def)
  moreover have "\<forall>u. is_task s u \<and> u \<noteq> t \<longrightarrow> (task_at s3 u)\<lparr>t_next := null\<rparr> = (task_at s u)\<lparr>t_next := null\<rparr>"
    using s2(3) s3(4) t by (auto simp: keeps_def)
  moreover have "events s3 = events s @ (if active_count e = 0 then [Unpark_all ep] else [])"
    using s3(3) s2(3) by (simp add: keeps_def epoch_events_def)
  moreover have "touches (set (qs ! k)) {ep, wps ! k} ?s1 s3" using touches_trans[OF s2(4) s3(5)] by simp
  ultimately show ?thesis using s3(2) by blast
qed

text \<open>
  C35: waking an idle task from a thread without a batch.  The task becomes \<open>MUTED | NOTIFIED\<close> and is
  appended to the queue of the worker it last ran on; the epoch moves on by one, and the parked
  workers are released exactly if no worker was active.  Nothing else changes.
\<close>

theorem wake_idle_direct:
  assumes rt: "runtime s ep e wps qs" and t: "is_task s t" "t \<notin> set (concat qs)"
    and st: "t_status (task_at s t) = 0" and loc: "LOCAL s i = null"
    and k: "k = unat (t_worker_id (task_at s t))" "k < length wps"
  shows "\<exists>s'. wake i t s = Inr s' \<and> runtime s' ep (e + EPOCH) wps (qs[k := qs ! k @ [t]]) \<and>
    t_status (task_at s' t) = MUTED OR NOTIFIED \<and> t_rc (task_at s' t) = t_rc (task_at s t) \<and>
    events s' = events s @ (if active_count e = 0 then [Unpark_all ep] else []) \<and>
    (\<forall>u. is_task s u \<and> u \<noteq> t \<longrightarrow> (task_at s' u)\<lparr>t_next := null\<rparr> = (task_at s u)\<lparr>t_next := null\<rparr>)"
  using wake_idle_direct_ok[OF assms] by blast

text \<open>
  Waking a task that is queued, running or dropped only sets its \<open>MUTED\<close> and \<open>NOTIFIED\<close> bits: it
  is in no queue afterwards that it was not in before.
\<close>

lemma wake_not_idle:
  assumes rt: "runtime s ep e wps qs" and t: "is_task s t" and st: "t_status (task_at s t) AND (MUTED OR DROPPED) \<noteq> 0"
  shows "\<exists>s'. wake i t s = Inr s' \<and> runtime s' ep e wps qs \<and> events s' = events s \<and> is_task s' = is_task s \<and>
    task_at s' = (task_at s)(t := (task_at s t)\<lparr>t_status := t_status (task_at s t) OR (MUTED OR NOTIFIED)\<rparr>)"
proof -
  let ?s = "with_hdr t (\<lambda>t. t\<lparr>t_status := t_status t OR (MUTED OR NOTIFIED)\<rparr>) s"
  have "wake i t s = Inr ?s" using t st by (simp add: wake_def is_task_deref modify_task_with_hdr Let_def)
  moreover have "runtime ?s ep e wps qs" using rt t by (simp add: with_hdr_runtime)
  ultimately show ?thesis using t by simp
qed

section \<open>Batches\<close>

text \<open>
  \<open>batch s i b bs\<close>: thread \<open>i\<close> has its batches at address \<open>b\<close>; \<open>bs\<close> are the tasks it holds back,
  by worker.
\<close>

definition batch :: "'f rt \<Rightarrow> tid \<Rightarrow> addr \<Rightarrow> addr list list \<Rightarrow> bool" where
  "batch s i b bs \<longleftrightarrow> LOCAL s i = b \<and> b \<noteq> null \<and> distinct (concat bs) \<and>
     (\<exists>d. mem s b = Some (Init (Obj_local d)) \<and> list_all2 (queue_at s) (task_lists d) bs)"

lemma map2_take_upd:
  assumes "k < length qs"
  shows "take (Suc k) (qs[k := qs ! k @ b]) @ map2 (@) (drop (Suc k) qs) bs = take k qs @ map2 (@) (drop k qs) (b # bs)"
proof -
  have "drop k qs = qs ! k # drop (Suc k) qs" using assms by (simp add: Cons_nth_drop_Suc)
  then show ?thesis using assms by (simp add: take_Suc_conv_app_nth)
qed

lemma push_lists_ok:
  assumes "runtime s ep e wps qs" "list_all2 (queue_at s) ls bs" "k + length ls = length wps"
    and "distinct (concat bs)" "set (concat qs) \<inter> set (concat bs) = {}"
  shows "\<exists>s'. push_lists \<lparr>s_epoch = ep, worker_ptrs = wps\<rparr> k ls em s =
      Inr (replicate (length ls) TaskList_new, em \<and> (\<forall>b\<in>set bs. b = []), s') \<and>
    runtime s' ep e wps (take k qs @ map2 (@) (drop k qs) bs) \<and> keeps s s' \<and>
    touches (set (concat qs) \<union> set (concat bs)) (set wps) s s'"
  using assms
proof (induction ls arbitrary: bs k em s qs)
  case Nil
  then show ?case by (simp add: runtime_def)
next
  case (Cons l ls)
  then obtain b cs where bs: "bs = b # cs" "queue_at s l b" "list_all2 (queue_at s) ls cs" by (cases bs) auto
  have k: "k < length qs" "k < length wps" using Cons.prems(1,3) by (auto simp: runtime_def)
  note upd = map2_take_upd[OF k(1), of b cs]
  show ?case
  proof (cases "b = []")
    case True
    have "\<exists>s'. push_lists \<lparr>s_epoch = ep, worker_ptrs = wps\<rparr> (Suc k) ls em s =
      Inr (replicate (length ls) TaskList_new, em \<and> (\<forall>b\<in>set cs. b = []), s') \<and>
      runtime s' ep e wps (take (Suc k) qs @ map2 (@) (drop (Suc k) qs) cs) \<and> keeps s s' \<and>
      touches (set (concat qs) \<union> set (concat cs)) (set wps) s s'"
      by (rule Cons.IH) (use Cons.prems bs True in auto)
    then show ?thesis using bs True upd is_empty_iff[OF bs(2)] k by fastforce
  next
    case False
    have disj: "set (concat qs) \<inter> set b = {}" "set b \<inter> set (concat cs) = {}" using Cons.prems(4,5) bs(1) by auto
    from on_queue_push_back_batch[OF Cons.prems(1) k(2) bs(2) False disj(1)] obtain s1 where
      s1: "on_queue (wps ! k) (\<lambda>m. push_back_batch m l) s = Inr s1" "runtime s1 ep e wps (qs[k := qs ! k @ b])"
        "keeps s s1" "touches (set (qs ! k)) {wps ! k} s s1" by blast
    have sub: "set (concat (qs[k := qs ! k @ b])) \<subseteq> set (concat qs) \<union> set b"
      using set_update_subset_insert[of qs k "qs ! k @ b"] nth_mem[OF k(1)] by (fastforce simp: subset_iff)
    have cs: "list_all2 (queue_at s1) ls cs"
    proof (rule list_all2_all_nthI)
      show "queue_at s1 (ls ! j) (cs ! j)" if "j < length ls" for j
      proof (rule touches_queue[OF s1(4)])
        show "queue_at s (ls ! j) (cs ! j)" using bs(3) that by (simp add: list_all2_conv_all_nth)
        have "cs ! j \<in> set cs" "qs ! k \<in> set qs" using bs(3) that k(1) by (auto simp: list_all2_conv_all_nth)
        then show "set (qs ! k) \<inter> set (cs ! j) = {}" using Cons.prems(5) bs(1) by auto
      qed
    qed (use bs(3) list_all2_lengthD in blast)
    have "\<exists>s'. push_lists \<lparr>s_epoch = ep, worker_ptrs = wps\<rparr> (Suc k) ls False s1 =
      Inr (replicate (length ls) TaskList_new, False \<and> (\<forall>b\<in>set cs. b = []), s') \<and>
      runtime s' ep e wps (take (Suc k) (qs[k := qs ! k @ b]) @ map2 (@) (drop (Suc k) (qs[k := qs ! k @ b])) cs) \<and> keeps s1 s' \<and>
      touches (set (concat (qs[k := qs ! k @ b])) \<union> set (concat cs)) (set wps) s1 s'"
    proof (rule Cons.IH[OF s1(2) cs])
      note sub
      moreover have "set (concat qs) \<inter> set (concat cs) = {}" using Cons.prems(5) bs(1) by auto
      ultimately show "set (concat (qs[k := qs ! k @ b])) \<inter> set (concat cs) = {}" using disj(2) by blast
    qed (use Cons.prems bs in auto)
    then obtain s2 where "push_lists \<lparr>s_epoch = ep, worker_ptrs = wps\<rparr> (Suc k) ls False s1 =
        Inr (replicate (length ls) TaskList_new, False, s2)"
      "runtime s2 ep e wps (take k qs @ map2 (@) (drop k qs) (b # cs))" "keeps s1 s2"
      and t2: "touches (set (concat (qs[k := qs ! k @ b])) \<union> set (concat cs)) (set wps) s1 s2" using upd by auto
    moreover have "touches (set (concat qs) \<union> set (concat bs)) (set wps) s s2"
      by (rule touches_mono[OF touches_trans[OF s1(4) t2]]) (use sub bs(1) k nth_mem[OF k(1)] in auto)
    ultimately show ?thesis using bs False s1(1) keeps_trans[OF s1(3)] is_empty_iff[OF bs(2)] k
      by (auto simp: pop_all_eq get_unchecked_def)
  qed
qed

lemma store_local_ok:
  assumes rt: "runtime s ep e wps qs" and b: "b \<noteq> null" "mem s b = Some (Init (Obj_local d))" "LOCAL s i = b"
    and ls: "list_all2 (queue_at s) (task_lists d') bs" "distinct (concat bs)"
  shows "runtime (store b (Obj_local d') s) ep e wps qs \<and> batch (store b (Obj_local d') s) i b bs \<and>
    is_task (store b (Obj_local d') s) = is_task s \<and> (\<forall>t. is_task s t \<longrightarrow> task_at (store b (Obj_local d') s) t = task_at s t)"
proof -
  let ?s = "store b (Obj_local d') s"
  have nt: "\<not> is_task s b" using b(2) by simp
  have q: "queue_at ?s l xs" if "queue_at s l xs" for l xs
    using that queue_tasks[OF that] nt by (subst queue_at_cong) (auto simp: store_def)
  have "worker_at ?s ep wps qs k" if "k < length wps" for k
    using rt that q b(2) unfolding runtime_def worker_at_def by (fastforce simp: store_def)
  then have "runtime ?s ep e wps qs" using rt b(2) by (auto simp: runtime_def store_def)
  moreover have "batch ?s i b bs"
    using b ls list_all2_mono[OF ls(1) q] by (auto simp: batch_def store_def)
  ultimately show ?thesis using b(2) by (auto simp: is_task_def task_at_def store_def fun_eq_iff)
qed

lemma wake_idle_batch_ok:
  assumes rt: "runtime s ep e wps qs" and ba: "batch s i b bs" and t: "is_task s t" "t \<notin> set (concat bs)"
    and st: "t_status (task_at s t) = 0" and k: "k = unat (t_worker_id (task_at s t))" "k < length bs"
    and disj: "set (concat qs) \<inter> set (concat bs) = {}"
  shows "\<exists>s'. wake i t s = Inr s' \<and> runtime s' ep e wps qs \<and> batch s' i b (bs[k := bs ! k @ [t]]) \<and>
    t_status (task_at s' t) = MUTED OR NOTIFIED \<and> events s' = events s \<and>
    (\<exists>d s1. s' = store b (Obj_local d) s1 \<and> touches (set (bs ! k)) {} (with_hdr t (\<lambda>t. t\<lparr>t_status := t_status t OR (MUTED OR NOTIFIED)\<rparr>) s) s1)"
proof -
  let ?s1 = "with_hdr t (\<lambda>t. t\<lparr>t_status := t_status t OR (MUTED OR NOTIFIED)\<rparr>) s"
  have rt1: "runtime ?s1 ep e wps qs" using rt t(1) by (simp add: with_hdr_runtime)
  obtain d where d: "LOCAL s i = b" "b \<noteq> null" "distinct (concat bs)" "mem s b = Some (Init (Obj_local d))"
    "list_all2 (queue_at s) (task_lists d) bs" using ba by (auto simp: batch_def)
  have q: "queue_at ?s1 (task_lists d ! j) (bs ! j)" if "j < length bs" for j
    using d(5) t(1) that by (simp add: with_hdr_queue list_all2_conv_all_nth)
  have len: "length (task_lists d) = length bs" using d(5) by (rule list_all2_lengthD)
  have bk: "bs ! k \<in> set bs" "t \<notin> set (bs ! k)" using k(2) t(2) nth_mem[OF k(2)] by auto
  from push_back_ok[OF q[OF k(2)] _ bk(2)] t(1) obtain l s2 where
    s2: "push_back (task_lists d ! k) t ?s1 = Inr (l, s2)" "queue_at s2 l (bs ! k @ [t])" "relink (set (bs ! k)) ?s1 s2"
    by auto
  have "set (bs ! k) \<inter> set (concat qs) = {}" using disj bk(1) unfolding set_concat by blast
  then have rt2: "runtime s2 ep e wps qs" using rt1 by (rule relink_runtime[OF s2(3)])
  let ?ls = "(task_lists d)[k := l]" and ?bs = "bs[k := bs ! k @ [t]]"
  have "list_all2 (queue_at s2) ?ls ?bs"
  proof (rule list_all2_all_nthI)
    show "queue_at s2 (?ls ! j) (?bs ! j)" if "j < length ?ls" for j
      using that s2(2) len k(2) q[of j] queue_at_frame[OF s2(3) concat_disjoint[OF d(3), of j k]]
      by (cases "j = k") (auto simp: len)
  qed (simp add: len)
  moreover have "distinct (concat ?bs)"
    using d(3) k(2) t(2) bk by (intro distinct_concat_upd[where X = "{t}"]) (auto simp: distinct_concat_iff)
  moreover have m2: "mem s2 b = Some (Init (Obj_local d))" "LOCAL s2 i = b" using d s2(3) by simp_all
  ultimately have fin: "runtime (store b (Obj_local (d\<lparr>task_lists := ?ls\<rparr>)) s2) ep e wps qs \<and>
      batch (store b (Obj_local (d\<lparr>task_lists := ?ls\<rparr>)) s2) i b ?bs \<and>
      (\<forall>u. is_task s2 u \<longrightarrow> task_at (store b (Obj_local (d\<lparr>task_lists := ?ls\<rparr>)) s2) u = task_at s2 u)"
    using store_local_ok[OF rt2 d(2) m2, of "d\<lparr>task_lists := ?ls\<rparr>" ?bs] by simp
  have t2: "is_task s2 t" "t_status (task_at s2 t) = MUTED OR NOTIFIED"
    using t(1) st s2(3) keeps_task(1)[OF relink_keeps[OF s2(3)], of t] by simp_all
  have "deref_local b ?s1 = Inr d" using d by (simp add: deref_local_Inr)
  then have "wake i t s = Inr (store b (Obj_local (d\<lparr>task_lists := ?ls\<rparr>)) s2)"
    using d(1,2) k len s2(1)
    by (simp add: wake_idle_unfold[OF t(1) st] RuntimeLocalData_get_def get_local_def get_unchecked_def Let_def)
  moreover have "t_status (task_at (store b (Obj_local (d\<lparr>task_lists := ?ls\<rparr>)) s2) t) = MUTED OR NOTIFIED" using fin t2 by simp
  ultimately show ?thesis using fin relink_touches[OF s2(3)] s2(3)
    by (intro exI[of _ "store b (Obj_local (d\<lparr>task_lists := ?ls\<rparr>)) s2"]) (auto simp: store_def)
qed

text \<open>
  Waking an idle task from a reactor thread that batches.  The task becomes \<open>MUTED | NOTIFIED\<close>
  and is appended to the thread's batch for the worker it last ran on; no queue changes, no worker is
  woken and the epoch stays.
\<close>

lemma wake_idle_batch:
  assumes rt: "runtime s ep e wps qs" and ba: "batch s i b bs" and t: "is_task s t" "t \<notin> set (concat bs)"
    and st: "t_status (task_at s t) = 0" and k: "k = unat (t_worker_id (task_at s t))" "k < length bs"
    and disj: "set (concat qs) \<inter> set (concat bs) = {}"
  shows "\<exists>s'. wake i t s = Inr s' \<and> runtime s' ep e wps qs \<and> batch s' i b (bs[k := bs ! k @ [t]]) \<and>
    t_status (task_at s' t) = MUTED OR NOTIFIED \<and> events s' = events s"
  using wake_idle_batch_ok[OF assms] by blast

lemma list_all2_new: "list_all2 (queue_at s) (replicate n TaskList_new) (replicate n [])"
  by (simp add: list_all2_conv_all_nth)

lemma concat_replicate_Nil [simp]: "concat (replicate n []) = []"
  by (induction n) auto

lemma batch_local: "batch s i b bs \<Longrightarrow> keeps s s' \<Longrightarrow> mem s b = Some (Init (Obj_local d)) \<Longrightarrow>
    LOCAL s' i = b \<and> b \<noteq> null \<and> mem s' b = Some (Init (Obj_local d))"
  by (simp add: batch_def keeps_def)

lemma keeps_batch: "keeps (s\<lparr>events := events s'\<rparr>) s' \<Longrightarrow> batch s i b (replicate n []) \<Longrightarrow> batch s' i b (replicate n [])"
  by (auto simp: batch_def keeps_def list_all2_conv_all_nth)

lemma push_batch_ok:
  assumes rt: "runtime s ep e wps qs" and ba: "batch s i b bs" and len: "length bs = length wps"
    and disj: "set (concat qs) \<inter> set (concat bs) = {}"
  shows "\<exists>s'. push_batch i s = Inr s' \<and> batch s' i b (replicate (length wps) []) \<and>
    runtime s' ep (if concat bs = [] then e else e + EPOCH) wps (map2 (@) qs bs) \<and>
    events s' = events s @ (if concat bs \<noteq> [] \<and> active_count e = 0 then [Unpark_all ep] else []) \<and>
    (\<exists>d s1. touches (set (concat qs) \<union> set (concat bs)) (set wps) s s1 \<and> mem s1 b = mem s b \<and>
      touches {} {ep} (store b (Obj_local d) s1) s')"
proof -
  obtain d where d: "LOCAL s i = b" "b \<noteq> null" "distinct (concat bs)" "mem s b = Some (Init (Obj_local d))"
    "list_all2 (queue_at s) (task_lists d) bs" using ba by (auto simp: batch_def)
  have ld: "length (task_lists d) = length wps" using list_all2_lengthD[OF d(5)] len by simp
  from push_lists_ok[OF rt d(5) _ d(3) disj, of 0 True] ld obtain s1 where
    s1: "push_lists \<lparr>s_epoch = ep, worker_ptrs = wps\<rparr> 0 (task_lists d) True s =
        Inr (replicate (length wps) TaskList_new, concat bs = [], s1)"
      "runtime s1 ep e wps (map2 (@) qs bs)" "keeps s s1"
      "touches (set (concat qs) \<union> set (concat bs)) (set wps) s s1" by auto
  let ?d = "d\<lparr>task_lists := replicate (length wps) TaskList_new\<rparr>"
  let ?s = "store b (Obj_local ?d) s1"
  have l1: "LOCAL s1 i = b" "mem s1 b = Some (Init (Obj_local d))" using batch_local[OF ba s1(3) d(4)] by auto
  have "runtime ?s ep e wps (map2 (@) qs bs)" and bas: "batch ?s i b (replicate (length wps) [])"
    using store_local_ok[OF s1(2) d(2) l1(2,1), of ?d "replicate (length wps) []"] by (auto simp: list_all2_new)
  note ne = next_epoch_at_ok[OF this(1)]
  have ev: "events ?s = events s" using s1(3) by (simp add: store_def keeps_def)
  have "push_batch i s = (if concat bs = [] then Inr ?s else next_epoch_at ep ?s)"
    using d(1,2,4) s1(1)
    by (simp add: push_batch_def runtime_shared[OF rt] RuntimeLocalData_get_unchecked_def get_local_def
        deref_local_def deref_def Let_def)
  note eq = this
  have m: "mem s1 b = mem s b" using l1(2) d(4) by simp
  have mv: "\<exists>d s1. touches (set (concat qs) \<union> set (concat bs)) (set wps) s s1 \<and> mem s1 b = mem s b \<and>
      touches {} {ep} (store b (Obj_local d) s1) u" if "touches {} {ep} ?s u" for u
    using s1(4) m that by blast
  show ?thesis
  proof (cases "concat bs = []")
    case True
    then show ?thesis using eq \<open>runtime ?s ep e wps (map2 (@) qs bs)\<close> bas ev mv[OF touches_refl] by auto
  next
    case False
    from ne obtain s2 where s2: "next_epoch_at ep ?s = Inr s2" "runtime s2 ep (e + EPOCH) wps (map2 (@) qs bs)"
      "events s2 = events ?s @ epoch_events ep e" "keeps (?s\<lparr>events := events s2\<rparr>) s2" "touches {} {ep} ?s s2" by blast
    then show ?thesis using eq keeps_batch[OF s2(4) bas] ev mv[OF s2(5)] False by (auto simp: epoch_events_def)
  qed
qed

text \<open>
  \<open>push_batch\<close> hands every held back task over exactly once and in order.  Each worker's queue is
  extended by the thread's batch for it, the batches are empty afterwards, and there is one
  \<open>next_epoch\<close> for all of them, or none if there was nothing to push.
\<close>

lemma push_batch_flushes:
  assumes rt: "runtime s ep e wps qs" and ba: "batch s i b bs" and len: "length bs = length wps"
    and disj: "set (concat qs) \<inter> set (concat bs) = {}"
  shows "\<exists>s'. push_batch i s = Inr s' \<and> batch s' i b (replicate (length wps) []) \<and>
    runtime s' ep (if concat bs = [] then e else e + EPOCH) wps (map2 (@) qs bs) \<and>
    events s' = events s @ (if concat bs \<noteq> [] \<and> active_count e = 0 then [Unpark_all ep] else [])"
  using push_batch_ok[OF assms] by blast

section \<open>An example state\<close>

text \<open>
  Two workers, one task in the queue of the second one, one idle task, one task in the batch of
  reactor thread 2; thread 3 is an ordinary thread.
\<close>

definition example_task :: "u8 \<Rightarrow> usize \<Rightarrow> Task" where
  "example_task st r = \<lparr>t_status = st, t_rc = r, t_next = null, t_worker_id = 1\<rparr>"

definition example_worker :: "TaskList \<Rightarrow> addr \<Rightarrow> u32 \<Rightarrow> Worker" where
  "example_worker l other i = \<lparr>task_list = l, w_seed = 1, n_workers = 2, w_epoch = 2, other_workers = [other],
     w_shutdown = False, worker_id = i\<rparr>"

definition example_rt :: "unit rt" where
  "example_rt = \<lparr>
     mem = [1 \<mapsto> Init (Obj_shared \<lparr>s_epoch = 2, worker_ptrs = [3, 4]\<rparr>),
            2 \<mapsto> Init (Obj_epoch 2560),
            3 \<mapsto> Init (Obj_worker (example_worker TaskList_new 4 0)),
            4 \<mapsto> Init (Obj_worker (example_worker \<lparr>head = 5, tail = 5\<rparr> 3 1)),
            5 \<mapsto> Init (TaskInner (example_task 3 1) ()),
            6 \<mapsto> Init (TaskInner (example_task 0 2) ()),
            7 \<mapsto> Init (Obj_local \<lparr>task_lists = [TaskList_new, \<lparr>head = 8, tail = 8\<rparr>]\<rparr>),
            8 \<mapsto> Init (TaskInner (example_task 3 1) ())],
     GLOBAL = 1, LOCAL = (\<lambda>_. null)(0 := 3, 1 := 4, 2 := 7), events = []\<rparr>"

lemma example_objects:
  "is_task example_rt 6" "task_at example_rt 6 = example_task 0 2" "is_task example_rt 5"
  "task_at example_rt 5 = example_task 3 1" "is_task example_rt 8"
  "LOCAL example_rt 0 = 3" "LOCAL example_rt 2 = 7" "LOCAL example_rt 3 = null"
  by (simp_all add: example_rt_def is_task_def task_at_def)

lemma example_queue: "queue_at example_rt \<lparr>head = 5, tail = 5\<rparr> [5]" "queue_at example_rt \<lparr>head = 8, tail = 8\<rparr> [8]"
  by (simp_all add: queue_at_single example_objects)

lemma example_runtime: "runtime example_rt 2 2560 [3, 4] [[], [5]]"
proof -
  have "worker_at example_rt 2 [3, 4] [[], [5]] 0"
    by (simp add: worker_at_def example_rt_def worker_ok_def example_worker_def)
  moreover have "worker_at example_rt 2 [3, 4] [[], [5]] (Suc 0)"
    using example_queue(1) by (simp add: worker_at_def worker_ok_def) (simp add: example_rt_def example_worker_def)
  ultimately have "\<forall>k<length [3, 4 :: nat]. worker_at example_rt 2 [3, 4] [[], [5]] k"
    by (auto simp: less_Suc_eq)
  then show ?thesis unfolding runtime_def by (simp add: example_rt_def)
qed

lemma example_batch: "batch example_rt 2 7 [[], [8]]"
  unfolding batch_def using example_queue(2) by (simp add: example_rt_def)

theorem wake_idle_direct_witness:
  "\<exists>s'. wake 3 6 example_rt = Inr s' \<and> runtime s' 2 (2560 + EPOCH) [3, 4] ([[], [5]][1 := [5] @ [6]]) \<and>
    t_status (task_at s' 6) = MUTED OR NOTIFIED \<and> events s' = [Unpark_all 2]"
proof -
  have "active_count 2560 = 0" by (simp add: active_count_eq_0)
  then show ?thesis
    using wake_idle_direct[OF example_runtime, of 6 3 1] 
    by (simp add: example_objects example_task_def) (auto simp: example_rt_def)
qed

lemma wake_not_idle_example:
  "\<exists>s'. wake 3 5 example_rt = Inr s' \<and> runtime s' 2 2560 [3, 4] [[], [5]] \<and> events s' = events example_rt"
  using wake_not_idle[OF example_runtime, of 5 3] by (auto simp: example_objects example_task_def status_bits)

lemma wake_idle_batch_example:
  "\<exists>s'. wake 2 6 example_rt = Inr s' \<and> runtime s' 2 2560 [3, 4] [[], [5]] \<and> batch s' 2 7 ([[], [8]][1 := [8] @ [6]])"
  using wake_idle_batch[OF example_runtime example_batch, of 6 1] by (auto simp: example_objects example_task_def)

lemma push_batch_flushes_example:
  "\<exists>s'. push_batch 2 example_rt = Inr s' \<and> batch s' 2 7 [[], []] \<and>
     runtime s' 2 (2560 + EPOCH) [3, 4] [[], [5, 8]]"
  using push_batch_flushes[OF example_runtime example_batch] by (auto simp: numeral_2_eq_2)

end
