(* ===== verification/Worker.thy ===== *)
theory Worker
  imports Wake Rng
begin

text \<open>
  The operations of a worker as sequential code (\<open>yaay-mt-runtime/src/worker.rs\<close>).  \<open>i\<close> is the
  thread that runs an operation, \<open>a\<close> the address of a worker (\<open>&mut self\<close>), \<open>ps\<close> are results of the
  allocator.  The main loop is in theory \<open>Scheduler\<close>.
\<close>

section \<open>Definitions\<close>

definition Worker_new :: "int \<Rightarrow> u32 \<Rightarrow> u32 \<Rightarrow> addr \<Rightarrow> addr list \<Rightarrow> Worker res" where
  "Worker_new now_micros wid n ep others =
     bind_r (seed_from_system_time now_micros) (\<lambda>seed.
       Inr \<lparr>task_list = TaskList_new, w_seed = seed, n_workers = n, w_epoch = ep,
         other_workers = others, w_shutdown = False, worker_id = wid\<rparr>)"

definition Worker_set :: "tid \<Rightarrow> addr \<Rightarrow> 'f rt \<Rightarrow> 'f rt" where
  "Worker_set i worker s = set_local i worker s"

definition Worker_get :: "tid \<Rightarrow> 'f rt \<Rightarrow> (addr \<times> Worker) res" where
  "Worker_get i s = (let a = get_local i s in bind_r (deref_worker a s) (\<lambda>w. Inr (a, w)))"

definition defer_w :: "addr \<Rightarrow> addr \<Rightarrow> 'f rt \<Rightarrow> 'f rt res" where
  "defer_w a task s = on_queue a (\<lambda>l. push_front l task) s"

definition set_seed :: "addr \<Rightarrow> u32 \<Rightarrow> 'f rt \<Rightarrow> 'f rt res" where
  "set_seed a seed s = bind_r (deref_worker a s) (\<lambda>w. Inr (store a (Obj_worker (w\<lparr>w_seed := seed\<rparr>)) s))"

definition spawn_w :: "addr \<Rightarrow> addr \<Rightarrow> 'f rt \<Rightarrow> 'f rt res" where
  "spawn_w a task s =
     bind_r (deref_worker a s) (\<lambda>w.
     bind_r (mod_checked (w_seed w) (n_workers w)) (\<lambda>target.
     let target_index = unat target in
     bind_r (set_seed a (next_seed (w_seed w)) s) (\<lambda>s.
       if target_index + 1 \<noteq> unat (n_workers w) then
         bind_r (get_unchecked (other_workers w) target_index) (\<lambda>target.
         bind_r (on_queue target (\<lambda>l. push_back l task) s) (\<lambda>s.
           next_epoch_at (w_epoch w) s))
       else on_queue a (\<lambda>l. push_back l task) s)))"

definition rng_gen_w :: "addr \<Rightarrow> 'f rt \<Rightarrow> (u32 \<times> 'f rt) res" where
  "rng_gen_w a s =
     bind_r (deref_worker a s) (\<lambda>w.
     let seed = w_seed w in
     bind_r (set_seed a (next_seed seed) s) (\<lambda>s. Inr (seed, s)))"

text \<open>\<open>task_list.lock().pop_front()\<close> on a worker.\<close>

definition pop_queue :: "addr \<Rightarrow> 'f rt \<Rightarrow> (addr option \<times> 'f rt) res" where
  "pop_queue a s =
     bind_r (deref_worker a s) (\<lambda>w.
     bind_r (pop_front (task_list w) s) (\<lambda>(r, l). Inr (r, store a (Obj_worker (w\<lparr>task_list := l\<rparr>)) s)))"

definition try_steal :: "addr \<Rightarrow> 'f rt \<Rightarrow> (addr option \<times> 'f rt) res" where
  "try_steal a s =
     bind_r (deref_worker a s) (\<lambda>w.
     let seed = w_seed w in
     bind_r (sub_checked (n_workers w) 1) (\<lambda>m.
     bind_r (mod_checked seed m) (\<lambda>index.
     bind_r (get_unchecked (other_workers w) (unat index)) (\<lambda>victim.
     bind_r (deref_worker victim s) (\<lambda>v.
     bind_r (if is_empty (task_list v) then Inr (None, s) else pop_queue victim s) (\<lambda>(task, s).
       case task of
         Some t \<Rightarrow> bind_r (set_worker_id t (worker_id w) s) (\<lambda>s. Inr (Some t, s))
       | None \<Rightarrow> bind_r (set_seed a (next_seed seed) s) (\<lambda>s. Inr (None, s))))))))"

text \<open>
  \<open>Shutdown::poll\<close>: the loop over the other workers; \<open>ps\<close> are the addresses \<open>Task::new\<close> gets, one
  per worker, and \<open>fut\<close> is the \<open>Shutdown()\<close> future.
\<close>

fun shutdown_others :: "'f \<Rightarrow> addr list \<Rightarrow> addr list \<Rightarrow> 'f rt \<Rightarrow> 'f rt res" where
  "shutdown_others fut [] ps s = Inr s"
| "shutdown_others fut (x # xs) ps s =
     bind_r (deref_worker x s) (\<lambda>w.
       if \<not> w_shutdown w then
         bind_r (Task_new (hd ps) fut s) (\<lambda>(task, s).
         bind_r (on_queue x (\<lambda>l. push_front l task) s) (\<lambda>s.
           shutdown_others fut xs (tl ps) s))
       else shutdown_others fut xs (tl ps) s)"

definition Shutdown_poll :: "'f \<Rightarrow> addr list \<Rightarrow> tid \<Rightarrow> 'f rt \<Rightarrow> 'f rt res" where
  "Shutdown_poll fut ps i s =
     bind_r (Worker_get i s) (\<lambda>(a, w).
     let s = store a (Obj_worker (w\<lparr>w_shutdown := True\<rparr>)) s in
     bind_r (shutdown_others fut (other_workers w) ps s) (\<lambda>s.
       next_epoch_at (w_epoch w) s))"

section \<open>Spawning and stealing\<close>

text \<open>The seed of worker \<open>k\<close>.\<close>

definition seed_of :: "'f rt \<Rightarrow> addr \<Rightarrow> u32" where
  "seed_of s a = (case mem s a of Some (Init (Obj_worker w)) \<Rightarrow> w_seed w)"

lemma runtime_worker:
  assumes "runtime s ep e wps qs" "k < length wps"
  shows "\<exists>w. deref_worker (wps ! k) s = Inr w \<and> mem s (wps ! k) = Some (Init (Obj_worker w)) \<and> worker_ok ep wps k w \<and>
    w_seed w = seed_of s (wps ! k) \<and> queue_at s (task_list w) (qs ! k) \<and> wps ! k \<noteq> null"
  using assms by (auto simp: runtime_def worker_at_def seed_of_def deref_worker_Inr)

lemma other_nth:
  assumes "k < length wps" "j < length wps - 1"
  shows "(take k wps @ drop (Suc k) wps) ! j = wps ! (if j < k then j else Suc j)"
  using assms by (auto simp: nth_append min_def)

text \<open>Changing private data of a worker.\<close>

lemma store_worker_ok:
  assumes rt: "runtime s ep e wps qs" and k: "k < length wps" and m: "mem s (wps ! k) = Some (Init (Obj_worker w))"
    and w': "worker_ok ep wps k w'" "task_list w' = task_list w"
  shows "runtime (store (wps ! k) (Obj_worker w') s) ep e wps qs"
proof -
  let ?s = "store (wps ! k) (Obj_worker w') s"
  have nt: "\<not> is_task s (wps ! k)" using m by simp
  have q: "queue_at ?s l xs" if "queue_at s l xs" for l xs
    using that queue_tasks[OF that] nt by (subst queue_at_cong) (auto simp: store_def)
  have "worker_at ?s ep wps qs j" if "j < length wps" for j
    using rt that k m w' q by (cases "j = k") (fastforce simp: runtime_def worker_at_def store_def nth_eq_iff_index_eq)+
  then show ?thesis using rt m by (auto simp: runtime_def store_def)
qed

lemma set_seed_ok:
  assumes rt: "runtime s ep e wps qs" and k: "k < length wps"
  shows "\<exists>s'. set_seed (wps ! k) x s = Inr s' \<and> runtime s' ep e wps qs \<and> keeps s s' \<and> seed_of s' (wps ! k) = x \<and>
    touches {} {wps ! k} s s'"
proof -
  obtain w where w: "deref_worker (wps ! k) s = Inr w" "mem s (wps ! k) = Some (Init (Obj_worker w))" "worker_ok ep wps k w"
    using runtime_worker[OF assms] by blast
  let ?s = "store (wps ! k) (Obj_worker (w\<lparr>w_seed := x\<rparr>)) s"
  have "runtime ?s ep e wps qs" by (rule store_worker_ok[OF rt k w(2)]) (use w(3) in \<open>simp_all add: worker_ok_def\<close>)
  then show ?thesis using w store_worker_keeps[OF w(2)] store_touches(1)[OF w(2)] by (auto simp: set_seed_def seed_of_def store_def)
qed

lemma same_private_seed:
  assumes "runtime s ep e wps qs" "k < length wps" "same_private s s'"
  shows "seed_of s' (wps ! k) = seed_of s (wps ! k)"
  using runtime_worker[OF assms(1,2)] assms(3) by (fastforce simp: same_private_def seed_of_def)

text \<open>The queue \<open>spawn\<close> pushes to.\<close>

definition spawn_target :: "nat \<Rightarrow> nat \<Rightarrow> u32 \<Rightarrow> nat" where
  "spawn_target n k seed = (let j = unat seed mod n in if j + 1 = n then k else if j < k then j else j + 1)"

lemma spawn_target_less: "k < n \<Longrightarrow> spawn_target n k seed < n"
  using mod_less_divisor[of n "unat seed"] by (auto simp: spawn_target_def Let_def simp del: mod_less_divisor)

text \<open>
  \<open>spawn\<close> never faults and appends the task to exactly one queue: that of the worker the seed
  picks (the worker itself for the last index).  If it is another worker's, the epoch moves on by one
  and the parked workers are released exactly if none was active; its own queue needs no wake-up.
  Either way the seed is advanced once.
\<close>

lemma spawn_ok:
  assumes rt: "runtime s ep e wps qs" and k: "k < length wps" and t: "is_task s t" "t \<notin> set (concat qs)"
    and j: "j = spawn_target (length wps) k (seed_of s (wps ! k))"
  shows "\<exists>s'. spawn_w (wps ! k) t s = Inr s' \<and>
    runtime s' ep (if j = k then e else e + EPOCH) wps (qs[j := qs ! j @ [t]]) \<and>
    seed_of s' (wps ! k) = next_seed (seed_of s (wps ! k)) \<and> is_task s' = is_task s \<and>
    events s' = events s @ (if j \<noteq> k \<and> active_count e = 0 then [Unpark_all ep] else []) \<and>
    touches (set (concat qs)) (insert ep (set wps)) s s'"
proof -
  obtain w where w: "deref_worker (wps ! k) s = Inr w" "worker_ok ep wps k w" "w_seed w = seed_of s (wps ! k)"
    using runtime_worker[OF rt k] by blast
  let ?n = "length wps" and ?x = "seed_of s (wps ! k)"
  let ?i = "unat ?x mod ?n"
  have n: "unat (n_workers w) = ?n" "n_workers w \<noteq> 0" using w(2) k by (auto simp: worker_ok_def)
  have mod: "mod_checked (w_seed w) (n_workers w) = Inr (?x mod n_workers w)" "unat (?x mod n_workers w) = ?i"
    using n w(3) by (simp_all add: mod_checked_def unat_mod)
  from set_seed_ok[OF rt k, of "next_seed ?x"] obtain s1 where
    s1: "set_seed (wps ! k) (next_seed ?x) s = Inr s1" "runtime s1 ep e wps qs" "keeps s s1" "seed_of s1 (wps ! k) = next_seed ?x"
      "touches {} {wps ! k} s s1" by blast
  have t1: "is_task s1 t" using t(1) s1(3) by (simp add: keeps_def)
  have jn: "j < ?n" using j spawn_target_less[OF k] by simp
  from on_queue_push_back[OF s1(2) jn t1 t(2)] obtain s2 where
    s2: "on_queue (wps ! j) (\<lambda>l. push_back l t) s1 = Inr s2" "runtime s2 ep e wps (qs[j := qs ! j @ [t]])" "keeps s1 s2"
      "same_private s1 s2" "touches (set (qs ! j)) {wps ! j} s1 s2" by blast
  have sd: "seed_of s2 (wps ! k) = next_seed ?x" using same_private_seed[OF s1(2) k s2(4)] s1(4) by simp
  from next_epoch_at_ok[OF s2(2)] obtain s3 where
    s3: "next_epoch_at ep s2 = Inr s3" "runtime s3 ep (e + EPOCH) wps (qs[j := qs ! j @ [t]])"
      "events s3 = events s2 @ epoch_events ep e" "keeps (s2\<lparr>events := events s3\<rparr>) s3" "same_private s2 s3"
      "touches {} {ep} s2 s3" by blast
  have tc: "touches (set (concat qs)) (insert ep (set wps)) s s2" "touches (set (concat qs)) (insert ep (set wps)) s s3"
  proof -
    note sub = runtime_nth[OF rt jn] runtime_nth(2)[OF rt k]
    note t2 = touches_trans[OF s1(5) s2(5)]
    show "touches (set (concat qs)) (insert ep (set wps)) s s2" by (rule touches_mono[OF t2]) (use sub in auto)
    show "touches (set (concat qs)) (insert ep (set wps)) s s3" by (rule touches_mono[OF touches_trans[OF t2 s3(6)]]) (use sub in auto)
  qed
  have tk: "is_task s2 = is_task s" "is_task s3 = is_task s" using s1(3) s2(3) s3(4) by (simp_all add: keeps_def)
  have ev: "events s2 = events s" using s1(3) s2(3) by (simp add: keeps_def)
  show ?thesis
  proof (cases "?i + 1 = ?n")
    case True
    then have "j = k" by (simp add: j spawn_target_def)
    then have "spawn_w (wps ! k) t s = Inr s2"
      using w(1,3) mod n(1) s1(1) s2(1) True by (simp add: spawn_w_def Let_def)
    then show ?thesis using s2(2) sd ev tk tc(1) \<open>j = k\<close> by simp
  next
    case False
    have "?i < ?n" using k by (intro mod_less_divisor) auto
    with False have i: "?i < ?n - 1" by linarith
    have jd: "j = (if ?i < k then ?i else Suc ?i)" "j \<noteq> k" using False j by (auto simp: spawn_target_def Let_def)
    have "get_unchecked (other_workers w) ?i = Inr (wps ! j)"
      using w(2) i k other_nth[OF k i] jd(1) by (simp add: get_unchecked_def worker_ok_def)
    then have "spawn_w (wps ! k) t s = Inr s3"
      using w mod n(1) s1(1) s2(1) s3(1) False by (simp add: spawn_w_def Let_def worker_ok_def)
    then show ?thesis using s3 sd same_private_seed[OF s2(2) k s3(5)] ev tk tc(2) jd(2) by (auto simp: epoch_events_def)
  qed
qed

text \<open>
  \<open>spawn\<close> never faults and appends the task to exactly one queue: that of the worker the seed
  picks (the worker itself for the last index).  If it is another worker's, the epoch moves on by one
  and the parked workers are released exactly if none was active; its own queue needs no wake-up.
  Either way the seed is advanced once.
\<close>

lemma spawn_pushes:
  assumes "runtime s ep e wps qs" and "k < length wps" and "is_task s t" and "t \<notin> set (concat qs)"
    and "j = spawn_target (length wps) k (seed_of s (wps ! k))"
  shows "\<exists>s'. spawn_w (wps ! k) t s = Inr s' \<and>
    runtime s' ep (if j = k then e else e + EPOCH) wps (qs[j := qs ! j @ [t]]) \<and>
    seed_of s' (wps ! k) = next_seed (seed_of s (wps ! k)) \<and> is_task s' = is_task s \<and>
    events s' = events s @ (if j \<noteq> k \<and> active_count e = 0 then [Unpark_all ep] else [])"
  using spawn_ok[OF assms] by blast

fun spawn_all :: "addr \<Rightarrow> addr list \<Rightarrow> 'f rt \<Rightarrow> 'f rt res" where
  "spawn_all a [] s = Inr s"
| "spawn_all a (t # ts) s = bind_r (spawn_w a t s) (spawn_all a ts)"

lemma spawn_target_same: "n dvd 32 \<Longrightarrow> spawn_target n k (next_seed seed) = spawn_target n k seed"
  using next_seed_iter_mod[of n 1 seed] by (simp add: spawn_target_def)

lemma set_concat_upd_append:
  "j < length qs \<Longrightarrow> set (concat (qs[j := qs ! j @ [t]])) = insert t (set (concat qs))"
  using concat_update_Cons[of j qs "qs ! j @ [t]"] concat_update_Cons[of j qs "qs ! j"] by auto

text \<open>
  C38: all tasks a worker spawns go to one queue.  With 1, 2, 4, 8, 16 or 32 workers, however many tasks a
  worker spawns one after the other, they are all appended to the same queue, because \<open>next_seed\<close>
  never changes the low five bits of the seed.
\<close>

theorem spawn_all_one_queue:
  assumes "runtime s ep e wps qs" and "k < length wps" and "length wps dvd 32"
    and "\<forall>t\<in>set ts. is_task s t" and "distinct ts" and "set ts \<inter> set (concat qs) = {}"
    and "j = spawn_target (length wps) k (seed_of s (wps ! k))"
  shows "\<exists>s' e'. spawn_all (wps ! k) ts s = Inr s' \<and> runtime s' ep e' wps (qs[j := qs ! j @ ts])"
  using assms
proof (induction ts arbitrary: s e qs)
  case Nil
  then show ?case by auto
next
  case (Cons t ts)
  have jl: "j < length qs" using Cons.prems spawn_target_less by (simp add: runtime_def)
  from spawn_ok[OF Cons.prems(1,2) _ _ Cons.prems(7), of t] Cons.prems(4,6) obtain s1 e1 where
    s1: "spawn_w (wps ! k) t s = Inr s1" "runtime s1 ep e1 wps (qs[j := qs ! j @ [t]])"
      "seed_of s1 (wps ! k) = next_seed (seed_of s (wps ! k))" "is_task s1 = is_task s" by auto
  have "\<exists>s' e'. spawn_all (wps ! k) ts s1 = Inr s' \<and>
    runtime s' ep e' wps ((qs[j := qs ! j @ [t]])[j := (qs[j := qs ! j @ [t]]) ! j @ ts])"
    by (rule Cons.IH[OF s1(2)])
      (use Cons.prems s1(3,4) spawn_target_same jl in \<open>auto simp: set_concat_upd_append simp del: set_concat\<close>)
  then show ?case using s1(1) jl by simp
qed

text \<open>The victim \<open>try_steal\<close> picks.\<close>

definition steal_victim :: "nat \<Rightarrow> nat \<Rightarrow> u32 \<Rightarrow> nat" where
  "steal_victim n k seed = (let j = unat seed mod (n - 1) in if j < k then j else j + 1)"

lemma pop_queue_ok:
  assumes rt: "runtime s ep e wps qs" and k: "k < length wps" and q: "qs ! k = t # ts"
  shows "\<exists>s'. pop_queue (wps ! k) s = Inr (Some t, s') \<and> runtime s' ep e wps (qs[k := ts]) \<and> keeps s s' \<and>
    same_private s s' \<and> touches {} {wps ! k} s s'"
proof -
  have "\<exists>s'. on_queue (wps ! k) (\<lambda>l s. bind_r (pop_front l s) (\<lambda>(r, l). Inr (l, s))) s = Inr s' \<and>
    runtime s' ep e wps (qs[k := ts]) \<and> keeps s s' \<and> same_private s s' \<and> touches {} {wps ! k} s s'"
  proof (rule on_queue_ok[OF rt k])
    show "\<exists>l' s'. bind_r (pop_front l s) (\<lambda>(r, l). Inr (l, s)) = Inr (l', s') \<and> queue_at s' l' ts \<and> relink {} s s'"
      if "queue_at s l (qs ! k)" for l using pop_front_ok[of s l t ts] that q by auto
    have "distinct (t # ts)" using rt k q unfolding runtime_def by (metis distinct_concat_iff nth_mem)
    then show "distinct (concat (qs[k := ts]))"
      using rt k q by (intro distinct_concat_upd[where X = "{}"]) (auto simp: runtime_def)
  qed simp
  moreover obtain w where w: "deref_worker (wps ! k) s = Inr w" "queue_at s (task_list w) (t # ts)"
    using runtime_worker[OF rt k] q by auto
  ultimately show ?thesis using pop_front_ok[OF w(2)] by (auto simp: pop_queue_def on_queue_def)
qed

lemma pop_queue_empty:
  assumes rt: "runtime s ep e wps qs" and k: "k < length wps" and q: "qs ! k = []"
  shows "\<exists>s'. pop_queue (wps ! k) s = Inr (None, s') \<and> runtime s' ep e wps qs \<and> touches {} {wps ! k} s s'"
proof -
  obtain w where w: "deref_worker (wps ! k) s = Inr w" "mem s (wps ! k) = Some (Init (Obj_worker w))" "worker_ok ep wps k w"
    "queue_at s (task_list w) []" using runtime_worker[OF rt k] q by auto
  then have "pop_queue (wps ! k) s = Inr (None, store (wps ! k) (Obj_worker w) s)"
    by (cases w) (simp add: pop_queue_def)
  then show ?thesis using store_worker_ok[OF rt k w(2,3)] store_touches(1)[OF w(2)] by auto
qed

lemma steal_victim_less: "k < n \<Longrightarrow> 2 \<le> n \<Longrightarrow> steal_victim n k seed < n \<and> steal_victim n k seed \<noteq> k"
proof -
  assume "k < n" "2 \<le> n"
  then have "unat seed mod (n - 1) < n - 1" by (intro mod_less_divisor) simp
  then show ?thesis by (auto simp: steal_victim_def Let_def)
qed

lemma try_steal_victim:
  assumes rt: "runtime s ep e wps qs" and k: "k < length wps" and n: "2 \<le> length wps"
    and v: "v = steal_victim (length wps) k (seed_of s (wps ! k))"
  shows "\<exists>w. worker_ok ep wps k w \<and> try_steal (wps ! k) s =
    bind_r (if qs ! v = [] then Inr (None, s) else pop_queue (wps ! v) s) (\<lambda>(task, s').
       case task of
         Some t \<Rightarrow> bind_r (set_worker_id t (worker_id w) s') (\<lambda>s'. Inr (Some t, s'))
       | None \<Rightarrow> bind_r (set_seed (wps ! k) (next_seed (seed_of s (wps ! k))) s') (\<lambda>s'. Inr (None, s')))"
proof -
  let ?n = "length wps" and ?x = "seed_of s (wps ! k)"
  obtain w where w: "deref_worker (wps ! k) s = Inr w" "worker_ok ep wps k w" "w_seed w = ?x"
    using runtime_worker[OF rt k] by blast
  have vn: "v < ?n" using steal_victim_less[OF k n] v by simp
  obtain u where u: "deref_worker (wps ! v) s = Inr u" "queue_at s (task_list u) (qs ! v)"
    using runtime_worker[OF rt vn] by blast
  have nw: "unat (n_workers w) = ?n" using w(2) by (simp add: worker_ok_def)
  then have sub: "sub_checked (n_workers w) 1 = Inr (n_workers w - 1)" "unat (n_workers w - 1) = ?n - 1"
    using n by (auto simp: sub_checked_def word_le_nat_alt unat_sub)
  have mod: "mod_checked ?x (n_workers w - 1) = Inr (?x mod (n_workers w - 1))" "unat (?x mod (n_workers w - 1)) = unat ?x mod (?n - 1)"
    using sub(2) n by (auto simp: mod_checked_def unat_mod)
  have i: "unat ?x mod (?n - 1) < ?n - 1" using n by (intro mod_less_divisor) simp
  have "get_unchecked (other_workers w) (unat ?x mod (?n - 1)) = Inr (wps ! v)"
    using w(2) i k other_nth[OF k i] v by (simp add: get_unchecked_def worker_ok_def steal_victim_def)
  then show ?thesis using w(1,2) sub(1) mod u(1) is_empty_iff[OF u(2)]
    unfolding w(3)[symmetric] by (intro exI[of _ w]) (simp add: try_steal_def Let_def)
qed

text \<open>
  \<open>try_steal\<close> never faults when there are at least two workers.  It looks at exactly one other
  worker, the one the seed picks.  If its queue is empty nothing is stolen and the seed is advanced;
  else its first task is taken out of the queue and its \<open>worker_id\<close> becomes the thief's, and the
  seed stays.
\<close>

lemma try_steal_takes_first:
  assumes rt: "runtime s ep e wps qs" and k: "k < length wps" and n: "2 \<le> length wps"
    and v: "v = steal_victim (length wps) k (seed_of s (wps ! k))"
  shows "v < length wps \<and> v \<noteq> k \<and> (\<exists>s'. case qs ! v of
      [] \<Rightarrow> try_steal (wps ! k) s = Inr (None, s') \<and> runtime s' ep e wps qs \<and>
        seed_of s' (wps ! k) = next_seed (seed_of s (wps ! k))
    | t # ts \<Rightarrow> try_steal (wps ! k) s = Inr (Some t, s') \<and> runtime s' ep e wps (qs[v := ts]) \<and>
        unat (t_worker_id (task_at s' t)) = k \<and> seed_of s' (wps ! k) = seed_of s (wps ! k))"
proof -
  have vn: "v < length wps" "v \<noteq> k" using steal_victim_less[OF k n] v by simp_all
  obtain w where w: "worker_ok ep wps k w" and steal: "try_steal (wps ! k) s =
    bind_r (if qs ! v = [] then Inr (None, s) else pop_queue (wps ! v) s) (\<lambda>(task, s').
       case task of
         Some t \<Rightarrow> bind_r (set_worker_id t (worker_id w) s') (\<lambda>s'. Inr (Some t, s'))
       | None \<Rightarrow> bind_r (set_seed (wps ! k) (next_seed (seed_of s (wps ! k))) s') (\<lambda>s'. Inr (None, s')))"
    using try_steal_victim[OF assms] by blast
  show ?thesis
  proof (cases "qs ! v")
    case Nil
    with steal set_seed_ok[OF rt k, of "next_seed (seed_of s (wps ! k))"] vn show ?thesis by auto
  next
    case (Cons t ts)
    from pop_queue_ok[OF rt vn(1) Cons] obtain s1 where
      s1: "pop_queue (wps ! v) s = Inr (Some t, s1)" "runtime s1 ep e wps (qs[v := ts])" "keeps s s1" "same_private s s1"
      by blast
    have "v < length qs" using rt vn(1) by (simp add: runtime_def)
    then have "t \<in> set (concat qs)" using Cons by (metis UN_I list.set_intros(1) nth_mem set_concat)
    then have t: "is_task s1 t" using runtime_task[OF rt] s1(3) by (simp add: keeps_def)
    let ?s = "with_hdr t (\<lambda>t. t\<lparr>t_worker_id := worker_id w\<rparr>) s1"
    have "try_steal (wps ! k) s = Inr (Some t, ?s)"
      using steal Cons s1(1) t by (simp add: set_worker_id_def modify_task_with_hdr)
    moreover have "runtime ?s ep e wps (qs[v := ts])" using s1(2) t by (simp add: with_hdr_runtime)
    moreover have "seed_of ?s (wps ! k) = seed_of s (wps ! k)"
    proof -
      obtain u where "mem s1 (wps ! k) = Some (Init (Obj_worker u))" using runtime_worker[OF s1(2) k] by blast
      then have "mem ?s (wps ! k) = mem s1 (wps ! k)" by (metis with_hdr_simps(6))
      then have "seed_of ?s (wps ! k) = seed_of s1 (wps ! k)" by (simp only: seed_of_def)
      then show ?thesis using same_private_seed[OF rt k s1(4)] by simp
    qed
    ultimately show ?thesis using vn Cons w t by (auto simp: worker_ok_def)
  qed
qed

section \<open>Witnesses\<close>

lemma example_seed: "seed_of example_rt 3 = 1"
  by (simp add: seed_of_def example_rt_def example_worker_def)

lemma spawn_pushes_example:
  "\<exists>s'. spawn_w 3 6 example_rt = Inr s' \<and> runtime s' 2 2560 [3, 4] [[6], [5]] \<and> seed_of s' 3 = next_seed 1"
  using spawn_pushes[OF example_runtime, of 0 6 0] by (auto simp: example_objects example_seed spawn_target_def)

theorem spawn_all_one_queue_witness:
  "\<exists>s' e'. spawn_all 3 [6, 8] example_rt = Inr s' \<and> runtime s' 2 e' [3, 4] [[6, 8], [5]]"
proof -
  have "Suc (Suc 0) dvd (32 :: nat)" by (simp flip: numeral_2_eq_2)
  then show ?thesis using spawn_all_one_queue[OF example_runtime, of 0 "[6, 8]" 0]
    by (simp add: example_objects example_seed spawn_target_def)
qed

lemma try_steal_takes_first_example:
  "\<exists>s'. try_steal 3 example_rt = Inr (Some 5, s') \<and> runtime s' 2 2560 [3, 4] [[], []] \<and>
     unat (t_worker_id (task_at s' 5)) = 0"
  using try_steal_takes_first[OF example_runtime, of 0 1] by (auto simp: steal_victim_def)

end
