(* ===== verification/Worker_Manager.thy ===== *)
theory Worker_Manager
  imports Worker
begin

text \<open>
  Publishing the workers, starting the main task and tearing the runtime down
  (\<open>yaay-mt-runtime/src/worker_manager.rs\<close>).  The rendezvous of the builders is in theory \<open>Startup\<close>.
\<close>

section \<open>Definitions\<close>

text \<open>The end of \<open>WorkerManager::wait\<close>: the pointers the builders filled in become the shared data.\<close>

definition manager_publish :: "addr \<Rightarrow> addr \<Rightarrow> addr list \<Rightarrow> 'f rt \<Rightarrow> 'f rt res" where
  "manager_publish p ep ptrs s =
     (if null \<in> set ptrs then Inl Panic_unwrap
      else bind_r (new_obj p (Obj_shared \<lparr>s_epoch = ep, worker_ptrs = ptrs\<rparr>) s) (\<lambda>(g, s).
        Inr (set_global g s)))"

definition WorkerGuard_run :: "addr \<Rightarrow> 'f \<Rightarrow> 'f rt \<Rightarrow> 'f rt res" where
  "WorkerGuard_run p async_main s =
     bind_r (Task_new p async_main s) (\<lambda>(task, s).
     bind_r (deref_shared (get_global s) s) (\<lambda>shared.
     bind_r (index_checked (worker_ptrs shared) 0) (\<lambda>worker.
     bind_r (on_queue worker (\<lambda>l. push_back l task) s) (\<lambda>s.
       next_epoch_at (s_epoch shared) s))))"

text \<open>The first loop of the guard's \<open>drop\<close>: collect the queue of each worker and free the worker.\<close>

fun collect_workers :: "addr list \<Rightarrow> TaskList \<Rightarrow> 'f rt \<Rightarrow> (TaskList \<times> 'f rt) res" where
  "collect_workers [] tasks s = Inr (tasks, s)"
| "collect_workers (worker # ws) tasks s =
     bind_r (deref_worker worker s) (\<lambda>w.
     bind_r (if \<not> is_empty (task_list w) then
               let (popped, l) = pop_all (task_list w);
                   s = store worker (Obj_worker (w\<lparr>task_list := l\<rparr>)) s
               in push_back_batch tasks popped s
             else Inr (tasks, s)) (\<lambda>(tasks, s).
     bind_r (on_mem (do_drop worker) s) (\<lambda>s.
       collect_workers ws tasks s)))"

text \<open>The body of the second loop; \<open>owned\<close> says which wakers the destructor of a future drops.\<close>

definition drop_task :: "('f \<Rightarrow> addr list) \<Rightarrow> addr \<Rightarrow> 'f rt \<Rightarrow> 'f rt res" where
  "drop_task owned task s =
     bind_r (rc task s) (\<lambda>r.
       if \<not> r > 0 then Inl Panic_assert
       else
         bind_r (drop_in_place owned task s) (\<lambda>s.
         bind_r (rc task s) (\<lambda>r.
         let s = (if r \<noteq> 1 then s\<lparr>events := events s @ [Leak_warning task]\<rparr> else s)
         in rc_dec task s)))"

definition WorkerGuard_drop :: "('f \<Rightarrow> addr list) \<Rightarrow> 'f rt \<Rightarrow> 'f rt res option" where
  "WorkerGuard_drop owned s =
     (case bind_r (RuntimeSharedData_get s) (\<lambda>shared.
             bind_r (collect_workers (worker_ptrs shared) TaskList_new s) (\<lambda>(tasks, s). Inr (shared, tasks, s))) of
        Inl e \<Rightarrow> Some (Inl e)
      | Inr (shared, tasks, s) \<Rightarrow>
          map_option (\<lambda>r.
            bind_r r (\<lambda>s.
            bind_r (on_mem (do_drop (s_epoch shared)) s) (\<lambda>s.
            bind_r (on_mem (do_drop (get_global s)) s) (\<lambda>s. Inr (set_global null s)))))
            (for_each_task (drop_task owned) tasks s))"

section \<open>Tearing down\<close>

text \<open>\<open>reap W A s s'\<close>: the blocks in \<open>W\<close> are freed, and \<open>next\<close> pointers of tasks in \<open>A\<close> changed.\<close>

definition reap :: "addr set \<Rightarrow> addr set \<Rightarrow> 'f rt \<Rightarrow> 'f rt \<Rightarrow> bool" where
  "reap W A s s' \<longleftrightarrow> (\<exists>g. s' = s\<lparr>mem := (\<lambda>a. if a \<in> W then None
     else if a \<in> A then map_option (map_task (\<lambda>t. t\<lparr>t_next := g a\<rparr>)) (mem s a) else mem s a)\<rparr>)"

lemma reap_relink: "relink A s s' \<Longrightarrow> reap {} A s s'"
  by (simp add: reap_def relink_def)

lemma reap_refl [simp]: "reap {} A s s"
  by (rule reap_relink) simp

lemma reap_trans:
  assumes "reap W A s t" "reap V B t u"
  shows "reap (W \<union> V) (A \<union> B) s u"
proof -
  obtain g where g: "t = s\<lparr>mem := (\<lambda>a. if a \<in> W then None
      else if a \<in> A then map_option (map_task (\<lambda>t. t\<lparr>t_next := g a\<rparr>)) (mem s a) else mem s a)\<rparr>"
    using assms(1) by (auto simp: reap_def)
  obtain h where h: "u = t\<lparr>mem := (\<lambda>a. if a \<in> V then None
      else if a \<in> B then map_option (map_task (\<lambda>t. t\<lparr>t_next := h a\<rparr>)) (mem t a) else mem t a)\<rparr>"
    using assms(2) by (auto simp: reap_def)
  show ?thesis unfolding reap_def g h
    by (intro exI[of _ "\<lambda>a. if a \<in> B then h a else g a"]) (auto simp: fun_eq_iff option.map_comp o_def)
qed

lemma reap_frame:
  assumes "reap W A s s'"
  shows "GLOBAL s' = GLOBAL s" "LOCAL s' = LOCAL s" "events s' = events s"
    "a \<in> W \<Longrightarrow> mem s' a = None" "a \<notin> W \<Longrightarrow> a \<notin> A \<Longrightarrow> mem s' a = mem s a"
    "a \<notin> W \<Longrightarrow> mem s' a = Some (Init (Obj_worker w)) \<longleftrightarrow> mem s a = Some (Init (Obj_worker w))"
    "a \<notin> W \<Longrightarrow> mem s' a = Some (Init (Obj_epoch e)) \<longleftrightarrow> mem s a = Some (Init (Obj_epoch e))"
    "a \<notin> W \<Longrightarrow> mem s' a = Some (Init (Obj_shared d)) \<longleftrightarrow> mem s a = Some (Init (Obj_shared d))"
  using assms by (auto simp: reap_def split: if_splits)

lemma reap_task:
  assumes "reap W A s s'" "a \<notin> W" "mem s a = Some (Init (TaskInner h f))"
  shows "\<exists>nx. mem s' a = Some (Init (TaskInner (h\<lparr>t_next := nx\<rparr>) f))"
proof (cases "a \<in> A")
  case True
  then show ?thesis using assms by (auto simp: reap_def)
next
  case False
  have "h = h\<lparr>t_next := t_next h\<rparr>" by simp
  with assms(3) reap_frame(5)[OF assms(1,2) False] show ?thesis by metis
qed

text \<open>Freeing one worker, whose queue has been appended to the collected tasks.\<close>

lemma collect_one:
  assumes w: "worker \<noteq> null" "mem s worker = Some (Init (Obj_worker w))" and q: "queue_at s (task_list w) q"
    and xs: "queue_at s tasks xs" and disj: "set xs \<inter> set q = {}"
  shows "\<exists>l s'. collect_workers (worker # ws) tasks s = collect_workers ws l s' \<and> queue_at s' l (xs @ q) \<and>
    reap {worker} (set xs) s s'"
proof -
  have nt: "\<not> is_task s worker" using w(2) by simp
  have free: "on_mem (do_drop worker) t = Inr (t\<lparr>mem := (mem t)(worker := None)\<rparr>)"
    if "mem t worker = Some (Init (Obj_worker v))" for t :: "'a rt" and v
    using that w(1) by (simp add: on_mem_def do_drop_eq)
  show ?thesis
  proof (cases "q = []")
    case True
    let ?s = "s\<lparr>mem := (mem s)(worker := None)\<rparr>"
    have "queue_at ?s tasks xs" using xs queue_tasks[OF xs] nt by (subst queue_at_cong) auto
    moreover have "collect_workers (worker # ws) tasks s = collect_workers ws tasks ?s"
      using w is_empty_iff[OF q] True free[OF w(2)] by (simp add: deref_worker_def deref_def)
    moreover have "reap {worker} {} s ?s" by (auto simp: reap_def fun_eq_iff)
    from reap_trans[OF reap_refl[of "set xs" s] this] have "reap {worker} (set xs) s ?s" by simp
    ultimately show ?thesis using True by auto
  next
    case False
    let ?s = "store worker (Obj_worker (w\<lparr>task_list := TaskList_new\<rparr>)) s"
    have q': "queue_at ?s (task_list w) q" using q queue_tasks[OF q] nt by (subst queue_at_cong) (auto simp: store_def)
    have xs': "queue_at ?s tasks xs" using xs queue_tasks[OF xs] nt by (subst queue_at_cong) (auto simp: store_def)
    from push_back_batch_ok[OF xs' q' False disj] obtain l s1 where
      s1: "push_back_batch tasks (task_list w) ?s = Inr (l, s1)" "queue_at s1 l (xs @ q)" "relink (set xs) ?s s1" by blast
    let ?s' = "s1\<lparr>mem := (mem s1)(worker := None)\<rparr>"
    have m1: "mem s1 worker = Some (Init (Obj_worker (w\<lparr>task_list := TaskList_new\<rparr>)))"
      using s1(3) by (simp add: store_def)
    have "worker \<notin> set (xs @ q)" using queue_tasks[OF s1(2)] not_task(1)[OF m1] by blast
    then have "queue_at ?s' l (xs @ q)" using s1(2) by (subst queue_at_cong[of _ _ s1]) auto
    moreover have "collect_workers (worker # ws) tasks s = collect_workers ws l ?s'"
      using w is_empty_iff[OF q] False free[OF m1] s1(1) by (simp add: deref_worker_def deref_def pop_all_eq)
    moreover obtain g where g: "s1 = ?s\<lparr>mem := (\<lambda>a. if a \<in> set xs
        then map_option (map_task (\<lambda>t. t\<lparr>t_next := g a\<rparr>)) (mem ?s a) else mem ?s a)\<rparr>"
      using s1(3) unfolding relink_def by blast
    have "reap {worker} (set xs) s ?s'" unfolding reap_def g by (rule exI[of _ g]) (simp add: store_def fun_eq_iff)
    ultimately show ?thesis by blast
  qed
qed

lemma collect_workers_ok:
  assumes "distinct ws" "length rs = length ws" "queue_at s tasks xs" "distinct (xs @ concat rs)"
    and "\<And>k. k < length ws \<Longrightarrow> ws ! k \<noteq> null \<and> (\<exists>w. mem s (ws ! k) = Some (Init (Obj_worker w)) \<and> queue_at s (task_list w) (rs ! k))"
  shows "\<exists>l s'. collect_workers ws tasks s = Inr (l, s') \<and> queue_at s' l (xs @ concat rs) \<and>
    reap (set ws) (set (xs @ concat rs)) s s'"
  using assms
proof (induction ws arbitrary: rs s tasks xs)
  case Nil
  then show ?case by auto
next
  case (Cons worker ws)
  then obtain r rs' where rs: "rs = r # rs'" by (cases rs) auto
  obtain w where w: "worker \<noteq> null" "mem s worker = Some (Init (Obj_worker w))" "queue_at s (task_list w) r"
    using Cons.prems(5)[of 0] rs by auto
  have disj: "set xs \<inter> set r = {}" using Cons.prems(4) rs by auto
  from collect_one[OF w Cons.prems(3) disj] obtain l s1 where
    s1: "collect_workers (worker # ws) tasks s = collect_workers ws l s1" "queue_at s1 l (xs @ r)"
      "reap {worker} (set xs) s s1" by blast
  have "\<exists>l' s'. collect_workers ws l s1 = Inr (l', s') \<and> queue_at s' l' ((xs @ r) @ concat rs') \<and>
    reap (set ws) (set ((xs @ r) @ concat rs')) s1 s'"
  proof (rule Cons.IH)
    show "ws ! k \<noteq> null \<and> (\<exists>w. mem s1 (ws ! k) = Some (Init (Obj_worker w)) \<and> queue_at s1 (task_list w) (rs' ! k))"
      if k: "k < length ws" for k
    proof -
      from Cons.prems(5)[of "Suc k"] k rs obtain v where
        v: "ws ! k \<noteq> null" "mem s (ws ! k) = Some (Init (Obj_worker v))" "queue_at s (task_list v) (rs' ! k)" by auto
      have "ws ! k \<noteq> worker" using Cons.prems(1) k by auto
      then have "mem s1 (ws ! k) = Some (Init (Obj_worker v))" using v(2) reap_frame(6)[OF s1(3)] by simp
      moreover have "queue_at s1 (task_list v) (rs' ! k)"
      proof (subst queue_at_cong[of _ _ s])
        have "rs' ! k \<in> set rs'" using k rs Cons.prems(2) by simp
        then have "set (rs' ! k) \<inter> set xs = {}" using Cons.prems(4) rs by auto
        moreover have "worker \<notin> set (rs' ! k)" using queue_tasks[OF v(3)] not_task(1)[OF w(2)] by blast
        ultimately have "mem s1 x = mem s x" if "x \<in> set (rs' ! k)" for x
          by (intro reap_frame(5)[OF s1(3)]) (use that in auto)
        then show "\<forall>x\<in>set (rs' ! k). mem s1 x = mem s x" by blast
      qed (rule v(3))
      ultimately show ?thesis using v(1) by blast
    qed
  qed (use Cons.prems(1,2,4) rs s1(2) in auto)
  then obtain l' s' where s': "collect_workers ws l s1 = Inr (l', s')" "queue_at s' l' (xs @ concat rs)"
    "reap (set ws) (set (xs @ concat rs)) s1 s'" using rs by auto
  have "reap (set (worker # ws)) (set (xs @ concat rs)) s s'"
    using reap_trans[OF s1(3) s'(3)] by (simp add: Un_absorb1 Un_left_absorb)
  then show ?case using s1(1) s' by auto
qed

text \<open>References to a task: their number, and the block when \<open>k\<close> of them are given up.\<close>

fun rc_of :: "'f obj block option \<Rightarrow> nat" where
  "rc_of (Some (Init (TaskInner h f))) = unat (t_rc h)"
| "rc_of (Some (Dropped (TaskInner h f))) = unat (t_rc h)"
| "rc_of b = 0"

definition give_up :: "nat \<Rightarrow> 'f obj block option \<Rightarrow> 'f obj block option" where
  "give_up k b = (if k = 0 then b else if rc_of b = k then None
     else map_option (map_task (\<lambda>h. h\<lparr>t_rc := t_rc h - of_nat k\<rparr>)) b)"

text \<open>The block of a task whose future is dropped.\<close>

fun drop_future :: "'f obj block option \<Rightarrow> 'f obj block option" where
  "drop_future (Some (Init (TaskInner h f))) = Some (Dropped (TaskInner (h\<lparr>t_status := t_status h OR DROPPED\<rparr>) f))"
| "drop_future b = b"

text \<open>The tasks to which the wakers of a task's future point.\<close>

fun wakers_in :: "('f \<Rightarrow> addr list) \<Rightarrow> 'f obj block option \<Rightarrow> addr list" where
  "wakers_in owned (Some (Init (TaskInner h f))) = owned f"
| "wakers_in owned b = []"

abbreviation wakers_of :: "('f \<Rightarrow> addr list) \<Rightarrow> 'f rt \<Rightarrow> addr \<Rightarrow> addr list" where
  "wakers_of owned s y \<equiv> wakers_in owned (mem s y)"

definition all_wakers :: "('f \<Rightarrow> addr list) \<Rightarrow> 'f rt \<Rightarrow> addr list \<Rightarrow> addr list" where
  "all_wakers owned s ys = concat (map (wakers_of owned s) ys)"

text \<open>
  The warnings of the second loop: \<open>gone\<close> are the tasks whose wakers were dropped so far.  A task's count is read after
  its future was dropped.
\<close>

fun leak_warnings :: "('f \<Rightarrow> addr list) \<Rightarrow> 'f rt \<Rightarrow> addr list \<Rightarrow> addr list \<Rightarrow> event list" where
  "leak_warnings owned s gone [] = []"
| "leak_warnings owned s gone (y # ys) =
     (let gone = gone @ wakers_of owned s y
      in (if rc_of (mem s y) - count_list gone y = 1 then [] else [Leak_warning y]) @ leak_warnings owned s gone ys)"

definition droppable :: "'f rt \<Rightarrow> addr \<Rightarrow> bool" where
  "droppable s a \<longleftrightarrow> a \<noteq> null \<and>
     (\<exists>h f. mem s a = Some (Init (TaskInner h f)) \<and> t_status h AND DROPPED = 0 \<and> t_rc h \<noteq> 0)"

text \<open>\<open>refs_ok wks ys s\<close>: each task has the references that \<open>wks\<close> and the runtime's hold on \<open>ys\<close> stand for.\<close>

definition refs_ok :: "addr list \<Rightarrow> addr list \<Rightarrow> 'f rt \<Rightarrow> bool" where
  "refs_ok wks ys s \<longleftrightarrow> null \<notin> set wks \<and> (\<forall>a. count_list wks a + (if a \<in> set ys then 1 else 0) \<le> rc_of (mem s a))"

lemma refs_okD:
  assumes "refs_ok wks ys s"
  shows "null \<notin> set wks" "count_list wks a + (if a \<in> set ys then 1 else 0) \<le> rc_of (mem s a)"
  using assms by (auto simp: refs_ok_def)

lemma give_up_0 [simp]: "give_up 0 b = b"
  by (simp add: give_up_def)

lemma rc_of_map: "rc_of (map_option (map_task g) b) =
    (case b of Some (Init (TaskInner h f)) \<Rightarrow> unat (t_rc (g h)) | Some (Dropped (TaskInner h f)) \<Rightarrow> unat (t_rc (g h)) | _ \<Rightarrow> 0)"
  by (auto split: option.splits block.splits obj.splits)

lemma rc_of_cases:
  obtains h f where "b = Some (Init (TaskInner h f))" | h f where "b = Some (Dropped (TaskInner h f))" | "rc_of b = 0"
  by (cases b rule: rc_of.cases) auto

lemma unat_sub_of_nat: "k \<le> unat (x :: usize) \<Longrightarrow> unat (x - of_nat k) = unat x - k"
proof -
  assume k: "k \<le> unat x"
  then have n: "unat (of_nat k :: usize) = k" by (rule le_unat_uoi)
  then have "of_nat k \<le> x" using k by (simp add: word_le_nat_alt)
  then show ?thesis by (simp add: unat_sub n)
qed

lemma rc_of_give_up: "k \<le> rc_of b \<Longrightarrow> rc_of (give_up k b) = rc_of b - k"
  by (cases b rule: rc_of_cases) (auto simp: give_up_def unat_sub_of_nat)

lemma give_up_add:
  assumes "k + l \<le> rc_of b"
  shows "give_up l (give_up k b) = give_up (k + l) b"
proof (cases "l = 0 \<or> k = 0")
  case False
  then have k: "rc_of b \<noteq> k" "k \<noteq> 0" "l \<noteq> 0" using assms by auto
  have "rc_of (give_up k b) = l \<longleftrightarrow> rc_of b = k + l" using rc_of_give_up[of k b] assms by auto
  then show ?thesis using k assms by (cases b rule: rc_of_cases) (auto simp: give_up_def diff_diff_eq)
qed auto

lemma drop_future_give_up: "drop_future (give_up k b) = give_up k (drop_future b)" "rc_of (drop_future b) = rc_of b"
  by (cases b rule: drop_future.cases; simp add: give_up_def)+

lemma rc_dec_ok:
  assumes "a \<noteq> null" "0 < rc_of (mem s a)"
  shows "rc_dec a s = Inr (s\<lparr>mem := (mem s)(a := give_up 1 (mem s a))\<rparr>)"
proof -
  have one: "unat (x :: usize) = Suc 0 \<longleftrightarrow> x = 1" for x by (metis One_nat_def unat_1 word_unat_eq_iff)
  show ?thesis using assms
    by (cases "mem s a" rule: rc_of_cases)
      (auto simp: rc_dec_def rc_def deref_task_def modify_task_def fn_dealloc_def on_mem_def do_dealloc_def give_up_def one)
qed

lemma rc_dec_dropped:
  assumes "a \<noteq> null" "mem s a = Some (Dropped (TaskInner h f))"
  shows "rc_dec a s = Inr (s\<lparr>mem := (mem s)(a := if t_rc h = 1 then None
    else Some (Dropped (TaskInner (h\<lparr>t_rc := t_rc h - 1\<rparr>) f)))\<rparr>)"
  using assms by (simp add: rc_dec_def rc_def deref_task_def modify_task_def fn_dealloc_def on_mem_def do_dealloc_def)

lemma drop_wakers_ok:
  assumes "null \<notin> set ts" "\<And>a. count_list ts a \<le> rc_of (mem s a)"
  shows "drop_wakers ts s = Inr (s\<lparr>mem := \<lambda>a. give_up (count_list ts a) (mem s a)\<rparr>)"
  using assms
proof (induction ts arbitrary: s)
  case (Cons t ts)
  let ?s = "s\<lparr>mem := (mem s)(t := give_up 1 (mem s t))\<rparr>"
  have t: "t \<noteq> null" "Suc (count_list ts t) \<le> rc_of (mem s t)" using Cons.prems(1) Cons.prems(2)[of t] by auto
  have "count_list ts a \<le> rc_of (mem ?s a)" for a
    using Cons.prems(2)[of a] t(2) by (cases "a = t") (auto simp: rc_of_give_up)
  then have "drop_wakers ts ?s = Inr (?s\<lparr>mem := \<lambda>a. give_up (count_list ts a) (mem ?s a)\<rparr>)"
    using Cons.IH[of ?s] Cons.prems(1) by simp
  moreover have "(\<lambda>a. give_up (count_list ts a) (mem ?s a)) = (\<lambda>a. give_up (count_list (t # ts) a) (mem s a))"
    using t(2) by (auto simp: fun_eq_iff give_up_add)
  moreover have "fn_drop t s = Inr ?s" using rc_dec_ok[OF t(1), of s] t(2) by (simp add: fn_drop_def)
  ultimately show ?case by simp
qed simp

lemma drop_in_place_ok:
  assumes "a \<noteq> null" "mem s a = Some (Init (TaskInner h f))" "t_status h AND DROPPED = 0"
    and "null \<notin> set (owned f)" "\<And>x. count_list (owned f) x \<le> rc_of (mem s x)"
  shows "drop_in_place owned a s =
    Inr (s\<lparr>mem := \<lambda>x. give_up (count_list (owned f) x) (if x = a then drop_future (mem s x) else mem s x)\<rparr>)"
proof -
  let ?s = "s\<lparr>mem := (mem s)(a \<mapsto> Dropped (TaskInner (h\<lparr>t_status := t_status h OR DROPPED\<rparr>) f))\<rparr>"
  have "count_list (owned f) x \<le> rc_of (mem ?s x)" for x using assms(2) assms(5)[of x] by (cases "x = a") auto
  from drop_wakers_ok[OF assms(4) this] show ?thesis
    using assms(1-3) by (auto simp: drop_in_place_def deref_task_def modify_task_def fn_drop_in_place_def deref_def on_mem_def
        do_drop_in_place_def fun_eq_iff intro!: rt.equality)
qed

lemma drop_task_ok:
  assumes a: "droppable s a" and refs: "refs_ok (wakers_of owned s a) [a] s"
  shows "drop_task owned a s =
    Inr (s\<lparr>mem := \<lambda>x. give_up (count_list (wakers_of owned s a) x + (if x = a then 1 else 0)) (if x = a then drop_future (mem s x) else mem s x),
      events := events s @ leak_warnings owned s [] [a]\<rparr>)"
proof -
  obtain h f where h: "a \<noteq> null" "mem s a = Some (Init (TaskInner h f))" "t_status h AND DROPPED = 0" "t_rc h \<noteq> 0"
    using a by (auto simp: droppable_def)
  let ?c = "count_list (owned f)"
  let ?m = "\<lambda>x. give_up (?c x) (if x = a then drop_future (mem s x) else mem s x)"
  let ?w = "if unat (t_rc h) - ?c a = 1 then [] else [Leak_warning a]"
  let ?s = "s\<lparr>mem := ?m\<rparr>" and ?t = "s\<lparr>mem := ?m, events := events s @ ?w\<rparr>"
  have r: "null \<notin> set (owned f)" "?c x \<le> rc_of (mem s x)" "Suc (?c a) \<le> unat (t_rc h)" for x
    using refs_okD(1)[OF refs] refs_okD(2)[OF refs, of x] refs_okD(2)[OF refs, of a] h(2) by (auto split: if_splits)
  have rcs: "rc_of (?m a) = unat (t_rc h) - ?c a" using r(3) h(2) by (simp add: rc_of_give_up drop_future_give_up)
  have blk: "?m a = Some (Dropped (TaskInner (h\<lparr>t_status := t_status h OR DROPPED, t_rc := t_rc h - of_nat (?c a)\<rparr>) f))"
    using r(3) h(2) by (auto simp: give_up_def)
  have rc: "rc a s = Inr (t_rc h)" "rc a ?s = Inr (t_rc h - of_nat (?c a))"
    using h(1,2) blk by (simp_all add: rc_def deref_task_def)
  have "drop_in_place owned a s = Inr ?s" using r(1,2) by (intro drop_in_place_ok[where h = h and f = f] h(1-3))
  moreover have "t_rc h - of_nat (?c a) = 1 \<longleftrightarrow> unat (t_rc h) - ?c a = 1"
    using unat_sub_of_nat[of "?c a" "t_rc h"] r(3) by (metis Suc_leD unat_1 word_unat_eq_iff)
  then have "(if t_rc h - of_nat (?c a) \<noteq> 1 then ?s\<lparr>events := events ?s @ [Leak_warning a]\<rparr> else ?s) = ?t"
    by simp
  moreover have "rc_dec a ?t = Inr (?t\<lparr>mem := (mem ?t)(a := give_up 1 (mem ?t a))\<rparr>)"
    by (rule rc_dec_ok) (use h(1) rcs r(3) in simp_all)
  moreover have "t_rc h > 0" using h(4) by (simp add: word_gt_0)
  ultimately have "drop_task owned a s = Inr (?t\<lparr>mem := (mem ?t)(a := give_up 1 (mem ?t a))\<rparr>)"
    using rc by (simp add: drop_task_def Let_def)
  moreover have "give_up 1 (?m a) = give_up (?c a + 1) (drop_future (mem s a))"
    using r(3) h(2) by (subst give_up_add[symmetric]) (simp_all add: drop_future_give_up)
  ultimately show ?thesis using h(2) by (auto simp: fun_eq_iff Let_def intro!: rt.equality)
qed

text \<open>What has been dropped before only lowers the counts.\<close>

lemma leak_warnings_shift:
  assumes "\<And>y. y \<in> set ys \<Longrightarrow> rc_of (mem t y) = rc_of (mem s y) - count_list g y \<and> wakers_of owned t y = wakers_of owned s y"
  shows "leak_warnings owned t g' ys = leak_warnings owned s (g @ g') ys"
  using assms
proof (induction ys arbitrary: g')
  case (Cons y ys)
  have "leak_warnings owned t (g' @ wakers_of owned s y) ys = leak_warnings owned s (g @ g' @ wakers_of owned s y) ys"
    using Cons by simp
  then show ?case using Cons.prems[of y] by (simp add: Let_def diff_diff_eq add.assoc)
qed simp

lemma queue_at_map:
  assumes "queue_at s l xs" "\<And>x. x \<in> set xs \<Longrightarrow> is_task s' x \<and> next_at s' x = next_at s x"
  shows "queue_at s' l xs"
  using assms linked_cong[of xs "next_at s'" "next_at s"] by (auto simp: queue_at_def holds_def)

lemma for_each_drop_ok:
  assumes "queue_at s l ys" "\<forall>a\<in>set ys. droppable s a" "refs_ok (all_wakers owned s ys) ys s"
  shows "for_each_task (drop_task owned) l s =
    Some (Inr (s\<lparr>mem := (\<lambda>a. give_up (count_list (all_wakers owned s ys) a + (if a \<in> set ys then 1 else 0))
        (if a \<in> set ys then drop_future (mem s a) else mem s a)), events := events s @ leak_warnings owned s [] ys\<rparr>))"
  using assms
proof (induction ys arbitrary: l s)
  case Nil
  then show ?case by (simp add: for_each_task.simps all_wakers_def)
next
  case (Cons y ys)
  from pop_front_ok[OF Cons.prems(1)] obtain l' where l': "pop_front l s = Inr (Some y, l')" "queue_at s l' ys" by blast
  have y: "y \<notin> set ys" using Cons.prems(1) by (auto simp: queue_at_def holds_def)
  let ?w = "wakers_of owned s y"
  let ?m = "\<lambda>x. give_up (count_list ?w x + (if x = y then 1 else 0)) (if x = y then drop_future (mem s x) else mem s x)"
  let ?s = "s\<lparr>mem := ?m, events := events s @ leak_warnings owned s [] [y]\<rparr>"
  have tot: "count_list ?w a + count_list (all_wakers owned s ys) a + (if a = y \<or> a \<in> set ys then 1 else 0) \<le> rc_of (mem s a)" for a
    using refs_okD(2)[OF Cons.prems(3), of a] y by (simp add: all_wakers_def split: if_splits)
  have nn: "null \<notin> set ?w" "null \<notin> set (all_wakers owned s ys)" using Cons.prems(3) by (auto simp: refs_ok_def all_wakers_def)
  have keep: "count_list ?w x < rc_of (mem s x)" "?m x = give_up (count_list ?w x) (mem s x)" if "x \<in> set ys" for x
    using tot[of x] that y by auto
  have blk: "\<exists>h f. mem s x = Some (Init (TaskInner h f)) \<and> t_status h AND DROPPED = 0 \<and> x \<noteq> null \<and>
      ?m x = Some (Init (TaskInner (h\<lparr>t_rc := t_rc h - of_nat (count_list ?w x)\<rparr>) f)) \<and> t_rc h - of_nat (count_list ?w x) \<noteq> 0"
    if x: "x \<in> set ys" for x
  proof -
    obtain h f where h: "mem s x = Some (Init (TaskInner h f))" "t_status h AND DROPPED = 0" "x \<noteq> null"
      using Cons.prems(2) x by (auto simp: droppable_def)
    have "unat (t_rc h - of_nat (count_list ?w x)) = unat (t_rc h) - count_list ?w x" "count_list ?w x < unat (t_rc h)"
      using keep(1)[OF x] h(1) by (simp_all add: unat_sub_of_nat)
    then have "t_rc h - of_nat (count_list ?w x) \<noteq> 0" by auto
    then show ?thesis using h keep[OF x] by (auto simp: give_up_def)
  qed
  have step: "drop_task owned y s = Inr ?s"
    by (rule drop_task_ok) (use Cons.prems(2) tot nn in \<open>auto simp: refs_ok_def intro: le_trans[rotated, OF tot]\<close>)
  have wk: "wakers_of owned ?s x = wakers_of owned s x" if "x \<in> set ys" for x using blk[OF that] by auto
  then have all: "all_wakers owned ?s ys = all_wakers owned s ys"
    unfolding all_wakers_def by (intro arg_cong[of _ _ concat] map_cong) auto
  have le: "count_list ?w a + (if a = y then 1 else 0) \<le> rc_of (if a = y then drop_future (mem s a) else mem s a)" for a
    using tot[of a] by (auto simp: drop_future_give_up split: if_splits)
  have rcs: "rc_of (mem ?s a) = rc_of (mem s a) - (count_list ?w a + (if a = y then 1 else 0))" for a
    using rc_of_give_up[OF le[of a]] by (simp add: drop_future_give_up)
  have "queue_at ?s l' ys"
    by (rule queue_at_map[OF l'(2)]) (use blk in \<open>fastforce simp: is_task_def next_at_def task_at_def\<close>)
  moreover have "\<forall>a\<in>set ys. droppable ?s a" unfolding droppable_def using blk by fastforce
  moreover have "refs_ok (all_wakers owned ?s ys) ys ?s"
    unfolding refs_ok_def all
  proof (intro conjI allI)
    fix a show "count_list (all_wakers owned s ys) a + (if a \<in> set ys then 1 else 0) \<le> rc_of (mem ?s a)"
      unfolding rcs using tot[of a] y by (auto split: if_splits)
  qed (rule nn)
  ultimately have IH: "for_each_task (drop_task owned) l' ?s =
    Some (Inr (?s\<lparr>mem := (\<lambda>a. give_up (count_list (all_wakers owned s ys) a + (if a \<in> set ys then 1 else 0))
        (if a \<in> set ys then drop_future (mem ?s a) else mem ?s a)), events := events ?s @ leak_warnings owned ?s [] ys\<rparr>))"
    using Cons.IH[of ?s l'] all by simp
  have "leak_warnings owned ?s [] ys = leak_warnings owned s (?w @ []) ys"
    by (rule leak_warnings_shift) (use rcs wk y in auto)
  moreover have "give_up (count_list (all_wakers owned s ys) a + (if a \<in> set ys then 1 else 0))
        (if a \<in> set ys then drop_future (mem ?s a) else mem ?s a) =
      give_up (count_list (all_wakers owned s (y # ys)) a + (if a \<in> set (y # ys) then 1 else 0))
        (if a \<in> set (y # ys) then drop_future (mem s a) else mem s a)" for a
  proof -
    have "(if a \<in> set ys then drop_future (mem ?s a) else mem ?s a) =
        give_up (count_list ?w a + (if a = y then 1 else 0)) (if a \<in> set (y # ys) then drop_future (mem s a) else mem s a)"
      using y by (auto simp: drop_future_give_up)
    then show ?thesis using tot[of a] y by (auto simp: give_up_add drop_future_give_up all_wakers_def add_ac)
  qed
  ultimately show ?case
    using l'(1) step IH by (auto simp: for_each_task.simps[of "drop_task owned" l s] fun_eq_iff Let_def intro!: rt.equality)
qed

lemma runtime_addrs:
  assumes "runtime s ep e wps qs"
  shows "ep \<notin> set wps" "GLOBAL s \<notin> set wps" "GLOBAL s \<noteq> ep" "set (concat qs) \<inter> (set wps \<union> {ep, GLOBAL s}) = {}"
proof -
  have w: "\<exists>w. mem s a = Some (Init (Obj_worker w))" if "a \<in> set wps" for a
    using assms that by (auto simp: runtime_def worker_at_def in_set_conv_nth)
  have g: "mem s (GLOBAL s) = Some (Init (Obj_shared \<lparr>s_epoch = ep, worker_ptrs = wps\<rparr>))" "mem s ep = Some (Init (Obj_epoch e))"
    using assms by (simp_all add: runtime_def)
  show "ep \<notin> set wps" "GLOBAL s \<notin> set wps" "GLOBAL s \<noteq> ep" using w g by (fastforce, fastforce, auto)
  have "\<not> is_task s a" if "a \<in> set wps \<union> {ep, GLOBAL s}" for a using that w g not_task by blast
  then show "set (concat qs) \<inter> (set wps \<union> {ep, GLOBAL s}) = {}" using runtime_task[OF assms] by blast
qed

text \<open>The first loop on a whole runtime: the collected list holds all queued tasks, which are as they were.\<close>

lemma collect_runtime:
  assumes rt: "runtime s ep e wps qs" and ok: "\<forall>t\<in>set (concat qs). droppable s t"
  shows "\<exists>l s1. collect_workers wps TaskList_new s = Inr (l, s1) \<and> queue_at s1 l (concat qs) \<and>
    reap (set wps) (set (concat qs)) s s1 \<and> (\<forall>t\<in>set (concat qs). droppable s1 t) \<and>
    (\<forall>t h f. t \<in> set (concat qs) \<longrightarrow> mem s t = Some (Init (TaskInner h f)) \<longrightarrow>
       (\<exists>nx. mem s1 t = Some (Init (TaskInner (h\<lparr>t_next := nx\<rparr>) f)))) \<and>
    (\<forall>a. rc_of (mem s1 a) = rc_of (mem s a))"
proof -
  note ne = runtime_addrs[OF rt]
  have "\<exists>l s'. collect_workers wps TaskList_new s = Inr (l, s') \<and> queue_at s' l ([] @ concat qs) \<and>
    reap (set wps) (set ([] @ concat qs)) s s'"
    by (rule collect_workers_ok) (use rt in \<open>auto simp: runtime_def worker_at_def\<close>)
  then obtain l s1 where s1: "collect_workers wps TaskList_new s = Inr (l, s1)" "queue_at s1 l (concat qs)"
    "reap (set wps) (set (concat qs)) s s1" by auto
  have tk: "\<exists>nx. mem s1 t = Some (Init (TaskInner (h\<lparr>t_next := nx\<rparr>) f))"
    if "t \<in> set (concat qs)" "mem s t = Some (Init (TaskInner h f))" for t h f
    by (rule reap_task[OF s1(3) _ that(2)]) (use ne that(1) in blast)
  have ok1: "\<forall>t\<in>set (concat qs). droppable s1 t"
  proof
    fix t assume t: "t \<in> set (concat qs)"
    with ok have "droppable s t" by blast
    then obtain h f where h: "t \<noteq> null" "mem s t = Some (Init (TaskInner h f))" "t_status h AND DROPPED = 0" "t_rc h \<noteq> 0"
      by (auto simp: droppable_def)
    with tk[OF t h(2)] show "droppable s1 t" by (auto simp: droppable_def)
  qed
  have "rc_of (mem s1 a) = rc_of (mem s a)" for a
  proof (cases "a \<in> set (concat qs)")
    case True
    with ok obtain h f where "mem s a = Some (Init (TaskInner h f))" unfolding droppable_def by blast
    with tk[OF True this] show ?thesis by auto
  next
    case False
    have "rc_of (mem s a) = 0" if "a \<in> set wps"
    proof -
      obtain w where "mem s a = Some (Init (Obj_worker w))"
        using rt \<open>a \<in> set wps\<close> by (auto simp: runtime_def worker_at_def in_set_conv_nth)
      then show ?thesis by simp
    qed
    then show ?thesis using reap_frame(4,5)[OF s1(3)] False by (cases "a \<in> set wps") auto
  qed
  then show ?thesis using s1 ok1 tk by blast
qed

lemma WorkerGuard_drop_gen:
  assumes rt: "runtime s ep e wps qs" and ok: "\<forall>t\<in>set (concat qs). droppable s t"
    and refs: "refs_ok (all_wakers owned s (concat qs)) (concat qs) s"
  shows "\<exists>s'. WorkerGuard_drop owned s = Some (Inr s') \<and> GLOBAL s' = null \<and> LOCAL s' = LOCAL s \<and>
    (\<forall>a \<in> set wps \<union> {ep, GLOBAL s}. mem s' a = None) \<and>
    (\<forall>t h f. t \<in> set (concat qs) \<longrightarrow> mem s t = Some (Init (TaskInner h f)) \<longrightarrow>
       (let gone = 1 + count_list (all_wakers owned s (concat qs)) t
        in if unat (t_rc h) = gone then mem s' t = None
           else \<exists>nx. mem s' t = Some (Dropped (TaskInner
             (h\<lparr>t_next := nx, t_status := t_status h OR DROPPED, t_rc := t_rc h - of_nat gone\<rparr>) f)))) \<and>
    (\<forall>a. a \<notin> set wps \<union> {ep, GLOBAL s} \<union> set (concat qs) \<longrightarrow>
       mem s' a = give_up (count_list (all_wakers owned s (concat qs)) a) (mem s a)) \<and>
    events s' = events s @ leak_warnings owned s [] (concat qs)"
proof -
  let ?Q = "set (concat qs)" and ?wk = "all_wakers owned s (concat qs)"
  note ne = runtime_addrs[OF rt]
  have g: "GLOBAL s \<noteq> null" "mem s (GLOBAL s) = Some (Init (Obj_shared \<lparr>s_epoch = ep, worker_ptrs = wps\<rparr>))"
    "ep \<noteq> null" "mem s ep = Some (Init (Obj_epoch e))" using rt by (simp_all add: runtime_def)
  from collect_runtime[OF rt ok] obtain l s1 where s1: "collect_workers wps TaskList_new s = Inr (l, s1)"
    "queue_at s1 l (concat qs)" "reap (set wps) ?Q s s1"
    and ok1: "\<forall>t\<in>?Q. droppable s1 t"
    and tk: "\<forall>t h f. t \<in> ?Q \<longrightarrow> mem s t = Some (Init (TaskInner h f)) \<longrightarrow>
       (\<exists>nx. mem s1 t = Some (Init (TaskInner (h\<lparr>t_next := nx\<rparr>) f)))"
    and rc1: "\<And>a. rc_of (mem s1 a) = rc_of (mem s a)" by blast
  have wk1: "wakers_of owned s1 t = wakers_of owned s t" if "t \<in> ?Q" for t
  proof -
    obtain h f where "mem s t = Some (Init (TaskInner h f))" using ok \<open>t \<in> ?Q\<close> unfolding droppable_def by blast
    with tk \<open>t \<in> ?Q\<close> show ?thesis by fastforce
  qed
  have all1: "all_wakers owned s1 (concat qs) = ?wk"
    unfolding all_wakers_def by (intro arg_cong[of _ _ concat] map_cong refl wk1)
  have warn: "leak_warnings owned s1 [] (concat qs) = leak_warnings owned s [] (concat qs)"
    using leak_warnings_shift[of "concat qs" s1 s "[]" owned "[]"] rc1 wk1 by simp
  have refs1: "refs_ok (all_wakers owned s1 (concat qs)) (concat qs) s1" using refs unfolding refs_ok_def all1 rc1 .
  let ?c = "\<lambda>a. count_list ?wk a + (if a \<in> ?Q then 1 else 0)"
  let ?m = "\<lambda>a. give_up (?c a) (if a \<in> ?Q then drop_future (mem s1 a) else mem s1 a)"
  let ?s2 = "s1\<lparr>mem := ?m, events := events s1 @ leak_warnings owned s1 [] (concat qs)\<rparr>"
  note loop = for_each_drop_ok[OF s1(2) ok1 refs1, unfolded all1]
  have zero: "?c a = 0" if "rc_of (mem s a) = 0" for a
    using refs that unfolding refs_ok_def by (metis le_zero_eq)
  have m2: "mem ?s2 ep = Some (Init (Obj_epoch e))"
    "mem ?s2 (GLOBAL s) = Some (Init (Obj_shared \<lparr>s_epoch = ep, worker_ptrs = wps\<rparr>))"
    using ne g reap_frame(7,8)[OF s1(3)] zero[of ep] zero[of "GLOBAL s"] by (auto split: if_splits)
  let ?s3 = "set_global null (?s2\<lparr>mem := ?m(ep := None, GLOBAL s := None)\<rparr>)"
  have drop: "WorkerGuard_drop owned s = Some (Inr ?s3)"
    using g(1,3) m2 ne(3) s1(1) reap_frame(1)[OF s1(3)]
    by (simp add: WorkerGuard_drop_def runtime_shared[OF rt] loop on_mem_def do_drop_eq get_global_def)
  have freed: "mem ?s3 a = None" if "a \<in> set wps \<union> {ep, GLOBAL s}" for a
  proof (cases "a \<in> set wps")
    case True
    then have "mem s1 a = None" "a \<notin> ?Q" using ne(4) reap_frame(4)[OF s1(3)] by auto
    then show ?thesis by (simp add: set_global_def give_up_def)
  qed (use that in \<open>auto simp: set_global_def\<close>)
  have queued: "let gone = 1 + count_list ?wk t
        in if unat (t_rc h) = gone then mem ?s3 t = None
           else \<exists>nx. mem ?s3 t = Some (Dropped (TaskInner
             (h\<lparr>t_next := nx, t_status := t_status h OR DROPPED, t_rc := t_rc h - of_nat gone\<rparr>) f))"
    if tq: "t \<in> ?Q" "mem s t = Some (Init (TaskInner h f))" for t h f
  proof -
    obtain nx where nx: "mem s1 t = Some (Init (TaskInner (h\<lparr>t_next := nx\<rparr>) f))" using tk tq by blast
    have "t \<noteq> ep" "t \<noteq> GLOBAL s" using ne(4) tq(1) by auto
    then have m: "mem ?s3 t = give_up (Suc (count_list ?wk t)) (Some (Dropped (TaskInner (h\<lparr>t_next := nx, t_status := t_status h OR DROPPED\<rparr>) f)))"
      using tq(1) nx by (simp add: set_global_def)
    then show ?thesis using m by (auto simp: give_up_def Let_def)
  qed
  have other: "mem ?s3 a = give_up (count_list ?wk a) (mem s a)" if "a \<notin> set wps \<union> {ep, GLOBAL s} \<union> ?Q" for a
    using that reap_frame(5)[OF s1(3)] by (simp add: set_global_def)
  have rest: "GLOBAL ?s3 = null" "LOCAL ?s3 = LOCAL s" "events ?s3 = events s @ leak_warnings owned s [] (concat qs)"
    using warn reap_frame(2,3)[OF s1(3)] by (simp_all add: set_global_def)
  show ?thesis
    by (rule exI[of _ ?s3], intro conjI ballI allI impI; (rule drop rest | rule freed other, assumption | rule queued, assumption+))
qed

text \<open>The case in which no queued future holds a waker.\<close>

lemma WorkerGuard_drop_ok:
  assumes rt: "runtime s ep e wps qs" and ok: "\<forall>t\<in>set (concat qs). droppable s t"
  shows "\<exists>s'. WorkerGuard_drop no_wakers s = Some (Inr s') \<and> GLOBAL s' = null \<and> LOCAL s' = LOCAL s \<and>
    (\<forall>a \<in> set wps \<union> {ep, GLOBAL s}. mem s' a = None) \<and>
    (\<forall>t h f. t \<in> set (concat qs) \<longrightarrow> mem s t = Some (Init (TaskInner h f)) \<longrightarrow>
       (if t_rc h = 1 then mem s' t = None
        else \<exists>nx. mem s' t = Some (Dropped (TaskInner
          (h\<lparr>t_next := nx, t_status := t_status h OR DROPPED, t_rc := t_rc h - 1\<rparr>) f)))) \<and>
    (\<forall>a. a \<notin> set wps \<union> {ep, GLOBAL s} \<union> set (concat qs) \<longrightarrow> mem s' a = mem s a)"
proof -
  have none: "all_wakers no_wakers s ys = []" for ys
  proof -
    have "wakers_in no_wakers b = []" for b :: "'a obj block option"
      by (cases "(no_wakers :: 'a \<Rightarrow> addr list, b)" rule: wakers_in.cases) auto
    then show ?thesis by (simp add: all_wakers_def)
  qed
  have rc: "rc_of (mem s t) \<noteq> 0" if "t \<in> set (concat qs)" for t
  proof -
    obtain h f where "mem s t = Some (Init (TaskInner h f))" "t_rc h \<noteq> 0" using ok \<open>t \<in> set (concat qs)\<close> unfolding droppable_def by blast
    then show ?thesis by (simp add: unat_eq_0)
  qed
  have "refs_ok (all_wakers no_wakers s (concat qs)) (concat qs) s"
    unfolding refs_ok_def none using rc by (simp del: set_concat add: Suc_le_eq)
  from WorkerGuard_drop_gen[OF rt ok this, unfolded none]
  obtain s' where s': "WorkerGuard_drop no_wakers s = Some (Inr s')" "GLOBAL s' = null" "LOCAL s' = LOCAL s"
      "\<forall>a \<in> set wps \<union> {ep, GLOBAL s}. mem s' a = None"
      "\<forall>a. a \<notin> set wps \<union> {ep, GLOBAL s} \<union> set (concat qs) \<longrightarrow> mem s' a = mem s a"
    and q: "\<And>t h f. t \<in> set (concat qs) \<Longrightarrow> mem s t = Some (Init (TaskInner h f)) \<Longrightarrow>
      (if unat (t_rc h) = 1 then mem s' t = None
       else \<exists>nx. mem s' t = Some (Dropped (TaskInner (h\<lparr>t_next := nx, t_status := t_status h OR DROPPED, t_rc := t_rc h - 1\<rparr>) f)))"
    unfolding Let_def count_list.simps give_up_0 add_0_right of_nat_1 by blast
  have "unat (x :: usize) = 1 \<longleftrightarrow> x = 1" for x by (metis unat_1 word_unat_eq_iff)
  then show ?thesis using s' q by auto
qed

text \<open>
  C10: the tear-down of the runtime is memory safe and complete, also when the destructors of the queued futures drop
  wakers.  If every queued task still has its future and the runtime's reference, and each task has one more reference
  for every waker the queued futures hold, the guard's \<open>drop\<close> ends without a fault; all workers, the epoch word and
  the shared data are freed and \<open>GLOBAL\<close> is null; of every queued task the future is dropped and the runtime's
  reference is given up, and its memory is freed exactly if no reference is left then; every other task loses as many
  references as the queued futures held wakers of it, and is freed with the last one; every other block of memory is as
  before; and a warning is printed for exactly the queued tasks that still had other references right after their own
  destructor.
\<close>

theorem WorkerGuard_drop_frees:
  assumes "runtime s ep e wps qs" and "\<forall>t\<in>set (concat qs). droppable s t"
    and "refs_ok (all_wakers owned s (concat qs)) (concat qs) s"
  shows "\<exists>s'. WorkerGuard_drop owned s = Some (Inr s') \<and> GLOBAL s' = null \<and> LOCAL s' = LOCAL s \<and>
    (\<forall>a \<in> set wps \<union> {ep, GLOBAL s}. mem s' a = None) \<and>
    (\<forall>t h f. t \<in> set (concat qs) \<longrightarrow> mem s t = Some (Init (TaskInner h f)) \<longrightarrow>
       (let gone = 1 + count_list (all_wakers owned s (concat qs)) t
        in if unat (t_rc h) = gone then mem s' t = None
           else \<exists>nx. mem s' t = Some (Dropped (TaskInner
             (h\<lparr>t_next := nx, t_status := t_status h OR DROPPED, t_rc := t_rc h - of_nat gone\<rparr>) f)))) \<and>
    (\<forall>a. a \<notin> set wps \<union> {ep, GLOBAL s} \<union> set (concat qs) \<longrightarrow>
       mem s' a = give_up (count_list (all_wakers owned s (concat qs)) a) (mem s a)) \<and>
    events s' = events s @ leak_warnings owned s [] (concat qs)"
  by (rule WorkerGuard_drop_gen[OF assms])

text \<open>
  Waking an idle task after the runtime is gone is undefined behaviour.  Once \<open>GLOBAL\<close> is null
  again, \<open>wake\<close> on a task that was waiting for an event dereferences the null pointer (\<open>task.rs\<close> 130),
  although the task is still allocated and the documentation of \<open>Task\<close> promises that \<open>wake\<close> stays
  safe after the shutdown.
\<close>

lemma wake_after_shutdown_faults:
  assumes "is_task s t" and "t_status (task_at s t) = 0" and "GLOBAL s = null" and "LOCAL s i = null"
  shows "wake i t s = Inl Null_deref"
  using assms by (simp add: wake_idle_unfold RuntimeLocalData_get_def get_local_def RuntimeSharedData_get_def get_global_def
      deref_shared_def deref_def Let_def)

text \<open>
  C39: a task that wakes an idle task from a worker thread is undefined behaviour.  On a worker thread
  \<open>LOCAL\<close> points to the \<open>Worker\<close> (\<open>Worker::set\<close>), but \<open>wake\<close> takes any non-null \<open>LOCAL\<close> for a
  \<open>RuntimeLocalData\<close> (\<open>task.rs\<close> 123, 256).
\<close>

theorem wake_on_worker_faults:
  assumes "runtime s ep e wps qs" and "k < length wps" and "LOCAL s i = wps ! k"
    and "is_task s t" and "t_status (task_at s t) = 0"
  shows "wake i t s = Inl Type_confusion"
proof -
  obtain w where "mem s (wps ! k) = Some (Init (Obj_worker w))" "wps ! k \<noteq> null"
    using assms(1,2) by (auto simp: runtime_def worker_at_def)
  moreover from this have "mem (with_hdr t g s) (wps ! k) = Some (Init (Obj_worker w))" for g by simp
  ultimately have "deref_local (wps ! k) (with_hdr t g s) = Inl Type_confusion" for g
    by (simp only: deref_local_def deref_def) simp
  then show ?thesis using assms(3-) \<open>wps ! k \<noteq> null\<close>
    by (simp add: wake_idle_unfold RuntimeLocalData_get_def get_local_def Let_def)
qed

section \<open>Witnesses\<close>

text \<open>Task 5 is queued with the reference of the runtime and one waker, which its own future holds, like a waker of task 6.\<close>

definition held_rt :: "unit rt" where
  "held_rt = example_rt\<lparr>mem := (mem example_rt)(5 \<mapsto> Init (TaskInner (example_task 3 2) ()))\<rparr>"

theorem WorkerGuard_drop_frees_witness:
  "\<exists>s'. WorkerGuard_drop (\<lambda>_. [5, 6]) held_rt = Some (Inr s') \<and> GLOBAL s' = null \<and> mem s' 3 = None \<and> mem s' 5 = None \<and>
     mem s' 6 = Some (Init (TaskInner (example_task 0 1) ())) \<and> events s' = []"
proof -
  have g: "GLOBAL held_rt = 1" "events held_rt = []" "mem held_rt 5 = Some (Init (TaskInner (example_task 3 2) ()))"
      "mem held_rt 6 = Some (Init (TaskInner (example_task 0 2) ()))"
    by (simp_all add: held_rt_def example_rt_def)
  have rt: "runtime held_rt 2 2560 [3, 4] [[], [5]]"
    using example_runtime by (auto simp: held_rt_def example_objects runtime_def worker_at_def queue_at_def holds_def is_task_def less_Suc_eq)
  have d: "droppable held_rt 5" using g by (simp add: droppable_def example_task_def status_bits)
  have w: "all_wakers (\<lambda>_. [5, 6]) held_rt [5] = [5, 6]" using g by (simp add: all_wakers_def)
  have "refs_ok [5, 6] [5] held_rt" using g by (auto simp: refs_ok_def example_task_def)
  then show ?thesis using WorkerGuard_drop_frees[OF rt, of "\<lambda>_. [5, 6]"] g d w
    by (auto simp: example_task_def give_up_def)
qed

lemma wake_after_shutdown_faults_example:
  "is_task (example_rt\<lparr>GLOBAL := null\<rparr>) 6 \<and> wake 3 6 (example_rt\<lparr>GLOBAL := null\<rparr>) = Inl Null_deref"
proof -
  have t: "is_task (example_rt\<lparr>GLOBAL := null\<rparr>) 6" "task_at (example_rt\<lparr>GLOBAL := null\<rparr>) 6 = example_task 0 2"
    by (simp_all add: example_rt_def is_task_def task_at_def)
  then show ?thesis using wake_after_shutdown_faults[OF t(1), of 3] by (simp add: example_objects example_task_def)
qed

theorem wake_on_worker_faults_witness:
  "runtime example_rt 2 2560 [3, 4] [[], [5]] \<and> LOCAL example_rt 0 = 3 \<and> wake 0 6 example_rt = Inl Type_confusion"
  using wake_on_worker_faults[OF example_runtime, of 0 0 6] example_runtime by (simp add: example_objects example_task_def)

end
