(* ===== verification/Runtime.thy ===== *)
theory Runtime
  imports Worker_Manager
begin

text \<open>
  The interface of the runtime (\<open>yaay-mt-runtime/src/runtime.rs\<close>), and what its operations do to the
  queues.  The first half of \<open>run_with\<close> is in theory \<open>Startup\<close>.
\<close>

section \<open>Definitions\<close>

fun push_all_front :: "'f \<Rightarrow> addr list \<Rightarrow> addr list \<Rightarrow> 'f rt \<Rightarrow> 'f rt res" where
  "push_all_front fut [] ps s = Inr s"
| "push_all_front fut (x # xs) ps s =
     bind_r (Task_new (hd ps) fut s) (\<lambda>(task, s).
     bind_r (on_queue x (\<lambda>l. push_front l task) s) (\<lambda>s. push_all_front fut xs (tl ps) s))"

definition shutdown_async :: "'f \<Rightarrow> addr list \<Rightarrow> 'f rt \<Rightarrow> 'f rt res" where
  "shutdown_async fut ps s =
     bind_r (RuntimeSharedData_get s) (\<lambda>shared.
     bind_r (push_all_front fut (worker_ptrs shared) ps s) (\<lambda>s.
       next_epoch_at (s_epoch shared) s))"

definition MTRuntime_defer :: "addr \<Rightarrow> 'f \<Rightarrow> tid \<Rightarrow> 'f rt \<Rightarrow> 'f rt res" where
  "MTRuntime_defer p future i s =
     bind_r (Task_new p future s) (\<lambda>(task, s).
     bind_r (Worker_get i s) (\<lambda>(a, w). defer_w a task s))"

definition MTRuntime_spawn :: "addr \<Rightarrow> 'f \<Rightarrow> tid \<Rightarrow> 'f rt \<Rightarrow> 'f rt res" where
  "MTRuntime_spawn p future i s =
     bind_r (Task_new p future s) (\<lambda>(task, s).
     bind_r (Worker_get i s) (\<lambda>(a, w). spawn_w a task s))"

definition MTRuntime_rng_gen :: "tid \<Rightarrow> 'f rt \<Rightarrow> (u32 \<times> 'f rt) res" where
  "MTRuntime_rng_gen i s = bind_r (Worker_get i s) (\<lambda>(a, w). rng_gen_w a s)"

section \<open>New tasks\<close>

abbreviation fresh_task :: Task where
  "fresh_task \<equiv> \<lparr>t_status = MUTED OR NOTIFIED, t_rc = 1, t_next = null, t_worker_id = 0\<rparr>"

lemma runtime_alloc:
  assumes rt: "runtime s ep e wps qs" and p: "mem s p = None"
  shows "runtime (s\<lparr>mem := (mem s)(p \<mapsto> b)\<rparr>) ep e wps qs"
proof -
  let ?s = "s\<lparr>mem := (mem s)(p \<mapsto> b)\<rparr>"
  have q: "queue_at ?s l xs" if "queue_at s l xs" for l xs
    using that queue_tasks[OF that] not_task(5)[OF p] by (subst queue_at_cong) auto
  have "worker_at ?s ep wps qs j" if k: "j < length wps" for j
  proof -
    obtain w where w: "mem s (wps ! j) = Some (Init (Obj_worker w))" "worker_ok ep wps j w"
      "queue_at s (task_list w) (qs ! j)" "wps ! j \<noteq> null" using runtime_worker[OF rt k] by blast
    then have "wps ! j \<noteq> p" using p by auto
    then show ?thesis using w q[OF w(3)] by (auto simp: worker_at_def)
  qed
  then show ?thesis using rt p by (auto simp: runtime_def)
qed

lemma Task_new_ok:
  assumes rt: "runtime s ep e wps qs" and p: "p \<noteq> null" "alloc_ok p (mem s)"
  shows "\<exists>s'. Task_new p fut s = Inr (p, s') \<and> runtime s' ep e wps qs \<and> p \<notin> set (concat qs) \<and>
    mem s' p = Some (Init (TaskInner fresh_task fut)) \<and> is_task s' p \<and> (\<forall>a. a \<noteq> p \<longrightarrow> mem s' a = mem s a) \<and>
    GLOBAL s' = GLOBAL s \<and> LOCAL s' = LOCAL s \<and> events s' = events s \<and> (\<forall>a. is_task s a \<longrightarrow> is_task s' a)"
proof -
  have m: "mem s p = None" using p by (auto simp: alloc_ok_def)
  let ?s = "s\<lparr>mem := (mem s)(p \<mapsto> Init (TaskInner fresh_task fut))\<rparr>"
  have "Task_new p fut s = Inr (p, ?s)" using p(1) by (simp add: Task_new_def new_obj_def do_new_eq)
  moreover have "runtime ?s ep e wps qs" by (rule runtime_alloc[OF rt m])
  moreover have "p \<notin> set (concat qs)" using runtime_task[OF rt, of p] not_task(5)[OF m] by blast
  ultimately show ?thesis using p(1) by (auto simp: is_task_def)
qed

lemma local_worker:
  assumes "runtime s ep e wps qs" "k < length wps" "LOCAL s i = wps ! k"
  shows "\<exists>w. Worker_get i s = Inr (wps ! k, w)"
  using runtime_worker[OF assms(1,2)] assms(3) by (auto simp: Worker_get_def get_local_def Let_def)

lemma keeps_fresh:
  assumes "keeps s s'" "is_task s p" "mem s p = Some (Init (TaskInner h f))"
  shows "t_status (task_at s' p) = t_status h \<and> t_rc (task_at s' p) = t_rc h"
  using keeps_task[OF assms(1,2)] assms(3) by (simp add: task_at_def)

text \<open>
  \<open>spawn\<close> of the interface, end to end.  Called on worker thread \<open>k\<close> with an allocation that
  succeeds, it creates one task (\<open>MUTED | NOTIFIED\<close>, one reference) and puts it at the end of the
  queue the worker's seed picks, and \<open>defer\<close> puts it at the front of the worker's own queue.
\<close>

lemma MTRuntime_spawn_defer:
  assumes rt: "runtime s ep e wps qs" and k: "k < length wps" "LOCAL s i = wps ! k"
    and p: "p \<noteq> null" "alloc_ok p (mem s)" and j: "j = spawn_target (length wps) k (seed_of s (wps ! k))"
  shows "(\<exists>s'. MTRuntime_spawn p fut i s = Inr s' \<and>
      runtime s' ep (if j = k then e else e + EPOCH) wps (qs[j := qs ! j @ [p]])) \<and>
    (\<exists>s'. MTRuntime_defer p fut i s = Inr s' \<and> runtime s' ep e wps (qs[k := p # qs ! k]) \<and>
      t_status (task_at s' p) = MUTED OR NOTIFIED \<and> t_rc (task_at s' p) = 1)"
proof -
  from Task_new_ok[OF rt p, of fut] obtain s1 where
    s1: "Task_new p fut s = Inr (p, s1)" "runtime s1 ep e wps qs" "p \<notin> set (concat qs)"
      "mem s1 p = Some (Init (TaskInner fresh_task fut))" "is_task s1 p" "\<forall>a. a \<noteq> p \<longrightarrow> mem s1 a = mem s a" "LOCAL s1 = LOCAL s" by blast
  obtain w where w: "Worker_get i s1 = Inr (wps ! k, w)" using local_worker[OF s1(2) k(1)] k(2) s1(7) by auto
  obtain u where "mem s (wps ! k) = Some (Init (Obj_worker u))" using runtime_worker[OF rt k(1)] by blast
  then have "wps ! k \<noteq> p" using p by (auto simp: alloc_ok_def)
  then have "seed_of s1 (wps ! k) = seed_of s (wps ! k)" using s1(6) by (simp add: seed_of_def)
  then show ?thesis
    using s1(1) w spawn_ok[OF s1(2) k(1) s1(5,3)] on_queue_push_front[OF s1(2) k(1) s1(5,3)] j keeps_fresh[OF _ s1(5,4)]
    by (auto simp: MTRuntime_spawn_def MTRuntime_defer_def defer_w_def)
qed

text \<open>Pushing one new task to the front of each queue.\<close>

lemma push_all_front_ok:
  assumes "runtime s ep e wps qs" "ws = drop k wps" "length ps = length ws" "distinct ps" 
    and "\<forall>p\<in>set ps. p \<noteq> null \<and> alloc_ok p (mem s)"
  shows "\<exists>s'. push_all_front fut ws ps s = Inr s' \<and>
    runtime s' ep e wps (take k qs @ map2 (#) ps (drop k qs)) \<and> events s' = events s"
  using assms
proof (induction ws arbitrary: k ps s qs)
  case Nil
  then show ?case by (auto simp: runtime_def)
next
  case (Cons x xs)
  then obtain p ps' where ps: "ps = p # ps'" by (cases ps) auto
  have k: "k < length wps" using Cons.prems(2) by (metis drop_eq_Nil2 list.distinct(1) not_less)
  then have x: "x = wps ! k" "xs = drop (Suc k) wps" using Cons.prems(2) by (simp_all add: Cons_nth_drop_Suc[symmetric])
  from Task_new_ok[OF Cons.prems(1), of p fut] Cons.prems(5) ps obtain s1 where
    s1: "Task_new p fut s = Inr (p, s1)" "runtime s1 ep e wps qs" "p \<notin> set (concat qs)" "is_task s1 p"
      "\<forall>a. a \<noteq> p \<longrightarrow> mem s1 a = mem s a" "events s1 = events s" by auto
  from on_queue_push_front[OF s1(2) k s1(4,3)] obtain s2 where
    s2: "on_queue (wps ! k) (\<lambda>l. push_front l p) s1 = Inr s2" "runtime s2 ep e wps (qs[k := p # qs ! k])" "keeps s1 s2" 
    by blast
  have "dom (mem s2) = insert p (dom (mem s))"
    using s2(3) s1(4,5) unfolding keeps_def is_task_def by (auto simp: dom_def)
  then have al: "\<forall>p\<in>set ps'. p \<noteq> null \<and> alloc_ok p (mem s2)"
    using Cons.prems(4,5) ps by (auto simp: alloc_ok_def)
  have "\<exists>s'. push_all_front fut xs ps' s2 = Inr s' \<and>
    runtime s' ep e wps (take (Suc k) (qs[k := p # qs ! k]) @ map2 (#) ps' (drop (Suc k) (qs[k := p # qs ! k]))) \<and>
    events s' = events s2"
    by (rule Cons.IH[OF s2(2) x(2)]) (use Cons.prems(3,4) ps al in auto)
  moreover have "take (Suc k) (qs[k := p # qs ! k]) @ map2 (#) ps' (drop (Suc k) (qs[k := p # qs ! k])) =
    take k qs @ map2 (#) ps (drop k qs)"
  proof -
    have "k < length qs" using k Cons.prems(1) by (simp add: runtime_def)
    moreover from this have "drop k qs = qs ! k # drop (Suc k) qs" by (simp add: Cons_nth_drop_Suc)
    ultimately show ?thesis by (simp add: ps take_Suc_conv_app_nth)
  qed
  ultimately show ?case using x(1) ps s1 s2 by (simp add: keeps_def)
qed

text \<open>
  \<open>shutdown_async\<close> puts one new \<open>Shutdown\<close> task at the front of every worker's queue, moves the
  epoch on by one and releases the parked workers if none was active.
\<close>

lemma shutdown_async_pushes:
  assumes rt: "runtime s ep e wps qs" and ps: "length ps = length wps" "distinct ps"
    and al: "\<forall>p\<in>set ps. p \<noteq> null \<and> alloc_ok p (mem s)"
  shows "\<exists>s'. shutdown_async fut ps s = Inr s' \<and> runtime s' ep (e + EPOCH) wps (map2 (#) ps qs) \<and>
    events s' = events s @ (if active_count e = 0 then [Unpark_all ep] else [])"
proof -
  from push_all_front_ok[OF rt _ _ ps(2) al, of wps 0 fut] ps(1) obtain s1 where
    s1: "push_all_front fut wps ps s = Inr s1" "runtime s1 ep e wps (map2 (#) ps qs)" "events s1 = events s" by auto
  from next_epoch_at_ok[OF s1(2)] show ?thesis
    using s1 by (auto simp: shutdown_async_def runtime_shared[OF rt] epoch_events_def)
qed

text \<open>
  \<open>WorkerGuard::run\<close> creates the main task and puts it at the end of worker 0's queue, moves the
  epoch on by one and releases the parked workers if none was active; with no worker at all the
  index is out of bounds and it panics.
\<close>

lemma WorkerGuard_run_pushes:
  assumes rt: "runtime s ep e wps qs" and p: "p \<noteq> null" "alloc_ok p (mem s)"
  shows "if wps = [] then WorkerGuard_run p fut s = Inl Panic_index
    else \<exists>s'. WorkerGuard_run p fut s = Inr s' \<and> runtime s' ep (e + EPOCH) wps (qs[0 := qs ! 0 @ [p]]) \<and>
      events s' = events s @ (if active_count e = 0 then [Unpark_all ep] else [])"
proof -
  from Task_new_ok[OF rt p, of fut] obtain s1 where
    s1: "Task_new p fut s = Inr (p, s1)" "runtime s1 ep e wps qs" "p \<notin> set (concat qs)" "is_task s1 p" "events s1 = events s"
    by blast
  have g: "deref_shared (get_global s1) s1 = Inr \<lparr>s_epoch = ep, worker_ptrs = wps\<rparr>"
    using runtime_shared[OF s1(2)] by (simp add: RuntimeSharedData_get_def)
  show ?thesis
  proof (cases wps)
    case Nil
    then show ?thesis using s1(1) g by (simp add: WorkerGuard_run_def index_checked_def)
  next
    case (Cons x xs)
    then have k: "0 < length wps" by simp
    from on_queue_push_back[OF s1(2) k s1(4,3)] obtain s2 where
      s2: "on_queue (wps ! 0) (\<lambda>l. push_back l p) s1 = Inr s2" "runtime s2 ep e wps (qs[0 := qs ! 0 @ [p]])" "keeps s1 s2" by blast
    have "events s2 = events s" using s2(3) s1(5) by (simp add: keeps_def)
    then show ?thesis using next_epoch_at_ok[OF s2(2)] s1(1) s2(1) g Cons k
      by (auto simp: WorkerGuard_run_def index_checked_def epoch_events_def)
  qed
qed

section \<open>Witnesses\<close>

lemma example_free: "alloc_ok 9 (mem example_rt)" "alloc_ok 10 (mem example_rt)"
  by (simp_all add: alloc_ok_def example_rt_def)

lemma MTRuntime_spawn_defer_example:
  "(\<exists>s'. MTRuntime_spawn 9 () 0 example_rt = Inr s' \<and> runtime s' 2 2560 [3, 4] [[9], [5]]) \<and>
   (\<exists>s'. MTRuntime_defer 9 () 0 example_rt = Inr s' \<and> runtime s' 2 2560 [3, 4] [[9], [5]])"
  using MTRuntime_spawn_defer[OF example_runtime, of 0 0 9 0 "()"]
  by (auto simp: example_objects example_seed spawn_target_def example_free)

lemma shutdown_async_pushes_example:
  "\<exists>s'. shutdown_async () [9, 10] example_rt = Inr s' \<and> runtime s' 2 (2560 + EPOCH) [3, 4] [[9], [10, 5]]"
  using shutdown_async_pushes[OF example_runtime, of "[9, 10]" "()"] by (auto simp: example_free)

lemma WorkerGuard_run_pushes_example:
  "\<exists>s'. WorkerGuard_run 9 () example_rt = Inr s' \<and> runtime s' 2 (2560 + EPOCH) [3, 4] [[9], [5]]"
  using WorkerGuard_run_pushes[OF example_runtime, of 9 "()"] by (auto simp: example_free)

end
