(* ===== verification/Rendezvous.thy ===== *)
theory Rendezvous
  imports Main
begin

text \<open>
  Meeting at a condition variable, as the start of the runtime and of the event loops does it.  Each of
  \<open>n\<close> threads runs through a program whose positions have a rank; a thread of rank \<open>k\<close> or more has
  arrived.  Threads that arrive early wait (position \<open>waits\<close>, and in the set \<open>W\<close> of the condition
  variable), and who finds everybody arrived goes to \<open>notifies\<close>.  \<open>meeting\<close> says that nobody waits in
  vain: a waiting thread is released or some thread is about to release it, and a released thread, and
  every thread past the meeting, finds that all have arrived.
\<close>

locale rendezvous =
  fixes rank :: "'p \<Rightarrow> nat"
begin

definition arrived :: "nat \<Rightarrow> nat \<Rightarrow> (nat \<Rightarrow> 'p) \<Rightarrow> bool" where
  "arrived n k at \<longleftrightarrow> (\<forall>v<n. k \<le> rank (at v))"

definition meeting :: "nat \<Rightarrow> nat \<Rightarrow> 'p \<Rightarrow> 'p \<Rightarrow> nat set \<Rightarrow> (nat \<Rightarrow> 'p) \<Rightarrow> bool" where
  "meeting n k waits notifies W at \<longleftrightarrow>
     (\<forall>v\<in>W. v < n \<longrightarrow> at v = waits) \<and>
     (arrived n k at \<longrightarrow> W = {} \<or> (\<exists>v<n. at v = notifies)) \<and>
     (\<forall>v<n. at v = waits \<and> v \<notin> W \<or> rank notifies \<le> rank (at v) \<longrightarrow> arrived n k at)"

lemma arrived_weaken: "arrived n k at \<Longrightarrow> j \<le> k \<Longrightarrow> arrived n j at"
  by (meson arrived_def le_trans)

lemma arrived_upd:
  "w < n \<Longrightarrow> arrived n k (at(w := pc)) \<longleftrightarrow> k \<le> rank pc \<and> (\<forall>v<n. v \<noteq> w \<longrightarrow> k \<le> rank (at v))"
  by (auto simp: arrived_def)

lemma arrived_mono: "w < n \<Longrightarrow> rank (at w) \<le> rank pc \<Longrightarrow> arrived n k at \<Longrightarrow> arrived n k (at(w := pc))"
  unfolding arrived_def by (metis fun_upd_apply le_trans)

lemma arrived_same: "w < n \<Longrightarrow> k \<le> rank (at w) \<longleftrightarrow> k \<le> rank pc \<Longrightarrow> arrived n k (at(w := pc)) \<longleftrightarrow> arrived n k at"
  unfolding arrived_def by (metis fun_upd_apply)

lemma meetingD:
  assumes "meeting n k wt nt W at"
  shows "v \<in> W \<Longrightarrow> v < n \<Longrightarrow> at v = wt"
    "arrived n k at \<Longrightarrow> W = {} \<or> (\<exists>v<n. at v = nt)"
    "v < n \<Longrightarrow> at v = wt \<Longrightarrow> v \<notin> W \<Longrightarrow> arrived n k at"
    "v < n \<Longrightarrow> rank nt \<le> rank (at v) \<Longrightarrow> arrived n k at"
  using assms by (simp_all add: meeting_def)

lemma meetingI:
  assumes "\<And>v. v \<in> W \<Longrightarrow> v < n \<Longrightarrow> at v = wt"
    and "arrived n k at \<Longrightarrow> W \<noteq> {} \<Longrightarrow> \<exists>v<n. at v = nt"
    and "\<And>v. v < n \<Longrightarrow> at v = wt \<Longrightarrow> v \<notin> W \<Longrightarrow> arrived n k at"
    and "\<And>v. v < n \<Longrightarrow> rank nt \<le> rank (at v) \<Longrightarrow> arrived n k at"
  shows "meeting n k wt nt W at"
  unfolding meeting_def using assms by blast

lemma meeting_other:
  assumes meet: "meeting n k wt nt W at" and w: "w < n" and no: "at w \<noteq> nt" "pc \<noteq> wt" "w \<notin> W"
    and k: "k \<le> rank (at w) \<longleftrightarrow> k \<le> rank pc" and past: "rank nt \<le> rank pc \<longrightarrow> arrived n k at"
  shows "meeting n k wt nt W (at(w := pc))"
proof -
  have arr: "arrived n k (at(w := pc)) \<longleftrightarrow> arrived n k at" using w k by (rule arrived_same)
  show ?thesis
  proof (rule meetingI)
    show "\<exists>v<n. (at(w := pc)) v = nt" if "arrived n k (at(w := pc))" "W \<noteq> {}"
      using meetingD(2)[OF meet] that no(1) unfolding arr by (metis fun_upd_other)
  qed (use meetingD(1,3,4)[OF meet] no past arr in \<open>auto split: if_splits\<close>)
qed

lemma meeting_arrive:
  assumes meet: "meeting n k wt nt W at" and w: "w < n" and r: "rank (at w) < k" "k \<le> rank pc0" "rank pc0 < rank nt"
    and wt: "rank wt \<noteq> rank pc0" "rank wt \<noteq> rank nt" "k \<le> rank wt"
    and pc: "pc = (if arrived n k (at(w := pc0)) then nt else pc0)"
  shows "meeting n k wt nt W (at(w := pc))"
proof -
  have no: "\<not> arrived n k at" using w r(1) by (auto simp: arrived_def dest!: spec[of _ w])
  have arr: "arrived n k (at(w := pc)) \<longleftrightarrow> arrived n k (at(w := pc0))" using w r by (auto simp: arrived_upd pc)
  have "w \<notin> W" using meet w r(1) wt(3) by (auto simp: meeting_def)
  show ?thesis
  proof (rule meetingI)
    show "\<exists>v<n. (at(w := pc)) v = nt" if "arrived n k (at(w := pc))" using w that by (auto simp: arr pc)
    show "arrived n k (at(w := pc))" if "v < n" "rank nt \<le> rank ((at(w := pc)) v)" for v
      using meetingD(4)[OF meet that(1)] that(2) no r(3) unfolding arr by (auto simp: pc split: if_splits)
    show "arrived n k (at(w := pc))" if "v < n" "(at(w := pc)) v = wt" "v \<notin> W" for v
      using meetingD(3)[OF meet that(1)] that(2,3) no wt by (auto simp: pc split: if_splits)
  qed (use meetingD(1)[OF meet] \<open>w \<notin> W\<close> in auto)
qed

text \<open>Arriving and, unless everybody is there, waiting in one step.\<close>

lemma meeting_arrive_park:
  assumes meet: "meeting n k wt nt W at" and w: "w < n" and r: "rank (at w) < k" "k \<le> rank wt" "rank wt < rank nt"
  shows "if arrived n k (at(w := wt)) then meeting n k wt nt W (at(w := nt)) else meeting n k wt nt (insert w W) (at(w := wt))"
proof -
  have no: "\<not> arrived n k at" using w r(1) by (auto simp: arrived_def dest!: spec[of _ w])
  have "w \<notin> W" using meet w r(1,2) by (auto simp: meeting_def)
  have old: "at v \<noteq> wt \<or> v \<in> W" "\<not> rank nt \<le> rank (at v)" if "v < n" for v
    using meetingD(3,4)[OF meet that] no by auto
  show ?thesis
  proof (cases "arrived n k (at(w := wt))")
    case True
    then have "arrived n k (at(w := nt))" using w r by (auto simp: arrived_upd)
    moreover from this have "meeting n k wt nt W (at(w := nt))"
      using w meetingD(1)[OF meet] \<open>w \<notin> W\<close> by (intro meetingI) auto
    ultimately show ?thesis using True by simp
  next
    case False
    have "meeting n k wt nt (insert w W) (at(w := wt))"
    proof (rule meetingI)
      show "arrived n k (at(w := wt))" if "v < n" "(at(w := wt)) v = wt" "v \<notin> insert w W" for v
        using old(1)[OF that(1)] that(2,3) by simp
      show "arrived n k (at(w := wt))" if "v < n" "rank nt \<le> rank ((at(w := wt)) v)" for v
        using old(2)[OF that(1)] that(2) r(3) by (cases "v = w") simp_all
    qed (use meetingD(1)[OF meet] False in auto)
    then show ?thesis using False by simp
  qed
qed

lemma meeting_notify:
  assumes "meeting n k wt nt W at" "w < n" "at w = nt" "rank nt \<le> rank pc"
  shows "meeting n k wt nt {} (at(w := pc))"
proof -
  have "arrived n k at" using assms by (auto simp: meeting_def)
  then have "arrived n k (at(w := pc))" using arrived_mono[OF assms(2), of at pc] assms(3,4) by simp
  then show ?thesis by (simp add: meeting_def)
qed

lemma meeting_park:
  assumes "meeting n k wt nt W at" "w < n" "at w \<noteq> nt" "k \<le> rank (at w)" "k \<le> rank wt" "rank wt < rank nt"
    and "\<not> arrived n k at"
  shows "meeting n k wt nt (insert w W) (at(w := wt))"
proof -
  have arr: "arrived n k (at(w := wt)) \<longleftrightarrow> arrived n k at" by (rule arrived_same) (use assms in auto)
  show ?thesis
  proof (rule meetingI)
    show "arrived n k (at(w := wt))" if "v < n" "rank nt \<le> rank ((at(w := wt)) v)" for v
      using meetingD(4)[OF assms(1) that(1)] that(2) assms(6) unfolding arr by (auto split: if_splits)
    show "arrived n k (at(w := wt))" if "v < n" "(at(w := wt)) v = wt" "v \<notin> insert w W" for v
      using meetingD(3)[OF assms(1) that(1)] that(2,3) unfolding arr by auto
  qed (use meetingD(1)[OF assms(1)] assms(7) arr in auto)
qed

lemma meeting_insert:
  assumes "meeting n k wt nt W at" "\<not> arrived n k at" "n \<le> x"
  shows "meeting n k wt nt (insert x W) at"
  using meetingD[OF assms(1)] assms(2,3) by (intro meetingI) auto

end

end
