(* ===== verification/Startup.thy ===== *)
theory Startup
  imports Runtime Parking Rendezvous
begin

text \<open>
  The start of the runtime under concurrency: \<open>WorkerManager::new\<close>, \<open>builder\<close> and \<open>wait\<close>,
  \<open>WorkerBuilder::build\<close> (\<open>worker_manager.rs\<close>) and the first half of \<open>run_with\<close> (\<open>runtime.rs\<close>).

  The main thread creates one thread per worker.  The worker threads allocate their \<open>Worker\<close>, meet
  at the condition variable of \<open>worker_ptrs\<close> until all pointers are there, write their \<open>Worker\<close>, and
  meet again, with the main thread, at the condition variable of \<open>n_built\<close>.  One step is one locked
  section, one call of a condition variable, or one access of memory; a wait gives the lock back and
  enqueues the thread in one step, and a released thread takes the lock and tests its condition in one
  step.  The memory is that of the sequential model (\<open>rt\<close>); worker thread \<open>w\<close> has the number \<open>w\<close> and
  the main thread the number \<open>n\<close> in the condition variables.
\<close>

section \<open>Definitions\<close>

datatype bpc =
    B_unborn
  | B_alloc           \<comment> \<open>worker_manager.rs 99-100\<close>
  | B_put             \<comment> \<open>102-105\<close>
  | B_notify_ptrs     \<comment> \<open>108\<close>
  | B_check_ptrs      \<comment> \<open>110-111\<close>
  | B_wait_ptrs       \<comment> \<open>112\<close>
  | B_clone           \<comment> \<open>117-120\<close>
  | B_write           \<comment> \<open>121-123\<close>
  | B_count           \<comment> \<open>125-128\<close>
  | B_notify_built    \<comment> \<open>131\<close>
  | B_check_built     \<comment> \<open>133-134\<close>
  | B_wait_built      \<comment> \<open>134\<close>
  | B_loop            \<comment> \<open>\<open>build\<close> has returned: runtime.rs 33\<close>

datatype mpc =
    M_spawn nat       \<comment> \<open>runtime.rs 27-37: the next thread to create\<close>
  | M_check           \<comment> \<open>worker_manager.rs 81-82\<close>
  | M_wait            \<comment> \<open>82\<close>
  | M_publish         \<comment> \<open>85-89\<close>
  | M_ready           \<comment> \<open>\<open>wait\<close> has returned: runtime.rs 39\<close>

record ('f, 'l) startup =
  st_rt :: "'f rt"
  m_epoch :: addr
  m_ptrs :: "addr list"
  m_ptrs_cond :: 'l
  m_built :: u32
  m_built_cond :: 'l
  next_worker_id :: u32
  b_at :: "nat \<Rightarrow> bpc"
  b_ptr :: "nat \<Rightarrow> addr"
  b_others :: "nat \<Rightarrow> addr list"
  m_at :: mpc
  st_fault :: "fault option"

text \<open>\<open>p\<close> is the address the allocator returns and \<open>l\<close> a condition variable without waiters.\<close>

definition WorkerManager_new :: "u32 \<Rightarrow> addr \<Rightarrow> 'l \<Rightarrow> 'f rt \<Rightarrow> ('f, 'l) startup res" where
  "WorkerManager_new n p l s =
     bind_r (Epoch_new n) (\<lambda>e.
     bind_r (new_obj p (Obj_epoch e) s) (\<lambda>(ep, s).
       Inr \<lparr>st_rt = s, m_epoch = ep, m_ptrs = replicate (unat n) null, m_ptrs_cond = l, m_built = 0,
         m_built_cond = l, next_worker_id = 0, b_at = (\<lambda>_. B_unborn), b_ptr = (\<lambda>_. null),
         b_others = (\<lambda>_. []), m_at = M_spawn 0, st_fault = None\<rparr>))"

definition b_go :: "nat \<Rightarrow> bpc \<Rightarrow> ('f, 'l) startup \<Rightarrow> ('f, 'l) startup" where
  "b_go w pc s = s\<lparr>b_at := (b_at s)(w := pc)\<rparr>"

definition or_fail :: "'a res \<Rightarrow> ('a \<Rightarrow> ('f, 'l) startup) \<Rightarrow> ('f, 'l) startup \<Rightarrow> ('f, 'l) startup" where
  "or_fail r f s = (case r of Inl e \<Rightarrow> s\<lparr>st_fault := Some e\<rparr> | Inr x \<Rightarrow> f x)"

definition all_set :: "addr list \<Rightarrow> bool" where
  "all_set ptrs = list_all (\<lambda>x. x \<noteq> null) ptrs"

text \<open>\<open>iter().enumerate().filter(..).map(NonNull::new(..).unwrap()).collect()\<close>\<close>

definition collect_others :: "nat \<Rightarrow> addr list \<Rightarrow> addr list res" where
  "collect_others w ptrs =
     (let others = map snd (filter (\<lambda>(i, x). i \<noteq> w) (enumerate 0 ptrs))
      in if all_set others then Inr others else Inl Panic_unwrap)"

definition check_ptrs :: "'l parking_lot \<Rightarrow> nat \<Rightarrow> ('f, 'l) startup \<Rightarrow> ('f, 'l) startup" where
  "check_ptrs P w s =
     (if all_set (m_ptrs s) then b_go w B_clone s
      else b_go w B_wait_ptrs (s\<lparr>m_ptrs_cond := pl_park P w (m_ptrs_cond s)\<rparr>))"

definition check_built :: "'l parking_lot \<Rightarrow> u32 \<Rightarrow> nat \<Rightarrow> ('f, 'l) startup \<Rightarrow> ('f, 'l) startup" where
  "check_built P n w s =
     (if m_built s = n then b_go w B_loop s
      else b_go w B_wait_built (s\<lparr>m_built_cond := pl_park P w (m_built_cond s)\<rparr>))"

text \<open>
  One step of \<open>WorkerBuilder::build\<close> on thread \<open>w\<close>; \<open>p\<close> is the allocator's answer, \<open>t\<close> the time.
  \<open>None\<close>: the thread cannot move.
\<close>

definition builder_step :: "'l parking_lot \<Rightarrow> u32 \<Rightarrow> nat \<Rightarrow> addr \<Rightarrow> int \<Rightarrow> ('f, 'l) startup \<Rightarrow> ('f, 'l) startup option"
where
  "builder_step P n w p t s =
    (case b_at s w of
       B_unborn \<Rightarrow> None
     | B_alloc \<Rightarrow>
         (let (r, h) = do_alloc p (mem (st_rt s))
          in Some (case r of
               None \<Rightarrow> s\<lparr>st_fault := Some Panic_unwrap\<rparr>
             | Some a \<Rightarrow> b_go w B_put (s\<lparr>st_rt := Worker_set w a ((st_rt s)\<lparr>mem := h\<rparr>), b_ptr := (b_ptr s)(w := a)\<rparr>)))
     | B_put \<Rightarrow>
         Some (or_fail (index_checked (m_ptrs s) w) (\<lambda>_.
           let ptrs = (m_ptrs s)[w := b_ptr s w]
           in b_go w (if all_set ptrs then B_notify_ptrs else B_check_ptrs) (s\<lparr>m_ptrs := ptrs\<rparr>)) s)
     | B_notify_ptrs \<Rightarrow> Some (b_go w B_clone (s\<lparr>m_ptrs_cond := pl_unpark_all P (m_ptrs_cond s)\<rparr>))
     | B_check_ptrs \<Rightarrow> Some (check_ptrs P w s)
     | B_wait_ptrs \<Rightarrow> (if w \<in> pl_parked P (m_ptrs_cond s) then None else Some (check_ptrs P w s))
     | B_clone \<Rightarrow>
         Some (or_fail (collect_others w (m_ptrs s)) (\<lambda>others.
           b_go w B_write (s\<lparr>b_others := (b_others s)(w := others)\<rparr>)) s)
     | B_write \<Rightarrow>
         Some (or_fail (bind_r (Worker_new t (of_nat w) n (m_epoch s) (b_others s w)) (\<lambda>worker.
             on_mem (write_ptr (b_ptr s w) (Obj_worker worker)) (st_rt s))) (\<lambda>r.
           b_go w B_count (s\<lparr>st_rt := r\<rparr>)) s)
     | B_count \<Rightarrow>
         Some (or_fail (add_checked (m_built s) 1) (\<lambda>built.
           b_go w (if built = n then B_notify_built else B_check_built) (s\<lparr>m_built := built\<rparr>)) s)
     | B_notify_built \<Rightarrow> Some (b_go w B_loop (s\<lparr>m_built_cond := pl_unpark_all P (m_built_cond s)\<rparr>))
     | B_check_built \<Rightarrow> Some (check_built P n w s)
     | B_wait_built \<Rightarrow> (if w \<in> pl_parked P (m_built_cond s) then None else Some (check_built P n w s))
     | B_loop \<Rightarrow> None)"

definition m_check_built :: "'l parking_lot \<Rightarrow> u32 \<Rightarrow> ('f, 'l) startup \<Rightarrow> ('f, 'l) startup" where
  "m_check_built P n s =
     (if m_built s = n then s\<lparr>m_at := M_publish\<rparr>
      else s\<lparr>m_at := M_wait, m_built_cond := pl_park P (unat n) (m_built_cond s)\<rparr>)"

text \<open>One step of the main thread: \<open>builder\<close> and the creation of a thread, \<open>wait\<close>.\<close>

definition main_step :: "'l parking_lot \<Rightarrow> u32 \<Rightarrow> addr \<Rightarrow> ('f, 'l) startup \<Rightarrow> ('f, 'l) startup option" where
  "main_step P n p s =
    (case m_at s of
       M_spawn k \<Rightarrow>
         Some (if k < unat n then
             or_fail (add_checked (next_worker_id s) 1) (\<lambda>next_id.
               b_go (unat (next_worker_id s)) B_alloc (s\<lparr>next_worker_id := next_id, m_at := M_spawn (Suc k)\<rparr>)) s
           else s\<lparr>m_at := M_check\<rparr>)
     | M_check \<Rightarrow> Some (m_check_built P n s)
     | M_wait \<Rightarrow> (if unat n \<in> pl_parked P (m_built_cond s) then None else Some (m_check_built P n s))
     | M_publish \<Rightarrow>
         Some (or_fail (manager_publish p (m_epoch s) (m_ptrs s) (st_rt s)) (\<lambda>r.
           s\<lparr>st_rt := r, m_at := M_ready\<rparr>) s)
     | M_ready \<Rightarrow> None)"

datatype start_label = Build nat addr int | Main addr

fun start_act :: "'l parking_lot \<Rightarrow> u32 \<Rightarrow> start_label \<Rightarrow> ('f, 'l) startup \<Rightarrow> ('f, 'l) startup option" where
  "start_act P n (Build w p t) s = (if w < unat n \<and> st_fault s = None then builder_step P n w p t s else None)"
| "start_act P n (Main p) s = (if st_fault s = None then main_step P n p s else None)"

text \<open>The environment: allocations succeed, with unused addresses, and the clock is past 1970.\<close>

fun env_ok :: "start_label \<Rightarrow> ('f, 'l) startup \<Rightarrow> bool" where
  "env_ok (Build w p t) s = (p \<noteq> null \<and> alloc_ok p (mem (st_rt s)) \<and> 0 \<le> t)"
| "env_ok (Main p) s = (p \<noteq> null \<and> alloc_ok p (mem (st_rt s)))"

definition start_step :: "'l parking_lot \<Rightarrow> u32 \<Rightarrow> ('f, 'l) startup \<Rightarrow> ('f, 'l) startup \<Rightarrow> bool" where
  "start_step P n s t \<longleftrightarrow> (\<exists>a. env_ok a s \<and> start_act P n a s = Some t)"

text \<open>
  The state \<open>run_with\<close> starts from: a fresh allocation for the epoch, condition variables without
  waiters, and a finite heap.
\<close>

definition start_init :: "'l parking_lot \<Rightarrow> u32 \<Rightarrow> ('f, 'l) startup \<Rightarrow> bool" where
  "start_init P n s \<longleftrightarrow> (\<exists>p l r. WorkerManager_new n p l r = Inr s \<and> alloc_ok p (mem r) \<and> finite (dom (mem r)) \<and>
     pl_parked P l = {})"

abbreviation start_reach :: "'l parking_lot \<Rightarrow> u32 \<Rightarrow> ('f, 'l) startup \<Rightarrow> bool" where
  "start_reach P n \<equiv> reach (start_init P n) (start_step P n)"

section \<open>The invariant\<close>

fun b_rank :: "bpc \<Rightarrow> nat" where
  "b_rank B_unborn = 0"
| "b_rank B_alloc = 1"
| "b_rank B_put = 2"
| "b_rank B_check_ptrs = 3"
| "b_rank B_wait_ptrs = 4"
| "b_rank B_notify_ptrs = 5"
| "b_rank B_clone = 6"
| "b_rank B_write = 7"
| "b_rank B_count = 8"
| "b_rank B_check_built = 9"
| "b_rank B_wait_built = 10"
| "b_rank B_notify_built = 11"
| "b_rank B_loop = 12"

lemma unat_less_32: "unat (n :: u32) < 2 ^ 32"
  using unsigned_less[of n] by simp

lemma unat_of_nat_32: "k < 2 ^ 32 \<Longrightarrow> unat (of_nat k :: u32) = k"
  by (simp add: unsigned_of_nat take_bit_nat_eq_self)

interpretation b: rendezvous b_rank .

text \<open>
  The control part.  Nobody waits in vain: a waiting thread is released or some thread is about to
  release it, and a released thread finds its condition true.
\<close>

definition sync_ptrs :: "u32 \<Rightarrow> nat set \<Rightarrow> (nat \<Rightarrow> bpc) \<Rightarrow> bool" where
  "sync_ptrs n W at \<longleftrightarrow> b.meeting (unat n) 3 B_wait_ptrs B_notify_ptrs W at \<and> W \<subseteq> {..<unat n}"

definition sync_built :: "u32 \<Rightarrow> nat set \<Rightarrow> (nat \<Rightarrow> bpc) \<Rightarrow> mpc \<Rightarrow> bool" where
  "sync_built n W at m \<longleftrightarrow> b.meeting (unat n) 9 B_wait_built B_notify_built W at \<and> W \<subseteq> {..unat n} \<and>
     (unat n \<in> W \<longrightarrow> m = M_wait) \<and>
     (m = M_wait \<and> unat n \<notin> W \<or> m = M_publish \<or> m = M_ready \<longrightarrow> b.arrived (unat n) 9 at)"

definition main_ok :: "u32 \<Rightarrow> ('f, 'l) startup \<Rightarrow> bool" where
  "main_ok n s \<longleftrightarrow>
     (case m_at s of
        M_spawn k \<Rightarrow> k \<le> unat n \<and> unat (next_worker_id s) = k \<and> (\<forall>v<unat n. b_at s v = B_unborn \<longleftrightarrow> k \<le> v)
      | M_ready \<Rightarrow> GLOBAL (st_rt s) \<noteq> null \<and>
          mem (st_rt s) (GLOBAL (st_rt s)) = Some (Init (Obj_shared \<lparr>s_epoch = m_epoch s, worker_ptrs = m_ptrs s\<rparr>)) \<and>
          b.arrived (unat n) 1 (b_at s)
      | _ \<Rightarrow> b.arrived (unat n) 1 (b_at s))"

definition count_built :: "u32 \<Rightarrow> (nat \<Rightarrow> bpc) \<Rightarrow> nat" where
  "count_built n at = (\<Sum>v<unat n. if 9 \<le> b_rank (at v) then 1 else 0)"

text \<open>
  The data part: the pointer of a builder is its own and \<open>LOCAL\<close> holds it, and its block is written
  or not according to the builder's position.
\<close>

definition built_worker :: "'f rt \<Rightarrow> addr \<Rightarrow> addr list \<Rightarrow> nat \<Rightarrow> addr \<Rightarrow> bool" where
  "built_worker r ep ptrs w a \<longleftrightarrow> (\<exists>wk. mem r a = Some (Init (Obj_worker wk)) \<and> worker_ok ep ptrs w wk \<and>
     task_list wk = TaskList_new)"

definition builder_ok :: "('f, 'l) startup \<Rightarrow> nat \<Rightarrow> bool" where
  "builder_ok s w \<longleftrightarrow>
     (let k = b_rank (b_at s w); a = b_ptr s w
      in m_ptrs s ! w = (if 3 \<le> k then a else null) \<and>
         (2 \<le> k \<longrightarrow> a \<noteq> null \<and> LOCAL (st_rt s) w = a \<and>
           (if k \<le> 7 then mem (st_rt s) a = Some Uninit else built_worker (st_rt s) (m_epoch s) (m_ptrs s) w a)) \<and>
         (k = 7 \<longrightarrow> b_others s w = take w (m_ptrs s) @ drop (Suc w) (m_ptrs s)))"

definition data_ok :: "u32 \<Rightarrow> ('f, 'l) startup \<Rightarrow> bool" where
  "data_ok n s \<longleftrightarrow> st_fault s = None \<and> length (m_ptrs s) = unat n \<and> finite (dom (mem (st_rt s))) \<and>
     m_epoch s \<noteq> null \<and> mem (st_rt s) (m_epoch s) = Some (Init (Obj_epoch n)) \<and>
     (\<forall>w<unat n. builder_ok s w) \<and>
     (\<forall>w<unat n. \<forall>v<unat n. w \<noteq> v \<and> 2 \<le> b_rank (b_at s w) \<and> 2 \<le> b_rank (b_at s v) \<longrightarrow> b_ptr s w \<noteq> b_ptr s v) \<and>
     unat (m_built s) = count_built n (b_at s) \<and> main_ok n s"

definition start_inv :: "'l parking_lot \<Rightarrow> u32 \<Rightarrow> ('f, 'l) startup \<Rightarrow> bool" where
  "start_inv P n s \<longleftrightarrow> data_ok n s \<and> sync_ptrs n (pl_parked P (m_ptrs_cond s)) (b_at s) \<and>
     sync_built n (pl_parked P (m_built_cond s)) (b_at s) (m_at s)"

lemma ptr_set: "builder_ok s w \<Longrightarrow> null < m_ptrs s ! w \<longleftrightarrow> 3 \<le> b_rank (b_at s w)"
  by (simp add: builder_ok_def Let_def)

lemma all_set_iff: "data_ok n s \<Longrightarrow> all_set (m_ptrs s) \<longleftrightarrow> b.arrived (unat n) 3 (b_at s)"
  by (simp add: data_ok_def all_set_def list_all_length b.arrived_def ptr_set)

lemma count_upd:
  "w < unat n \<Longrightarrow> count_built n (at(w := pc)) + (if 9 \<le> b_rank (at w) then 1 else 0) =
     count_built n at + (if 9 \<le> b_rank pc then 1 else 0)"
  unfolding count_built_def by (rule sum_upd)

lemma count_le: "count_built n at \<le> unat n"
  using sum_mono[of "{..<unat n}" "\<lambda>v. if 9 \<le> b_rank (at v) then 1 else 0" "\<lambda>_. 1 :: nat"]
  by (simp add: count_built_def)

lemma count_full: "count_built n at = unat n \<longleftrightarrow> b.arrived (unat n) 9 at"
proof
  assume full: "count_built n at = unat n"
  show "b.arrived (unat n) 9 at" unfolding b.arrived_def
  proof (intro allI impI, rule ccontr)
    fix v assume "v < unat n" "\<not> 9 \<le> b_rank (at v)"
    then have "count_built n (at(v := B_loop)) = Suc (unat n)" using full count_upd[of v n at B_loop] by simp
    with count_le[of n "at(v := B_loop)"] show False by simp
  qed
qed (simp add: count_built_def b.arrived_def)

lemma built_iff: "data_ok n s \<Longrightarrow> m_built s = n \<longleftrightarrow> b.arrived (unat n) 9 (b_at s)"
  by (simp add: data_ok_def count_full[symmetric] word_unat_eq_iff)

lemma collect_others_eq:
  assumes "w < length ptrs" "all_set ptrs"
  shows "collect_others w ptrs = Inr (take w ptrs @ drop (Suc w) ptrs)"
proof -
  have split: "ptrs = take w ptrs @ ptrs ! w # drop (Suc w) ptrs" using assms(1) by (rule id_take_nth_drop)
  have 1: "filter (\<lambda>(i, x). i \<noteq> w) (enumerate k xs) = enumerate k xs" if "k + length xs \<le> w \<or> w < k" for k and xs :: "addr list"
    using that by (induction xs arbitrary: k) auto
  have "map snd (filter (\<lambda>(i, x). i \<noteq> w) (enumerate 0 ptrs)) = take w ptrs @ drop (Suc w) ptrs"
    using assms(1) by (subst split) (simp add: enumerate_append_eq 1)
  moreover have "all_set (take w ptrs @ drop (Suc w) ptrs)"
    using assms(2) by (auto simp: all_set_def list_all_iff dest: in_set_takeD in_set_dropD)
  ultimately show ?thesis by (simp add: collect_others_def)
qed

lemma rank_unborn: "b_at s w = B_unborn \<longleftrightarrow> \<not> 1 \<le> b_rank (b_at s w)"
  by (cases "b_at s w") auto

text \<open>What a step of one builder keeps of the others and of the main thread.\<close>

lemma builder_ok_frame:
  assumes "builder_ok s v" "b_at t v = b_at s v" "b_ptr t v = b_ptr s v" "m_epoch t = m_epoch s"
    and "LOCAL (st_rt t) v = LOCAL (st_rt s) v" "b_others t v = b_others s v"
    and "2 \<le> b_rank (b_at s v) \<Longrightarrow> mem (st_rt t) (b_ptr s v) = mem (st_rt s) (b_ptr s v)"
    and "m_ptrs t = m_ptrs s \<or> b_rank (b_at s v) < 5 \<and> m_ptrs t ! v = m_ptrs s ! v"
  shows "builder_ok t v"
proof (cases "m_ptrs t = m_ptrs s")
  case True
  have "built_worker (st_rt t) (m_epoch s) (m_ptrs s) v (b_ptr s v) \<longleftrightarrow> built_worker (st_rt s) (m_epoch s) (m_ptrs s) v (b_ptr s v)"
    if "2 \<le> b_rank (b_at s v)" using assms(7) that by (simp add: built_worker_def)
  with True show ?thesis using assms(1-7) by (simp add: builder_ok_def Let_def)
next
  case False
  with assms show ?thesis by (simp add: builder_ok_def Let_def)
qed

lemma main_ok_frame:
  assumes "main_ok n s" "w < unat n" "1 \<le> b_rank (b_at s w)" "1 \<le> b_rank pc" "b_at t = (b_at s)(w := pc)"
    and "m_at t = m_at s" "next_worker_id t = next_worker_id s" "m_epoch t = m_epoch s" "GLOBAL (st_rt t) = GLOBAL (st_rt s)"
    and "m_ptrs t = m_ptrs s \<or> m_at s \<noteq> M_ready"
    and "\<And>ob. mem (st_rt s) (GLOBAL (st_rt s)) = Some (Init ob) \<Longrightarrow> mem (st_rt t) (GLOBAL (st_rt s)) = Some (Init ob)"
  shows "main_ok n t"
proof -
  have "b.arrived (unat n) 1 (b_at t) \<longleftrightarrow> b.arrived (unat n) 1 (b_at s)" using assms(2-5) by (auto simp: b.arrived_upd) (auto simp: b.arrived_def)
  moreover have "b_at t v = B_unborn \<longleftrightarrow> b_at s v = B_unborn" for v using assms(3-5) by (auto simp: rank_unborn)
  ultimately show ?thesis using assms(1,6-) by (cases "m_at s") (auto simp: main_ok_def)
qed

lemma data_okD:
  assumes "data_ok n s"
  shows "st_fault s = None" "length (m_ptrs s) = unat n" "finite (dom (mem (st_rt s)))" "m_epoch s \<noteq> null"
    "mem (st_rt s) (m_epoch s) = Some (Init (Obj_epoch n))" "w < unat n \<Longrightarrow> builder_ok s w"
    "w < unat n \<Longrightarrow> v < unat n \<Longrightarrow> w \<noteq> v \<Longrightarrow> 2 \<le> b_rank (b_at s w) \<Longrightarrow> 2 \<le> b_rank (b_at s v) \<Longrightarrow> b_ptr s w \<noteq> b_ptr s v"
    "unat (m_built s) = count_built n (b_at s)" "main_ok n s"
  using assms by (simp_all add: data_ok_def)

text \<open>A step of builder \<open>w\<close> to \<open>pc\<close>: only its own variables and blocks change.\<close>

lemma data_step:
  assumes ok: "data_ok n s" and w: "w < unat n" and at: "b_at t = (b_at s)(w := pc)"
    and rank: "1 \<le> b_rank (b_at s w)" "2 \<le> b_rank pc"
    and same: "st_fault t = None" "length (m_ptrs t) = length (m_ptrs s)" "m_epoch t = m_epoch s" "m_at t = m_at s"
      "next_worker_id t = next_worker_id s" "GLOBAL (st_rt t) = GLOBAL (st_rt s)" "finite (dom (mem (st_rt t)))"
    and mem: "\<And>b. mem (st_rt s) b \<noteq> None \<Longrightarrow> b \<noteq> b_ptr t w \<Longrightarrow> mem (st_rt t) b = mem (st_rt s) b"
    and objs: "\<And>b ob. mem (st_rt s) b = Some (Init ob) \<Longrightarrow> mem (st_rt t) b = Some (Init ob)"
    and mine: "builder_ok t w" "2 \<le> b_rank (b_at s w) \<or> mem (st_rt s) (b_ptr t w) = None"
      "2 \<le> b_rank (b_at s w) \<Longrightarrow> b_ptr t w = b_ptr s w"
    and others: "\<And>v. v \<noteq> w \<Longrightarrow> b_ptr t v = b_ptr s v \<and> LOCAL (st_rt t) v = LOCAL (st_rt s) v \<and> b_others t v = b_others s v"
    and ptrs: "m_ptrs t = m_ptrs s \<or>
      m_at s \<noteq> M_ready \<and> (\<forall>v<unat n. v \<noteq> w \<longrightarrow> b_rank (b_at s v) < 5 \<and> m_ptrs t ! v = m_ptrs s ! v)"
    and built: "unat (m_built t) = count_built n (b_at t)"
  shows "data_ok n t"
proof -
  have block: "mem (st_rt s) (b_ptr s v) \<noteq> None" if "v < unat n" "2 \<le> b_rank (b_at s v)" for v
    using data_okD(6)[OF ok that(1)] that(2) by (auto simp: builder_ok_def built_worker_def Let_def split: if_splits)
  have own: "b_ptr t w \<noteq> b_ptr s v" if "v < unat n" "v \<noteq> w" "2 \<le> b_rank (b_at s v)" for v
  proof (cases "2 \<le> b_rank (b_at s w)")
    case True
    then show ?thesis using data_okD(7)[OF ok that(1) w that(2,3) True] mine(3) by simp
  next
    case False
    then show ?thesis using mine(2) block[OF that(1,3)] by auto
  qed
  have frame: "mem (st_rt t) (b_ptr s v) = mem (st_rt s) (b_ptr s v)" if v: "v < unat n" "v \<noteq> w" "2 \<le> b_rank (b_at s v)" for v
    using own[OF v] mem[OF block[OF v(1,3)]] by simp
  have "builder_ok t v" if v: "v < unat n" for v
  proof (cases "v = w")
    case False
    then show ?thesis using others[OF False] same(3) ptrs at frame[OF v False]
      by (intro builder_ok_frame[OF data_okD(6)[OF ok v]]) (use v in auto)
  qed (use mine(1) in simp)
  moreover have "main_ok n t" by (rule main_ok_frame[OF data_okD(9)[OF ok] w rank(1) _ at])
    (use rank same ptrs objs in auto)
  moreover have "mem (st_rt t) (m_epoch s) = Some (Init (Obj_epoch n))"
    using objs data_okD(5)[OF ok] by simp
  moreover have "b_ptr t u \<noteq> b_ptr t v" if uv: "u < unat n" "v < unat n" "u \<noteq> v" "2 \<le> b_rank (b_at t u)" "2 \<le> b_rank (b_at t v)"
    for u v
  proof (cases "u = w \<or> v = w")
    case True
    then show ?thesis using own[of v] own[of u] uv others by (auto simp: at split: if_splits)
  next
    case False
    then show ?thesis using data_okD(7)[OF ok uv(1-3)] uv(4,5) others by (auto simp: at)
  qed
  ultimately show ?thesis using data_okD(2,4)[OF ok] same built by (simp add: data_ok_def)
qed

text \<open>A step that only moves the control of a builder.\<close>

lemma data_go:
  assumes ok: "data_ok n s" and w: "w < unat n" and r: "2 \<le> b_rank (b_at s w)" "2 \<le> b_rank pc"
      "3 \<le> b_rank (b_at s w) \<longleftrightarrow> 3 \<le> b_rank pc" "b_rank (b_at s w) \<le> 7 \<longleftrightarrow> b_rank pc \<le> 7" "b_rank pc \<noteq> 7"
      "9 \<le> b_rank (b_at s w) \<longleftrightarrow> 9 \<le> b_rank pc"
  shows "data_ok n (b_go w pc (s\<lparr>m_ptrs_cond := c, m_built_cond := d\<rparr>))" (is "data_ok n ?t")
proof (rule data_step[OF ok w])
  show "b_at ?t = (b_at s)(w := pc)" by (simp add: b_go_def)
  show "builder_ok ?t w" using data_okD(6)[OF ok w] r by (simp add: builder_ok_def Let_def b_go_def)
  show "unat (m_built ?t) = count_built n (b_at ?t)"
    using count_upd[OF w, of "b_at s" pc] r(6) data_okD(8)[OF ok] by (simp add: b_go_def)
qed (use data_okD[OF ok] r in \<open>simp_all add: b_go_def\<close>)

lemma data_alloc:
  assumes ok: "data_ok n s" and w: "w < unat n" and at: "b_at s w = B_alloc" and p: "p \<noteq> null" "alloc_ok p (mem (st_rt s))"
  shows "data_ok n (b_go w B_put (s\<lparr>st_rt := Worker_set w p ((st_rt s)\<lparr>mem := (mem (st_rt s))(p \<mapsto> Uninit)\<rparr>),
    b_ptr := (b_ptr s)(w := p)\<rparr>))" (is "data_ok n ?t")
proof (rule data_step[OF ok w])
  have free: "mem (st_rt s) p = None" using p by (auto simp: alloc_ok_def)
  then show "mem (st_rt ?t) b = mem (st_rt s) b" if "mem (st_rt s) b \<noteq> None" for b
    using that by (auto simp: b_go_def Worker_set_def set_local_def)
  show "mem (st_rt ?t) b = Some (Init ob)" if "mem (st_rt s) b = Some (Init ob)" for b ob
    using that free by (auto simp: b_go_def Worker_set_def set_local_def)
  show "2 \<le> b_rank (b_at s w) \<or> mem (st_rt s) (b_ptr ?t w) = None" using free by (simp add: b_go_def)
  show "b_at ?t = (b_at s)(w := B_put)" by (simp add: b_go_def)
  show "builder_ok ?t w" using data_okD(6)[OF ok w] p(1)
    by (simp add: builder_ok_def Let_def b_go_def Worker_set_def set_local_def at)
  show "unat (m_built ?t) = count_built n (b_at ?t)"
    using count_upd[OF w, of "b_at s" B_put] data_okD(8)[OF ok] by (simp add: b_go_def at)
qed (use data_okD[OF ok] at in \<open>simp_all add: b_go_def Worker_set_def set_local_def\<close>)

lemma data_put:
  assumes ok: "data_ok n s" and w: "w < unat n" and at: "b_at s w = B_put" and pc: "pc \<in> {B_notify_ptrs, B_check_ptrs}"
    and none: "\<forall>v<unat n. b_rank (b_at s v) < 5" "m_at s \<noteq> M_ready"
  shows "data_ok n (b_go w pc (s\<lparr>m_ptrs := (m_ptrs s)[w := b_ptr s w]\<rparr>))" (is "data_ok n ?t")
proof (rule data_step[OF ok w])
  show "b_at ?t = (b_at s)(w := pc)" by (simp add: b_go_def)
  show "builder_ok ?t w" using data_okD(6)[OF ok w] pc w data_okD(2)[OF ok]
    by (auto simp: builder_ok_def Let_def b_go_def at)
  show "unat (m_built ?t) = count_built n (b_at ?t)"
    using count_upd[OF w, of "b_at s" pc] pc data_okD(8)[OF ok] by (auto simp: b_go_def at)
  show "m_ptrs ?t = m_ptrs s \<or> m_at s \<noteq> M_ready \<and>
      (\<forall>v<unat n. v \<noteq> w \<longrightarrow> b_rank (b_at s v) < 5 \<and> m_ptrs ?t ! v = m_ptrs s ! v)"
    using none by (simp add: b_go_def)
qed (use data_okD[OF ok] at pc in \<open>auto simp: b_go_def\<close>)

lemma data_clone:
  assumes ok: "data_ok n s" and w: "w < unat n" and at: "b_at s w = B_clone"
  shows "data_ok n (b_go w B_write (s\<lparr>b_others := (b_others s)(w := take w (m_ptrs s) @ drop (Suc w) (m_ptrs s))\<rparr>))"
    (is "data_ok n ?t")
proof (rule data_step[OF ok w])
  show "b_at ?t = (b_at s)(w := B_write)" by (simp add: b_go_def)
  show "builder_ok ?t w" using data_okD(6)[OF ok w] by (simp add: builder_ok_def Let_def b_go_def at)
  show "unat (m_built ?t) = count_built n (b_at ?t)"
    using count_upd[OF w, of "b_at s" B_write] data_okD(8)[OF ok] by (simp add: b_go_def at)
qed (use data_okD[OF ok] at in \<open>simp_all add: b_go_def\<close>)

lemma data_write:
  assumes ok: "data_ok n s" and w: "w < unat n" and at: "b_at s w = B_write" and t: "0 \<le> t"
  shows "\<exists>r. bind_r (Worker_new t (of_nat w) n (m_epoch s) (b_others s w)) (\<lambda>worker.
             on_mem (write_ptr (b_ptr s w) (Obj_worker worker)) (st_rt s)) = Inr r \<and>
           data_ok n (b_go w B_count (s\<lparr>st_rt := r\<rparr>))"
proof -
  have b: "b_ptr s w \<noteq> null" "mem (st_rt s) (b_ptr s w) = Some Uninit" "LOCAL (st_rt s) w = b_ptr s w"
    "m_ptrs s ! w = b_ptr s w" "b_others s w = take w (m_ptrs s) @ drop (Suc w) (m_ptrs s)"
    using data_okD(6)[OF ok w] by (simp_all add: builder_ok_def Let_def at)
  define wk where "wk = \<lparr>task_list = TaskList_new, w_seed = word_of_int t, n_workers = n, w_epoch = m_epoch s,
    other_workers = b_others s w, w_shutdown = False, worker_id = of_nat w\<rparr>"
  let ?r = "(st_rt s)\<lparr>mem := (mem (st_rt s))(b_ptr s w \<mapsto> Init (Obj_worker wk))\<rparr>"
  let ?t = "b_go w B_count (s\<lparr>st_rt := ?r\<rparr>)"
  have wk: "worker_ok (m_epoch s) (m_ptrs s) w wk" "task_list wk = TaskList_new"
    using b(5) data_okD(2)[OF ok] w unat_less_32[of n] by (simp_all add: wk_def worker_ok_def unat_of_nat_32)
  have "data_ok n ?t"
  proof (rule data_step[OF ok w])
    show "b_at ?t = (b_at s)(w := B_count)" by (simp add: b_go_def)
    show "builder_ok ?t w" using b wk by (auto simp: builder_ok_def Let_def b_go_def at built_worker_def)
    show "unat (m_built ?t) = count_built n (b_at ?t)"
      using count_upd[OF w, of "b_at s" B_count] data_okD(8)[OF ok] by (simp add: b_go_def at)
    show "mem (st_rt ?t) a = Some (Init ob)" if "mem (st_rt s) a = Some (Init ob)" for a ob
      using that b(2) by (auto simp: b_go_def)
  qed (use data_okD[OF ok] at in \<open>simp_all add: b_go_def\<close>)
  then show ?thesis using t b(1,2)
    by (simp add: Worker_new_def seed_from_system_time_def on_mem_def write_ptr_def wk_def)
qed

lemma data_count:
  assumes ok: "data_ok n s" and w: "w < unat n" and at: "b_at s w = B_count" and pc: "pc \<in> {B_notify_built, B_check_built}"
  shows "add_checked (m_built s) 1 = Inr (m_built s + 1) \<and> data_ok n (b_go w pc (s\<lparr>m_built := m_built s + 1\<rparr>))"
    (is "_ \<and> data_ok n ?t")
proof -
  have c: "count_built n ((b_at s)(w := pc)) = Suc (unat (m_built s))"
    using count_upd[OF w, of "b_at s" pc] pc data_okD(8)[OF ok] by (auto simp: at)
  then have "Suc (unat (m_built s)) \<le> unat n" using count_le[of n "(b_at s)(w := pc)"] by simp
  then have lt: "Suc (unat (m_built s)) < 2 ^ 32" using unat_less_32[of n] by simp
  then have suc: "unat (m_built s + 1) = Suc (unat (m_built s))" by (simp add: unat_word_ariths)
  have "data_ok n ?t"
  proof (rule data_step[OF ok w])
    show "b_at ?t = (b_at s)(w := pc)" by (simp add: b_go_def)
    show "builder_ok ?t w" using data_okD(6)[OF ok w] pc by (auto simp: builder_ok_def Let_def b_go_def at)
    show "unat (m_built ?t) = count_built n (b_at ?t)" using suc c by (simp add: b_go_def)
  qed (use data_okD[OF ok] at pc in \<open>auto simp: b_go_def\<close>)
  then show ?thesis using lt by (simp add: add_checked_def)
qed

text \<open>How far the threads still have to go.\<close>

fun m_rank :: "u32 \<Rightarrow> mpc \<Rightarrow> nat" where
  "m_rank n (M_spawn k) = unat n - k + 4"
| "m_rank n M_check = 3"
| "m_rank n M_wait = 2"
| "m_rank n M_publish = 1"
| "m_rank n M_ready = 0"

definition start_measure :: "u32 \<Rightarrow> ('f, 'l) startup \<Rightarrow> nat" where
  "start_measure n s = (\<Sum>v<unat n. 12 - b_rank (b_at s v)) + m_rank n (m_at s)"

lemma b_rank_le: "b_rank pc \<le> 12"
  by (cases pc) auto

lemma rank_sum_upd:
  "w < unat n \<Longrightarrow> (\<Sum>v<unat n. 12 - b_rank ((at(w := pc)) v)) + (12 - b_rank (at w)) =
     (\<Sum>v<unat n. 12 - b_rank (at v)) + (12 - b_rank pc)"
  by (rule sum_upd)

text \<open>A step of a builder keeps the invariant and brings the builder forward.\<close>

definition forward :: "'l parking_lot \<Rightarrow> u32 \<Rightarrow> nat \<Rightarrow> ('f, 'l) startup \<Rightarrow> ('f, 'l) startup \<Rightarrow> bool" where
  "forward P n w s t \<longleftrightarrow> start_inv P n t \<and> m_at t = m_at s \<and>
     (\<exists>pc. b_at t = (b_at s)(w := pc) \<and> b_rank (b_at s w) < b_rank pc)"

context parking_lot_ops
begin

lemma forward_plain:
  assumes inv: "start_inv P n s" and w: "w < unat n" and ok: "data_ok n (b_go w pc t)"
    and same: "m_ptrs_cond t = m_ptrs_cond s" "m_built_cond t = m_built_cond s" "b_at t = b_at s" "m_at t = m_at s"
    and r: "b_rank (b_at s w) < b_rank pc" "w \<notin> pl_parked P (m_ptrs_cond s)" "w \<notin> pl_parked P (m_built_cond s)"
      "pc \<noteq> B_wait_ptrs" "pc \<noteq> B_wait_built" "b_at s w \<noteq> B_notify_ptrs" "b_at s w \<noteq> B_notify_built"
      "3 \<le> b_rank (b_at s w) \<longleftrightarrow> 3 \<le> b_rank pc" "9 \<le> b_rank (b_at s w) \<longleftrightarrow> 9 \<le> b_rank pc"
      "5 \<le> b_rank pc \<longrightarrow> b.arrived (unat n) 3 (b_at s)" "11 \<le> b_rank pc \<longrightarrow> b.arrived (unat n) 9 (b_at s)"
  shows "forward P n w s (b_go w pc t)"
proof -
  have "sync_ptrs n (pl_parked P (m_ptrs_cond s)) ((b_at s)(w := pc))"
    using inv w r by (auto simp: start_inv_def sync_ptrs_def intro!: b.meeting_other)
  moreover have "sync_built n (pl_parked P (m_built_cond s)) ((b_at s)(w := pc)) (m_at s)"
    using inv w r b.arrived_same[OF w, of 9 "b_at s" pc] by (auto simp: start_inv_def sync_built_def intro!: b.meeting_other)
  ultimately show ?thesis using ok r(1) same by (auto simp: forward_def start_inv_def b_go_def)
qed

lemma parked_pc:
  assumes "start_inv P n s" "w < unat n"
  shows "w \<in> pl_parked P (m_ptrs_cond s) \<Longrightarrow> b_at s w = B_wait_ptrs"
    "w \<in> pl_parked P (m_built_cond s) \<Longrightarrow> b_at s w = B_wait_built"
  using assms by (auto simp: start_inv_def sync_ptrs_def sync_built_def dest: b.meetingD(1))

lemma past_pc:
  assumes "start_inv P n s" "w < unat n"
  shows "5 \<le> b_rank (b_at s w) \<Longrightarrow> b.arrived (unat n) 3 (b_at s)" "11 \<le> b_rank (b_at s w) \<Longrightarrow> b.arrived (unat n) 9 (b_at s)"
    "b_at s w = B_wait_ptrs \<Longrightarrow> w \<notin> pl_parked P (m_ptrs_cond s) \<Longrightarrow> b.arrived (unat n) 3 (b_at s)"
    "b_at s w = B_wait_built \<Longrightarrow> w \<notin> pl_parked P (m_built_cond s) \<Longrightarrow> b.arrived (unat n) 9 (b_at s)"
  using assms b.meetingD(3,4)[of "unat n" 3 B_wait_ptrs B_notify_ptrs "pl_parked P (m_ptrs_cond s)" "b_at s" w]
    b.meetingD(3,4)[of "unat n" 9 B_wait_built B_notify_built "pl_parked P (m_built_cond s)" "b_at s" w]
  by (simp_all add: start_inv_def sync_ptrs_def sync_built_def)

lemma forward_put:
  assumes inv: "start_inv P n s" and w: "w < unat n" and at: "b_at s w = B_put"
  shows "forward P n w s (b_go w (if all_set ((m_ptrs s)[w := b_ptr s w]) then B_notify_ptrs else B_check_ptrs)
    (s\<lparr>m_ptrs := (m_ptrs s)[w := b_ptr s w]\<rparr>))"
proof -
  let ?t = "\<lambda>pc. b_go w pc (s\<lparr>m_ptrs := (m_ptrs s)[w := b_ptr s w]\<rparr>)"
  have ok: "data_ok n s" using inv by (simp add: start_inv_def)
  have no: "\<not> b.arrived (unat n) 3 (b_at s)" "\<not> b.arrived (unat n) 9 (b_at s)" using w at by (auto simp: b.arrived_def dest!: spec[of _ w])
  then have "\<forall>v<unat n. b_rank (b_at s v) < 5" "m_at s \<noteq> M_ready"
    using past_pc(1)[OF inv] inv by (auto simp: start_inv_def sync_built_def not_less[symmetric])
  note data = data_put[OF ok w at _ this]
  have arr: "all_set ((m_ptrs s)[w := b_ptr s w]) \<longleftrightarrow> b.arrived (unat n) 3 ((b_at s)(w := B_check_ptrs))"
    using all_set_iff[OF data[of B_check_ptrs]] by (simp add: b_go_def)
  define pc where "pc = (if all_set ((m_ptrs s)[w := b_ptr s w]) then B_notify_ptrs else B_check_ptrs)"
  then have r: "2 < b_rank pc" "pc \<in> {B_notify_ptrs, B_check_ptrs}" by auto
  have "sync_ptrs n (pl_parked P (m_ptrs_cond s)) ((b_at s)(w := pc))"
    using inv unfolding start_inv_def sync_ptrs_def
    by (intro conjI b.meeting_arrive[where ?pc0.0 = B_check_ptrs]) (auto simp: at w pc_def arr)
  moreover have "sync_built n (pl_parked P (m_built_cond s)) ((b_at s)(w := pc)) (m_at s)"
    using inv w r parked_pc(2)[OF inv w] b.arrived_same[OF w, of 9 "b_at s" pc]
    by (auto simp: start_inv_def sync_built_def at intro!: b.meeting_other)
  ultimately show ?thesis using data[OF r(2)] r(1)
    unfolding pc_def[symmetric] by (auto simp: forward_def start_inv_def b_go_def at)
qed

lemma forward_count:
  assumes inv: "start_inv P n s" and w: "w < unat n" and at: "b_at s w = B_count"
  shows "forward P n w s (b_go w (if m_built s + 1 = n then B_notify_built else B_check_built) (s\<lparr>m_built := m_built s + 1\<rparr>))"
proof -
  have ok: "data_ok n s" using inv by (simp add: start_inv_def)
  note data = conjunct2[OF data_count[OF ok w at]]
  have arr: "m_built s + 1 = n \<longleftrightarrow> b.arrived (unat n) 9 ((b_at s)(w := B_check_built))"
    using built_iff[OF data[of B_check_built]] by (simp add: b_go_def)
  define pc where "pc = (if m_built s + 1 = n then B_notify_built else B_check_built)"
  then have r: "8 < b_rank pc" "pc \<in> {B_notify_built, B_check_built}" by auto
  have "sync_ptrs n (pl_parked P (m_ptrs_cond s)) ((b_at s)(w := pc))"
    using inv w r parked_pc(1)[OF inv w] past_pc(1)[OF inv w] by (auto simp: start_inv_def sync_ptrs_def at intro!: b.meeting_other)
  moreover have "b.meeting (unat n) 9 B_wait_built B_notify_built (pl_parked P (m_built_cond s)) ((b_at s)(w := pc))"
    using inv unfolding start_inv_def sync_built_def
    by (intro b.meeting_arrive[where ?pc0.0 = B_check_built]) (auto simp: at w pc_def arr)
  moreover have "\<not> b.arrived (unat n) 9 (b_at s)" using w at by (auto simp: b.arrived_def dest!: spec[of _ w])
  ultimately show ?thesis using data[OF r(2)] r(1) inv
    unfolding pc_def[symmetric] by (auto simp: forward_def start_inv_def b_go_def at sync_built_def)
qed

lemma forward_notify:
  assumes inv: "start_inv P n s" and w: "w < unat n"
  shows "b_at s w = B_notify_ptrs \<Longrightarrow> forward P n w s (b_go w B_clone (s\<lparr>m_ptrs_cond := pl_unpark_all P (m_ptrs_cond s)\<rparr>))"
    "b_at s w = B_notify_built \<Longrightarrow> forward P n w s (b_go w B_loop (s\<lparr>m_built_cond := pl_unpark_all P (m_built_cond s)\<rparr>))"
proof -
  have ok: "data_ok n s" using inv by (simp add: start_inv_def)
  show "forward P n w s (b_go w B_clone (s\<lparr>m_ptrs_cond := pl_unpark_all P (m_ptrs_cond s)\<rparr>))" if at: "b_at s w = B_notify_ptrs"
  proof -
    have "sync_ptrs n {} ((b_at s)(w := B_clone))"
      using inv w at by (auto simp: start_inv_def sync_ptrs_def intro!: b.meeting_notify)
    moreover have "sync_built n (pl_parked P (m_built_cond s)) ((b_at s)(w := B_clone)) (m_at s)"
      using inv w parked_pc(2)[OF inv w] b.arrived_same[OF w, of 9 "b_at s" B_clone]
      by (auto simp: start_inv_def sync_built_def at intro!: b.meeting_other)
    ultimately show ?thesis
      using data_go[OF ok w, where pc = B_clone and c = "pl_unpark_all P (m_ptrs_cond s)" and d = "m_built_cond s"]
      by (auto simp: forward_def start_inv_def b_go_def at parked_unpark_all)
  qed
  show "forward P n w s (b_go w B_loop (s\<lparr>m_built_cond := pl_unpark_all P (m_built_cond s)\<rparr>))" if at: "b_at s w = B_notify_built"
  proof -
    have "sync_ptrs n (pl_parked P (m_ptrs_cond s)) ((b_at s)(w := B_loop))"
      using inv w parked_pc(1)[OF inv w] past_pc(1)[OF inv w] by (auto simp: start_inv_def sync_ptrs_def at intro!: b.meeting_other)
    moreover have "sync_built n {} ((b_at s)(w := B_loop)) (m_at s)"
      using inv w at past_pc(2)[OF inv w] b.arrived_same[OF w, of 9 "b_at s" B_loop]
      by (auto simp: start_inv_def sync_built_def intro!: b.meeting_notify)
    ultimately show ?thesis
      using data_go[OF ok w, where pc = B_loop and c = "m_ptrs_cond s" and d = "pl_unpark_all P (m_built_cond s)"]
      by (auto simp: forward_def start_inv_def b_go_def at parked_unpark_all)
  qed
qed

lemma forward_check_ptrs:
  assumes inv: "start_inv P n s" and w: "w < unat n"
    and at: "b_at s w = B_check_ptrs \<or> b_at s w = B_wait_ptrs \<and> w \<notin> pl_parked P (m_ptrs_cond s)"
  shows "forward P n w s (check_ptrs P w s)"
proof (cases "b.arrived (unat n) 3 (b_at s)")
  case True
  have ok: "data_ok n s" using inv by (simp add: start_inv_def)
  have np: "w \<notin> pl_parked P (m_ptrs_cond s)" "w \<notin> pl_parked P (m_built_cond s)" using parked_pc[OF inv w] at by auto
  have "data_ok n (b_go w B_clone s)"
    using data_go[OF ok w, where pc = B_clone and c = "m_ptrs_cond s" and d = "m_built_cond s"] at by auto
  then have "forward P n w s (b_go w B_clone s)" by (rule forward_plain[OF inv w]) (use at np True in auto)
  then show ?thesis using True by (simp add: check_ptrs_def all_set_iff[OF ok])
next
  case False
  have ok: "data_ok n s" using inv by (simp add: start_inv_def)
  have at': "b_at s w = B_check_ptrs" using at past_pc(3)[OF inv w] False by auto
  let ?l = "pl_park P w (m_ptrs_cond s)"
  have "sync_ptrs n (pl_parked P ?l) ((b_at s)(w := B_wait_ptrs))"
    using inv w at' False by (auto simp: start_inv_def sync_ptrs_def parked_park intro!: b.meeting_park)
  moreover have "sync_built n (pl_parked P (m_built_cond s)) ((b_at s)(w := B_wait_ptrs)) (m_at s)"
    using inv w parked_pc(2)[OF inv w] b.arrived_same[OF w, of 9 "b_at s" B_wait_ptrs]
    by (auto simp: start_inv_def sync_built_def at' intro!: b.meeting_other)
  moreover have "data_ok n (b_go w B_wait_ptrs (s\<lparr>m_ptrs_cond := ?l\<rparr>))"
    using data_go[OF ok w, where pc = B_wait_ptrs and c = ?l and d = "m_built_cond s"] at' by simp
  ultimately show ?thesis using False
    by (auto simp: check_ptrs_def all_set_iff[OF ok] forward_def start_inv_def b_go_def at')
qed

lemma forward_check_built:
  assumes inv: "start_inv P n s" and w: "w < unat n"
    and at: "b_at s w = B_check_built \<or> b_at s w = B_wait_built \<and> w \<notin> pl_parked P (m_built_cond s)"
  shows "forward P n w s (check_built P n w s)"
proof (cases "b.arrived (unat n) 9 (b_at s)")
  case True
  have ok: "data_ok n s" using inv by (simp add: start_inv_def)
  have np: "w \<notin> pl_parked P (m_ptrs_cond s)" "w \<notin> pl_parked P (m_built_cond s)" using parked_pc[OF inv w] at by auto
  have "b.arrived (unat n) 3 (b_at s)" by (rule past_pc(1)[OF inv w]) (use at in auto)
  moreover have "data_ok n (b_go w B_loop s)"
    using data_go[OF ok w, where pc = B_loop and c = "m_ptrs_cond s" and d = "m_built_cond s"] at by auto
  ultimately have "forward P n w s (b_go w B_loop s)" by (intro forward_plain[OF inv w]) (use at np True in auto)
  then show ?thesis using True by (simp add: check_built_def built_iff[OF ok])
next
  case False
  have ok: "data_ok n s" using inv by (simp add: start_inv_def)
  have at': "b_at s w = B_check_built" using at past_pc(4)[OF inv w] False by auto
  let ?l = "pl_park P w (m_built_cond s)"
  have "sync_ptrs n (pl_parked P (m_ptrs_cond s)) ((b_at s)(w := B_wait_built))"
    using inv w parked_pc(1)[OF inv w] past_pc(1)[OF inv w] by (auto simp: start_inv_def sync_ptrs_def at' intro!: b.meeting_other)
  moreover have "sync_built n (pl_parked P ?l) ((b_at s)(w := B_wait_built)) (m_at s)"
    using inv w at' False b.arrived_same[OF w, of 9 "b_at s" B_wait_built]
    by (auto simp: start_inv_def sync_built_def parked_park intro!: b.meeting_park)
  moreover have "data_ok n (b_go w B_wait_built (s\<lparr>m_built_cond := ?l\<rparr>))"
    using data_go[OF ok w, where pc = B_wait_built and c = "m_ptrs_cond s" and d = ?l] at' by simp
  ultimately show ?thesis using False
    by (auto simp: check_built_def built_iff[OF ok] forward_def start_inv_def b_go_def at')
qed

lemma builder_forward:
  assumes inv: "start_inv P n s" and w: "w < unat n" and env: "p \<noteq> null" "alloc_ok p (mem (st_rt s))" "0 \<le> t"
    and step: "builder_step P n w p t s = Some s'"
  shows "forward P n w s s'"
proof -
  have ok: "data_ok n s" using inv by (simp add: start_inv_def)
  have len: "w < length (m_ptrs s)" using data_okD(2)[OF ok] w by simp
  have np: "b_at s w \<noteq> B_wait_ptrs \<Longrightarrow> w \<notin> pl_parked P (m_ptrs_cond s)"
    "b_at s w \<noteq> B_wait_built \<Longrightarrow> w \<notin> pl_parked P (m_built_cond s)" using parked_pc[OF inv w] by blast+
  show ?thesis
  proof (cases "b_at s w")
    case B_alloc
    then have "s' = b_go w B_put (s\<lparr>st_rt := Worker_set w p ((st_rt s)\<lparr>mem := (mem (st_rt s))(p \<mapsto> Uninit)\<rparr>), b_ptr := (b_ptr s)(w := p)\<rparr>)"
      using step env by (simp add: builder_step_def do_alloc_def)
    then show ?thesis using forward_plain[OF inv w data_alloc[OF ok w B_alloc env(1,2)]] B_alloc np by simp
  next
    case B_put
    then show ?thesis using step forward_put[OF inv w B_put] len
      by (simp add: builder_step_def index_checked_def or_fail_def Let_def)
  next
    case B_clone
    have arr: "b.arrived (unat n) 3 (b_at s)" using past_pc(1)[OF inv w] B_clone by simp
    then have "s' = b_go w B_write (s\<lparr>b_others := (b_others s)(w := take w (m_ptrs s) @ drop (Suc w) (m_ptrs s))\<rparr>)"
      using step B_clone collect_others_eq[OF len] all_set_iff[OF ok] by (simp add: builder_step_def or_fail_def)
    then show ?thesis using forward_plain[OF inv w data_clone[OF ok w B_clone]] B_clone np arr by simp
  next
    case B_write
    have arr: "b.arrived (unat n) 3 (b_at s)" using past_pc(1)[OF inv w] B_write by simp
    from data_write[OF ok w B_write env(3)] obtain r where
      r: "s' = b_go w B_count (s\<lparr>st_rt := r\<rparr>)" "data_ok n (b_go w B_count (s\<lparr>st_rt := r\<rparr>))"
      using step B_write by (auto simp: builder_step_def or_fail_def)
    then show ?thesis using forward_plain[OF inv w r(2)] B_write np arr by simp
  next
    case B_count
    then show ?thesis using step forward_count[OF inv w B_count] data_count[OF ok w B_count, of B_check_built]
      by (simp add: builder_step_def or_fail_def)
  qed (use step forward_notify[OF inv w] forward_check_ptrs[OF inv w] forward_check_built[OF inv w] in
      \<open>auto simp: builder_step_def split: if_splits\<close>)
qed

text \<open>The steps of the main thread.\<close>

lemma main_spawn_inv:
  assumes inv: "start_inv P n s" and at: "m_at s = M_spawn k" and k: "k < unat n"
  shows "add_checked (next_worker_id s) 1 = Inr (next_worker_id s + 1) \<and> unat (next_worker_id s) = k \<and> b_at s k = B_unborn \<and>
    start_inv P n (b_go k B_alloc (s\<lparr>next_worker_id := next_worker_id s + 1, m_at := M_spawn (Suc k)\<rparr>))" (is "_ \<and> _ \<and> _ \<and> start_inv P n ?t")
proof -
  have ok: "data_ok n s" using inv by (simp add: start_inv_def)
  have m: "unat (next_worker_id s) = k" "\<forall>v<unat n. b_at s v = B_unborn \<longleftrightarrow> k \<le> v"
    using data_okD(9)[OF ok] by (simp_all add: main_ok_def at)
  then have un: "b_at s k = B_unborn" using k by blast
  have lt: "Suc (unat (next_worker_id s)) < 2 ^ 32" using m(1) k unat_less_32[of n] by simp
  then have suc: "unat (next_worker_id s + 1) = Suc k" using m(1) by (simp add: unat_word_ariths)
  have "builder_ok ?t v" if v: "v < unat n" for v
  proof (cases "v = k")
    case True
    then show ?thesis using data_okD(6)[OF ok v] un by (simp add: builder_ok_def Let_def b_go_def)
  next
    case False
    then show ?thesis by (intro builder_ok_frame[OF data_okD(6)[OF ok v]]) (simp_all add: b_go_def)
  qed
  moreover have "main_ok n ?t" using m(2) k suc by (auto simp: main_ok_def b_go_def)
  moreover have "count_built n (b_at ?t) = count_built n (b_at s)" using count_upd[OF k, of "b_at s" B_alloc] un by (simp add: b_go_def)
  moreover have "b_ptr s u \<noteq> b_ptr s v" if "u < unat n" "v < unat n" "u \<noteq> v" "2 \<le> b_rank (b_at ?t u)" "2 \<le> b_rank (b_at ?t v)"
    for u v using data_okD(7)[OF ok that(1-3)] that(4,5) by (auto simp: b_go_def split: if_splits)
  ultimately have "data_ok n ?t" using data_okD(1-5,8)[OF ok] by (simp add: data_ok_def) (simp add: b_go_def)
  moreover have "k \<notin> pl_parked P (m_ptrs_cond s)" "k \<notin> pl_parked P (m_built_cond s)" using parked_pc[OF inv k] un by auto
  then have "sync_ptrs n (pl_parked P (m_ptrs_cond s)) ((b_at s)(k := B_alloc))"
    and "sync_built n (pl_parked P (m_built_cond s)) ((b_at s)(k := B_alloc)) (M_spawn (Suc k))"
    using inv k un at by (auto simp: start_inv_def sync_ptrs_def sync_built_def intro!: b.meeting_other)
  ultimately show ?thesis using un m(1) lt by (simp add: start_inv_def b_go_def add_checked_def)
qed

lemma data_main:
  assumes "data_ok n s" "main_ok n (s\<lparr>m_at := m, m_built_cond := d\<rparr>)"
  shows "data_ok n (s\<lparr>m_at := m, m_built_cond := d\<rparr>)"
  using assms by (simp add: data_ok_def builder_ok_def Let_def)

lemma main_check_inv:
  assumes inv: "start_inv P n s" and arr: "b.arrived (unat n) 1 (b_at s)"
    and at: "m_at s = M_check \<or> m_at s = M_wait \<and> unat n \<notin> pl_parked P (m_built_cond s)"
  shows "start_inv P n (m_check_built P n s) \<and> b_at (m_check_built P n s) = b_at s \<and>
    m_at (m_check_built P n s) = (if b.arrived (unat n) 9 (b_at s) then M_publish else M_wait) \<and> (m_at s = M_wait \<longrightarrow> b.arrived (unat n) 9 (b_at s))"
proof -
  have ok: "data_ok n s" using inv by (simp add: start_inv_def)
  have np: "unat n \<notin> pl_parked P (m_built_cond s)" "m_at s = M_wait \<longrightarrow> b.arrived (unat n) 9 (b_at s)"
    using inv at by (auto simp: start_inv_def sync_built_def)
  show ?thesis
  proof (cases "b.arrived (unat n) 9 (b_at s)")
    case True
    have "data_ok n (s\<lparr>m_at := M_publish\<rparr>)"
      using data_main[OF ok, where m = M_publish and d = "m_built_cond s"] arr by (simp add: main_ok_def)
    then show ?thesis using True inv np
      by (auto simp: m_check_built_def built_iff[OF ok] start_inv_def sync_built_def)
  next
    case False
    let ?l = "pl_park P (unat n) (m_built_cond s)"
    have "data_ok n (s\<lparr>m_at := M_wait, m_built_cond := ?l\<rparr>)"
      by (rule data_main[OF ok]) (use arr in \<open>simp add: main_ok_def\<close>)
    moreover have "b.meeting (unat n) 9 B_wait_built B_notify_built (pl_parked P ?l) (b_at s)"
      using inv False b.meeting_insert[of "unat n" 9 _ _ _ "b_at s" "unat n"] by (auto simp: start_inv_def sync_built_def parked_park)
    ultimately show ?thesis using False inv np
      by (auto simp: m_check_built_def built_iff[OF ok] start_inv_def sync_built_def parked_park)
  qed
qed

lemma main_publish_inv:
  assumes inv: "start_inv P n s" and at: "m_at s = M_publish" and p: "p \<noteq> null" "alloc_ok p (mem (st_rt s))"
  shows "\<exists>r. manager_publish p (m_epoch s) (m_ptrs s) (st_rt s) = Inr r \<and> start_inv P n (s\<lparr>st_rt := r, m_at := M_ready\<rparr>)"
proof -
  have ok: "data_ok n s" using inv by (simp add: start_inv_def)
  have arr: "b.arrived (unat n) 9 (b_at s)" using inv at by (simp add: start_inv_def sync_built_def)
  have "b.arrived (unat n) 3 (b_at s)" "b.arrived (unat n) 1 (b_at s)" by (rule b.arrived_weaken[OF arr], simp)+
  then have set: "null \<notin> set (m_ptrs s)" using all_set_iff[OF ok] by (auto simp: all_set_def list_all_iff)
  have free: "mem (st_rt s) p = None" using p by (auto simp: alloc_ok_def)
  let ?ob = "Obj_shared \<lparr>s_epoch = m_epoch s, worker_ptrs = m_ptrs s\<rparr>"
  let ?r = "(st_rt s)\<lparr>mem := (mem (st_rt s))(p \<mapsto> Init ?ob), GLOBAL := p\<rparr>"
  let ?t = "s\<lparr>st_rt := ?r, m_at := M_ready\<rparr>"
  have block: "mem (st_rt s) (b_ptr s v) \<noteq> None" if "v < unat n" "2 \<le> b_rank (b_at s v)" for v
    using data_okD(6)[OF ok that(1)] that(2) by (auto simp: builder_ok_def built_worker_def Let_def split: if_splits)
  have "builder_ok ?t v" if v: "v < unat n" for v
    using free block[OF v] by (intro builder_ok_frame[OF data_okD(6)[OF ok v]]) auto
  moreover have "main_ok n ?t" using p(1) \<open>b.arrived (unat n) 1 (b_at s)\<close> by (simp add: main_ok_def)
  ultimately have "data_ok n ?t" using ok free by (auto simp: data_ok_def)
  then have "start_inv P n ?t" using inv arr at by (simp add: start_inv_def sync_built_def)
  moreover have "manager_publish p (m_epoch s) (m_ptrs s) (st_rt s) = Inr ?r"
    using set p(1) by (simp add: manager_publish_def new_obj_def do_new_eq set_global_def)
  ultimately show ?thesis by blast
qed

text \<open>Every step keeps the invariant and decreases the measure.\<close>

lemma start_step_inv:
  assumes inv: "start_inv P n s" and step: "start_step P n s t"
  shows "start_inv P n t \<and> start_measure n t < start_measure n s"
proof -
  from step obtain a where a: "env_ok a s" "start_act P n a s = Some t" by (auto simp: start_step_def)
  have upd: "start_measure n t < start_measure n s"
    if "w < unat n" "b_at t = (b_at s)(w := pc)" "b_rank (b_at s w) < b_rank pc" "m_rank n (m_at t) \<le> m_rank n (m_at s)" for w pc
    using rank_sum_upd[OF that(1), of "b_at s" pc] that(2-) b_rank_le[of pc] by (simp add: start_measure_def)
  show ?thesis
  proof (cases a)
    case (Build w p x)
    then have w: "w < unat n" and st: "builder_step P n w p x s = Some t" using a(2) by (auto split: if_splits)
    have "forward P n w s t" by (rule builder_forward[OF inv w _ _ _ st]) (use a(1) Build in auto)
    then show ?thesis using upd[OF w] by (auto simp: forward_def)
  next
    case (Main p)
    then have st: "main_step P n p s = Some t" and p: "p \<noteq> null" "alloc_ok p (mem (st_rt s))"
      using a by (auto split: if_splits)
    have main: "main_ok n s" using inv by (simp add: start_inv_def data_ok_def)
    show ?thesis
    proof (cases "m_at s")
      case (M_spawn k)
      show ?thesis
      proof (cases "k < unat n")
        case True
        note sp = main_spawn_inv[OF inv M_spawn True]
        then have t: "t = b_go k B_alloc (s\<lparr>next_worker_id := next_worker_id s + 1, m_at := M_spawn (Suc k)\<rparr>)"
          using st True by (auto simp: main_step_def M_spawn or_fail_def)
        show ?thesis using sp upd[OF True, of B_alloc] by (simp add: t b_go_def M_spawn)
      next
        case False
        then have "t = s\<lparr>m_at := M_check\<rparr>" using st by (simp add: main_step_def M_spawn)
        moreover have "b.arrived (unat n) 1 (b_at s)" using main False by (auto simp: main_ok_def M_spawn b.arrived_def rank_unborn not_le)
        moreover have "data_ok n (s\<lparr>m_at := M_check\<rparr>)"
          using data_main[where s = s and m = M_check and d = "m_built_cond s"] inv \<open>b.arrived (unat n) 1 (b_at s)\<close>
          by (simp add: start_inv_def main_ok_def)
        ultimately show ?thesis using inv M_spawn by (auto simp: start_inv_def sync_built_def start_measure_def)
      qed
    next
      case M_check
      with main main_check_inv[OF inv] st show ?thesis
        by (auto simp: main_ok_def main_step_def start_measure_def)
    next
      case M_wait
      with main main_check_inv[OF inv] st show ?thesis
        by (auto simp: main_ok_def main_step_def start_measure_def split: if_splits)
    next
      case M_publish
      from main_publish_inv[OF inv M_publish p] st M_publish show ?thesis
        by (auto simp: main_step_def start_measure_def or_fail_def)
    next
      case M_ready
      then show ?thesis using st by (simp add: main_step_def)
    qed
  qed
qed

lemma start_init_inv:
  assumes "start_init P n s"
  shows "start_inv P n s \<and> start_measure n s = 13 * unat n + 4"
proof -
  from assms obtain p l r where new: "WorkerManager_new n p l r = Inr s" and r: "alloc_ok p (mem r)" "finite (dom (mem r))"
    "pl_parked P l = {}" by (auto simp: start_init_def)
  then have p: "p \<noteq> null" and s: "s = \<lparr>st_rt = r\<lparr>mem := (mem r)(p \<mapsto> Init (Obj_epoch n))\<rparr>, m_epoch = p, m_ptrs = replicate (unat n) null,
      m_ptrs_cond = l, m_built = 0, m_built_cond = l, next_worker_id = 0, b_at = (\<lambda>_. B_unborn), b_ptr = (\<lambda>_. null),
      b_others = (\<lambda>_. []), m_at = M_spawn 0, st_fault = None\<rparr>"
    by (auto simp: WorkerManager_new_def bind_r_Inr_iff Epoch_new_def new_obj_def do_new_eq split: if_splits)
  have "b.meeting (unat n) 3 B_wait_ptrs B_notify_ptrs {} (\<lambda>_. B_unborn)" "b.meeting (unat n) 9 B_wait_built B_notify_built {} (\<lambda>_. B_unborn)"
    by (simp_all add: b.meeting_def)
  moreover have "data_ok n s" using p r(2) by (simp add: s data_ok_def builder_ok_def count_built_def main_ok_def)
  ultimately show ?thesis using r(3) by (simp add: s start_inv_def sync_ptrs_def sync_built_def start_measure_def)
qed

lemma start_reach_inv: "start_reach P n s \<Longrightarrow> start_inv P n s"
  by (induction rule: reach.induct) (auto dest: start_init_inv start_step_inv)

text \<open>Nobody is stuck before everybody has started.\<close>

lemma fresh_address: "finite (dom h) \<Longrightarrow> \<exists>p. p \<noteq> null \<and> alloc_ok p h" for h :: "'a heap"
  using ex_new_if_finite[of "insert null (dom h)"] by (auto simp: alloc_ok_def)

lemma start_step_builder:
  assumes "start_inv P n s" "w < unat n" "b_at s w \<notin> {B_unborn, B_loop}"
    and "b_at s w = B_wait_ptrs \<Longrightarrow> w \<notin> pl_parked P (m_ptrs_cond s)" "b_at s w = B_wait_built \<Longrightarrow> w \<notin> pl_parked P (m_built_cond s)"
  shows "\<exists>t. start_step P n s t"
proof -
  have ok: "data_ok n s" using assms(1) by (simp add: start_inv_def)
  obtain p where p: "p \<noteq> null" "alloc_ok p (mem (st_rt s))" using fresh_address[OF data_okD(3)[OF ok]] by blast
  have "\<exists>t. builder_step P n w p 0 s = Some t"
    using assms(3-5) p(1) by (cases "b_at s w") (simp_all add: builder_step_def do_alloc_def)
  then obtain t where "builder_step P n w p 0 s = Some t" by blast
  then have "start_act P n (Build w p 0) s = Some t" "env_ok (Build w p 0) s" using p assms(2) data_okD(1)[OF ok] by auto
  then show ?thesis unfolding start_step_def by blast
qed

lemma start_step_main:
  assumes "start_inv P n s" "m_at s \<noteq> M_ready" "m_at s = M_wait \<Longrightarrow> unat n \<notin> pl_parked P (m_built_cond s)"
  shows "\<exists>t. start_step P n s t"
proof -
  have ok: "data_ok n s" using assms(1) by (simp add: start_inv_def)
  obtain p where p: "p \<noteq> null" "alloc_ok p (mem (st_rt s))" using fresh_address[OF data_okD(3)[OF ok]] by blast
  obtain t where "main_step P n p s = Some t" using assms by (cases "m_at s") (auto simp: main_step_def)
  then have "start_act P n (Main p) s = Some t" "env_ok (Main p) s" using p data_okD(1)[OF ok] by auto
  then show ?thesis unfolding start_step_def by blast
qed

lemma start_not_stuck:
  assumes inv: "start_inv P n s" and stuck: "\<nexists>t. start_step P n s t"
  shows "m_at s = M_ready \<and> (\<forall>w<unat n. b_at s w = B_loop)"
proof -
  have ok: "data_ok n s" and meet: "b.meeting (unat n) 3 B_wait_ptrs B_notify_ptrs (pl_parked P (m_ptrs_cond s)) (b_at s)"
    "b.meeting (unat n) 9 B_wait_built B_notify_built (pl_parked P (m_built_cond s)) (b_at s)"
    using inv by (simp_all add: start_inv_def sync_ptrs_def sync_built_def)
  have m: "m_at s = M_ready \<or> m_at s = M_wait \<and> unat n \<in> pl_parked P (m_built_cond s)" using start_step_main[OF inv] stuck by blast
  then have born: "b.arrived (unat n) 1 (b_at s)" using data_okD(9)[OF ok] by (auto simp: main_ok_def)
  have b: "b_at s w = B_loop \<or> b_at s w = B_wait_ptrs \<and> w \<in> pl_parked P (m_ptrs_cond s) \<or>
      b_at s w = B_wait_built \<and> w \<in> pl_parked P (m_built_cond s)" if w: "w < unat n" for w
  proof -
    have "b_at s w \<noteq> B_unborn" using born w by (auto simp: b.arrived_def rank_unborn)
    then show ?thesis using start_step_builder[OF inv w] stuck by blast
  qed
  then have "\<forall>w<unat n. 3 \<le> b_rank (b_at s w)" by force
  then have "b.arrived (unat n) 3 (b_at s)" by (simp add: b.arrived_def)
  moreover have none: "b_at s v \<noteq> B_notify_ptrs" "b_at s v \<noteq> B_notify_built" if "v < unat n" for v using b[OF that] by auto
  ultimately have "pl_parked P (m_ptrs_cond s) = {}" using b.meetingD(2)[OF meet(1)] by blast
  with b have b': "b_at s w = B_loop \<or> b_at s w = B_wait_built \<and> w \<in> pl_parked P (m_built_cond s)" if "w < unat n" for w
    using that by auto
  then have "\<forall>w<unat n. 9 \<le> b_rank (b_at s w)" by force
  then have "b.arrived (unat n) 9 (b_at s)" by (simp add: b.arrived_def)
  then have "pl_parked P (m_built_cond s) = {}" using b.meetingD(2)[OF meet(2)] none by blast
  then show ?thesis using b' m by auto
qed

lemma start_steps:
  assumes "(start_step P n ^^ k) s t" "start_inv P n s"
  shows "start_inv P n t \<and> k + start_measure n t \<le> start_measure n s"
  using assms
proof (induction k arbitrary: t)
  case (Suc k)
  then obtain u where "(start_step P n ^^ k) s u" "start_step P n u t" by auto
  with Suc.IH[of u] Suc.prems(2) start_step_inv[of n u t] show ?case by auto
qed simp

lemma start_finishes:
  assumes "start_inv P n s"
  shows "\<exists>k t. (start_step P n ^^ k) s t \<and> m_at t = M_ready \<and> (\<forall>w<unat n. b_at t w = B_loop)"
  using assms
proof (induction "start_measure n s" arbitrary: s rule: less_induct)
  case less
  show ?case
  proof (cases "\<exists>u. start_step P n s u")
    case True
    then obtain u where u: "start_step P n s u" by blast
    with start_step_inv[OF less.prems u] less.hyps[of u] obtain k t where
      "(start_step P n ^^ k) u t" "m_at t = M_ready \<and> (\<forall>w<unat n. b_at t w = B_loop)" by blast
    then show ?thesis using relpowp_Suc_I2[of "start_step P n", OF u] by blast
  next
    case False
    then show ?thesis using start_not_stuck[OF less.prems] by (intro exI[of _ 0]) auto
  qed
qed

text \<open>What the invariant says of a finished start.\<close>

lemma start_workers:
  assumes inv: "start_inv P n s" and arr: "b.arrived (unat n) 9 (b_at s)"
  shows "distinct (m_ptrs s)" "k < unat n \<Longrightarrow> worker_at (st_rt s) (m_epoch s) (m_ptrs s) (replicate (unat n) []) k"
    "k < unat n \<Longrightarrow> LOCAL (st_rt s) k = m_ptrs s ! k"
proof -
  have ok: "data_ok n s" using inv by (simp add: start_inv_def)
  have r: "9 \<le> b_rank (b_at s v)" if "v < unat n" for v using arr that by (simp add: b.arrived_def)
  have b: "m_ptrs s ! v = b_ptr s v" "b_ptr s v \<noteq> null" "LOCAL (st_rt s) v = b_ptr s v"
    "built_worker (st_rt s) (m_epoch s) (m_ptrs s) v (b_ptr s v)" if v: "v < unat n" for v
    using data_okD(6)[OF ok v] r[OF v] by (simp_all add: builder_ok_def Let_def)
  show "distinct (m_ptrs s)"
    using data_okD(2,7)[OF ok] b(1) r by (fastforce simp: distinct_conv_nth)
  show "LOCAL (st_rt s) k = m_ptrs s ! k" if "k < unat n" using b[OF that] by simp
  show "worker_at (st_rt s) (m_epoch s) (m_ptrs s) (replicate (unat n) []) k" if "k < unat n"
    using b[OF that] that by (auto simp: worker_at_def built_worker_def)
qed

lemma start_runtime:
  assumes inv: "start_inv P n s" and ready: "m_at s = M_ready"
  shows "runtime (st_rt s) (m_epoch s) n (m_ptrs s) (replicate (unat n) [])"
proof -
  have ok: "data_ok n s" and arr: "b.arrived (unat n) 9 (b_at s)" using inv ready by (simp_all add: start_inv_def sync_built_def)
  have "concat (replicate (unat n) []) = ([] :: addr list)" by simp
  then show ?thesis using data_okD[OF ok] start_workers[OF inv arr] ready by (simp add: runtime_def main_ok_def)
qed

end

section \<open>Properties\<close>

text \<open>
  C14: the start hands over a complete runtime.  Whatever the interleaving, no thread faults; when any
  worker has returned from \<open>build\<close>, every \<open>Worker\<close> is written, with the pointers of all the others
  and an empty queue, and \<open>Worker::get\<close> on that thread finds its own; and when \<open>wait\<close> has returned, the
  published shared data and the workers are a runtime with \<open>n\<close> active workers, epoch 0 and empty queues.
\<close>

theorem startup_complete:
  assumes "parking_lot_ops P" and "start_reach P n s"
  shows "st_fault s = None \<and>
    (\<forall>w<unat n. b_at s w = B_loop \<longrightarrow> LOCAL (st_rt s) w = m_ptrs s ! w \<and>
      (\<forall>k<unat n. worker_at (st_rt s) (m_epoch s) (m_ptrs s) (replicate (unat n) []) k)) \<and>
    (m_at s = M_ready \<longrightarrow> runtime (st_rt s) (m_epoch s) n (m_ptrs s) (replicate (unat n) []))"
proof -
  have inv: "start_inv P n s" by (rule parking_lot_ops.start_reach_inv[OF assms])
  have "b.arrived (unat n) 9 (b_at s)" if "w < unat n" "b_at s w = B_loop" for w
    using parking_lot_ops.past_pc(2)[OF assms(1) inv that(1)] that(2) by simp
  then show ?thesis using inv parking_lot_ops.start_workers(2,3)[OF assms(1) inv] parking_lot_ops.start_runtime[OF assms(1) inv]
    by (simp add: start_inv_def data_ok_def)
qed

text \<open>
  C20: the start always ends.  Every schedule of the builders and the main thread has at most
  \<open>13 * n + 4\<close> steps, and it cannot end, or block, before all workers have entered their main loop and
  \<open>wait\<close> has returned: no notification of either condition variable is lost.
\<close>

theorem startup_terminates:
  assumes "parking_lot_ops P" and "start_init P n s" and "(start_step P n ^^ k) s t"
  shows "k \<le> 13 * unat n + 4 \<and>
    ((\<nexists>u. start_step P n t u) \<longrightarrow> m_at t = M_ready \<and> (\<forall>w<unat n. b_at t w = B_loop))"
proof -
  have init: "start_inv P n s" "start_measure n s = 13 * unat n + 4"
    using parking_lot_ops.start_init_inv[OF assms(1,2)] by auto
  have "start_inv P n t" "k + start_measure n t \<le> start_measure n s"
    using parking_lot_ops.start_steps[OF assms(1,3) init(1)] by auto
  then show ?thesis using init(2) parking_lot_ops.start_not_stuck[OF assms(1)] by auto
qed

text \<open>The start of two workers in an empty heap.\<close>

definition empty_rt :: "unit rt" where
  "empty_rt = \<lparr>mem = Map.empty, GLOBAL = null, LOCAL = (\<lambda>_. null), events = []\<rparr>"

lemma start_example: "\<exists>s. start_init fifo_lot 2 (s :: (unit, nat list) startup)"
proof -
  obtain s where "WorkerManager_new 2 1 ([] :: nat list) empty_rt = Inr s"
    by (simp add: WorkerManager_new_def Epoch_new_def EPOCH_eq new_obj_def do_new_eq)
  moreover have "alloc_ok 1 (mem empty_rt)" "finite (dom (mem empty_rt))" "pl_parked fifo_lot [] = {}"
    by (simp_all add: alloc_ok_def empty_rt_def fifo_lot_def)
  ultimately show ?thesis unfolding start_init_def by blast
qed

lemma start_example_end:
  "\<exists>s k t. start_init fifo_lot 2 (s :: (unit, nat list) startup) \<and> (start_step fifo_lot 2 ^^ k) s t \<and> m_at t = M_ready"
  using start_example fifo.start_init_inv fifo.start_finishes by blast

theorem startup_complete_witness:
  "\<exists>s :: (unit, nat list) startup. start_reach fifo_lot 2 s \<and> m_at s = M_ready \<and>
     runtime (st_rt s) (m_epoch s) 2 (m_ptrs s) [[], []]"
proof -
  from start_example_end obtain s t :: "(unit, nat list) startup" and k where
    s: "start_init fifo_lot 2 s" "(start_step fifo_lot 2 ^^ k) s t" "m_at t = M_ready" by blast
  have "start_reach fifo_lot 2 t"
    by (rule reach_steps[OF reach_init[of "start_init fifo_lot 2", OF s(1)]]) (rule relpowp_imp_rtranclp[OF s(2)])
  moreover have "unat (2 :: u32) = Suc (Suc 0)" by simp
  then have "replicate (unat (2 :: u32)) ([] :: addr list) = [[], []]" by (simp only: replicate.simps)
  ultimately show ?thesis using startup_complete[OF fifo.parking_lot_ops_axioms, of 2 t] s(3) by metis
qed

theorem startup_terminates_witness:
  "\<exists>s k (t :: (unit, nat list) startup). start_init fifo_lot 2 s \<and> (start_step fifo_lot 2 ^^ k) s t \<and> m_at t = M_ready \<and> k \<le> 30"
proof -
  from start_example_end obtain s t :: "(unit, nat list) startup" and k where
    s: "start_init fifo_lot 2 s" "(start_step fifo_lot 2 ^^ k) s t" "m_at t = M_ready" by blast
  with startup_terminates[OF fifo.parking_lot_ops_axioms s(1,2)] show ?thesis by auto
qed

end
