(* ===== verification/Event_Loop.thy ===== *)
theory Event_Loop
  imports Transition
begin

text \<open>
  The event loops and the sockets registered with them (\<open>yaay-mio/src/shared.rs\<close>, \<open>container.rs\<close>,
  \<open>dispatcher.rs\<close> 25-44 and 74-95), under concurrency.

  Loop \<open>i\<close> owns a \<open>LocalData\<close>: a locked slab of slots, a locked list of keys to be removed, and a
  \<open>mio::Poll\<close>.  A socket (\<open>MIOCell\<close>) is inserted into the slab, registered under its key, gets and
  loses dispatchers (\<open>MIO\<close>), and is dropped: deregistered, and its key left to the loop for removal,
  so that events that were already polled find the slot.  One step is one locked section or one call
  of the poll; the state of the dispatchers themselves is the subject of theory \<open>Dispatcher\<close>.

  \<open>slab\<close> and \<open>mio\<close> are not part of the sources: the slab operations are a parameter \<open>S\<close> with the laws
  of locale \<open>slab_ops\<close>, and when a poll may return which events is a parameter \<open>may\<close> with the laws of
  locale \<open>poll_events\<close>: events are about registered sockets, and a poll with a timeout may return without any.  An event carries, as a ghost, the socket it is about.
\<close>

section \<open>Definitions\<close>

record Slot =
  readable_dispatcher :: addr
  writable_dispatcher :: addr

definition Slot_new :: Slot where
  "Slot_new = \<lparr>readable_dispatcher = null, writable_dispatcher = null\<rparr>"

text \<open>The operations of \<open>slab::Slab\<close>: \<open>sb_remove\<close> panics (\<open>None\<close>) on a vacant key.\<close>

record 's slab =
  sb_get :: "nat \<Rightarrow> 's \<Rightarrow> Slot option"
  sb_insert :: "Slot \<Rightarrow> 's \<Rightarrow> nat \<times> 's"
  sb_set :: "nat \<Rightarrow> Slot \<Rightarrow> 's \<Rightarrow> 's"
  sb_remove :: "nat \<Rightarrow> 's \<Rightarrow> 's option"

record io_event =
  e_token :: nat
  e_readable :: bool
  e_writable :: bool
  e_socket :: nat

datatype notice = Notify addr | Push_batch

datatype elpc =
    E_check                \<comment> \<open>shared.rs 98: about to load \<open>SHUTDOWN\<close>\<close>
  | E_poll                 \<comment> \<open>shared.rs 99: inside \<open>poll\<close>\<close>
  | E_dispatch "io_event list" \<comment> \<open>shared.rs 100-113\<close>
  | E_flush                \<comment> \<open>shared.rs 114\<close>
  | E_pop bool             \<comment> \<open>shared.rs 116, and 124 after the shutdown\<close>
  | E_remove bool nat      \<comment> \<open>shared.rs 118, and 126\<close>
  | E_done

record 's LocalData =
  dispatchers :: 's
  deferred_remove :: "nat list"
  registered :: "nat \<rightharpoonup> nat"
  l_pc :: elpc
  l_notices :: "notice list"

datatype cpc =
    C_none
  | C_insert               \<comment> \<open>container.rs 61\<close>
  | C_register             \<comment> \<open>container.rs 62\<close>
  | C_live
  | C_defer                \<comment> \<open>container.rs 45-52\<close>
  | C_gone
  | C_failed               \<comment> \<open>\<open>register\<close> returned an error and \<open>unwrap\<close> panicked\<close>

record cell =
  c_pc :: cpc
  c_local :: nat
  c_key :: nat
  c_reader :: addr
  c_writer :: addr

record 's mio =
  locals :: "nat \<Rightarrow> 's LocalData"
  counter :: usize
  cells :: "nat \<Rightarrow> cell"
  m_heap :: "addr set"
  m_shutdown :: bool
  m_fault :: "fault option"

definition at_cell :: "nat \<Rightarrow> (cell \<Rightarrow> cell) \<Rightarrow> 's mio \<Rightarrow> 's mio" where
  "at_cell c f s = s\<lparr>cells := (cells s)(c := f (cells s c))\<rparr>"

definition at_local :: "nat \<Rightarrow> ('s LocalData \<Rightarrow> 's LocalData) \<Rightarrow> 's mio \<Rightarrow> 's mio" where
  "at_local i f s = s\<lparr>locals := (locals s)(i := f (locals s i))\<rparr>"

definition m_fail :: "fault \<Rightarrow> 's mio \<Rightarrow> 's mio" where
  "m_fail e s = s\<lparr>m_fault := Some e\<rparr>"

text \<open>\<open>global.counter.fetch_add(1, SeqCst) % global.locals.len()\<close>\<close>

definition pick_local :: "usize \<Rightarrow> usize \<Rightarrow> 's mio \<Rightarrow> (nat \<times> 's mio) res" where
  "pick_local n c s = bind_r (mod_checked c n) (\<lambda>i. Inr (unat i, s\<lparr>counter := c + 1\<rparr>))"

text \<open>\<open>Dispatcher::new_from_waker\<close>: \<open>d\<close> is the address of the new dispatcher.\<close>

definition attach :: "'s slab \<Rightarrow> bool \<Rightarrow> addr \<Rightarrow> nat \<Rightarrow> 's mio \<Rightarrow> 's mio" where
  "attach S rd d c s =
    (let cl = cells s c; m = dispatchers (locals s (c_local cl)); s = s\<lparr>m_heap := insert d (m_heap s)\<rparr>
     in case sb_get S (c_key cl) m of
       None \<Rightarrow> m_fail Out_of_bounds s
     | Some slot \<Rightarrow>
         if rd then
           if readable_dispatcher slot \<noteq> null then m_fail Panic_assert s
           else at_cell c (c_reader_update (\<lambda>_. d)) (at_local (c_local cl)
             (dispatchers_update (sb_set S (c_key cl) (slot\<lparr>readable_dispatcher := d\<rparr>))) s)
         else
           if writable_dispatcher slot \<noteq> null then m_fail Panic_assert s
           else at_cell c (c_writer_update (\<lambda>_. d)) (at_local (c_local cl)
             (dispatchers_update (sb_set S (c_key cl) (slot\<lparr>writable_dispatcher := d\<rparr>))) s))"

text \<open>\<open>Dispatcher::del\<close>, called by the drop of a \<open>MIO\<close> with dispatcher \<open>d\<close>.\<close>

definition del :: "'s slab \<Rightarrow> addr \<Rightarrow> nat \<Rightarrow> 's mio \<Rightarrow> 's mio" where
  "del S d c s =
    (let cl = cells s c; m = dispatchers (locals s (c_local cl))
     in case sb_get S (c_key cl) m of
       None \<Rightarrow> m_fail Out_of_bounds s
     | Some slot \<Rightarrow>
         let slot' = (if readable_dispatcher slot = d then Some (slot\<lparr>readable_dispatcher := null\<rparr>)
                      else if writable_dispatcher slot = d then Some (slot\<lparr>writable_dispatcher := null\<rparr>)
                      else None)
         in case slot' of
           None \<Rightarrow> m_fail Panic_unreachable s
         | Some slot' \<Rightarrow>
             if d \<notin> m_heap s then m_fail Use_after_free s
             else (at_local (c_local cl) (dispatchers_update (sb_set S (c_key cl) slot')) s)\<lparr>m_heap := m_heap s - {d}\<rparr>)"

text \<open>The end of \<open>MIOCell::drop\<close>: both locks are taken.\<close>

definition drop_cell :: "'s slab \<Rightarrow> nat \<Rightarrow> 's mio \<Rightarrow> 's mio" where
  "drop_cell S c s =
    (let cl = cells s c; m = dispatchers (locals s (c_local cl))
     in case sb_get S (c_key cl) m of
       None \<Rightarrow> m_fail Out_of_bounds s
     | Some slot \<Rightarrow>
         if readable_dispatcher slot \<noteq> null \<or> writable_dispatcher slot \<noteq> null then m_fail Panic_assert s
         else at_cell c (c_pc_update (\<lambda>_. C_gone)) (at_local (c_local cl) (deferred_remove_update (\<lambda>ks. ks @ [c_key cl])) s))"

datatype clabel =
    New                    \<comment> \<open>\<open>MIOHandle::new_r\<close>, \<open>new_w\<close> or \<open>new_rw\<close>\<close>
  | Insert
  | Register bool
  | Attach bool addr       \<comment> \<open>\<open>MIO::new_r\<close> or \<open>new_w\<close>\<close>
  | Del_reader             \<comment> \<open>the drop of a \<open>MIO\<close>\<close>
  | Del_writer
  | Deregister             \<comment> \<open>the last handle is dropped: container.rs 43\<close>
  | Defer

text \<open>
  One step on socket \<open>c\<close>.  The guards are what ownership ensures: a dispatcher is freshly allocated,
  a handle has one \<open>MIO\<close> at a time, and a cell is dropped after the \<open>MIO\<close>s that borrow it.
\<close>

definition cell_step :: "'s slab \<Rightarrow> usize \<Rightarrow> nat \<Rightarrow> clabel \<Rightarrow> 's mio \<Rightarrow> 's mio option" where
  "cell_step S n c l s =
    (let cl = cells s c; i = c_local cl in
     case c_pc cl of
       C_none \<Rightarrow>
         (if l = New then
            Some (case pick_local n (counter s) s of
              Inl e \<Rightarrow> m_fail e s
            | Inr (i, s) \<Rightarrow> at_cell c (\<lambda>cl. cl\<lparr>c_pc := C_insert, c_local := i\<rparr>) s)
          else None)
     | C_insert \<Rightarrow>
         (if l = Insert then
            let (key, m) = sb_insert S Slot_new (dispatchers (locals s i))
            in Some (at_cell c (\<lambda>cl. cl\<lparr>c_pc := C_register, c_key := key, c_reader := null, c_writer := null\<rparr>)
                 (at_local i (dispatchers_update (\<lambda>_. m)) s))
          else None)
     | C_register \<Rightarrow>
         (if l = Register True then
            Some (at_cell c (c_pc_update (\<lambda>_. C_live)) (at_local i (registered_update (\<lambda>r. r(c \<mapsto> c_key cl))) s))
          else if l = Register False then Some (at_cell c (c_pc_update (\<lambda>_. C_failed)) s)
          else None)
     | C_live \<Rightarrow>
         (case l of
            Attach rd d \<Rightarrow>
              if d \<noteq> null \<and> d \<notin> m_heap s \<and> (if rd then c_reader cl else c_writer cl) = null
              then Some (attach S rd d c s) else None
          | Del_reader \<Rightarrow>
              if c_reader cl \<noteq> null then Some (at_cell c (c_reader_update (\<lambda>_. null)) (del S (c_reader cl) c s)) else None
          | Del_writer \<Rightarrow>
              if c_writer cl \<noteq> null then Some (at_cell c (c_writer_update (\<lambda>_. null)) (del S (c_writer cl) c s)) else None
          | Deregister \<Rightarrow>
              if c_reader cl = null \<and> c_writer cl = null
              then Some (at_cell c (c_pc_update (\<lambda>_. C_defer)) (at_local i (registered_update (\<lambda>r. r(c := None))) s))
              else None
          | _ \<Rightarrow> None)
     | C_defer \<Rightarrow> (if l = Defer then Some (drop_cell S c s) else None)
     | C_gone \<Rightarrow> None
     | C_failed \<Rightarrow> None)"

text \<open>The \<open>for\<close> loop over the polled events: whom it notifies, and when it flushes the batch.\<close>

fun dispatch_events :: "'s slab \<Rightarrow> 's \<Rightarrow> nat \<Rightarrow> io_event list \<Rightarrow> notice list res" where
  "dispatch_events S m k [] = Inr []"
| "dispatch_events S m k (ev # evs) =
    (let batch = (if (k + 1) mod 128 = 0 then [Push_batch] else [])
     in case sb_get S (e_token ev) m of
       None \<Rightarrow> Inl Out_of_bounds
     | Some slot \<Rightarrow>
         let r = (if e_readable ev \<and> readable_dispatcher slot \<noteq> null then [Notify (readable_dispatcher slot)] else []);
             w = (if e_writable ev \<and> writable_dispatcher slot \<noteq> null then [Notify (writable_dispatcher slot)] else [])
         in bind_r (dispatch_events S m (Suc k) evs) (\<lambda>ns. Inr (batch @ r @ w @ ns)))"

definition notified_ok :: "addr set \<Rightarrow> notice list \<Rightarrow> bool" where
  "notified_ok A ns = list_all (\<lambda>x. case x of Notify d \<Rightarrow> d \<in> A | Push_batch \<Rightarrow> True) ns"

text \<open>
  \<open>may timeout r evs\<close>: a call of \<open>mio::Poll::poll\<close> with this timeout in milliseconds (\<open>None\<close> is no timeout), while the
  sockets in \<open>r\<close> are registered, may return the events \<open>evs\<close>.  A thread inside a poll that may not return yet waits.
\<close>

type_synonym os_poll = "nat option \<Rightarrow> (nat \<rightharpoonup> nat) \<Rightarrow> io_event list \<Rightarrow> bool"

definition POLL_TIMEOUT :: "nat option" where
  "POLL_TIMEOUT = Some 1000"

text \<open>One step of event loop \<open>i\<close>; \<open>evs\<close> are the events the poll returns.\<close>

definition loop_step :: "'s slab \<Rightarrow> os_poll \<Rightarrow> nat \<Rightarrow> io_event list \<Rightarrow> 's mio \<Rightarrow> 's mio option" where
  "loop_step S may i evs s =
    (let l = locals s i; go = (\<lambda>pc. at_local i (l_pc_update (\<lambda>_. pc))) in
     case l_pc l of
       E_check \<Rightarrow> Some (go (if m_shutdown s then E_pop True else E_poll) s)
     | E_poll \<Rightarrow> if may POLL_TIMEOUT (registered l) evs then Some (go (E_dispatch evs) s) else None
     | E_dispatch evs \<Rightarrow>
         Some (case dispatch_events S (dispatchers l) 0 evs of
           Inl e \<Rightarrow> m_fail e s
         | Inr ns \<Rightarrow>
             if notified_ok (m_heap s) ns then at_local i (\<lambda>l. l\<lparr>l_pc := E_flush, l_notices := l_notices l @ ns\<rparr>) s
             else m_fail Use_after_free s)
     | E_flush \<Rightarrow> Some (at_local i (\<lambda>l. l\<lparr>l_pc := E_pop False, l_notices := l_notices l @ [Push_batch]\<rparr>) s)
     | E_pop final \<Rightarrow>
         Some (if deferred_remove l = [] then go (if final then E_done else E_check) s
               else go (E_remove final (last (deferred_remove l))) (at_local i (deferred_remove_update butlast) s))
     | E_remove final key \<Rightarrow>
         Some (case sb_remove S key (dispatchers l) of
           None \<Rightarrow> m_fail Panic_unwrap s
         | Some m \<Rightarrow> at_local i (\<lambda>l. l\<lparr>l_pc := E_pop final, dispatchers := m\<rparr>) s)
     | E_done \<Rightarrow> None)"

datatype mlabel = Socket nat clabel | Loop nat "io_event list" | Set_shutdown

fun mio_act :: "'s slab \<Rightarrow> os_poll \<Rightarrow> usize \<Rightarrow> mlabel \<Rightarrow> 's mio \<Rightarrow> 's mio option" where
  "mio_act S may n (Socket c l) s = (if m_fault s = None then cell_step S n c l s else None)"
| "mio_act S may n (Loop i evs) s = (if m_fault s = None \<and> i < unat n then loop_step S may i evs s else None)"
| "mio_act S may n Set_shutdown s = Some (s\<lparr>m_shutdown := True\<rparr>)"

text \<open>After \<open>GlobalData::build\<close>: empty slabs, nothing registered, no socket yet.\<close>

definition mio_init :: "'s slab \<Rightarrow> usize \<Rightarrow> 's mio \<Rightarrow> bool" where
  "mio_init S n s \<longleftrightarrow> counter s = 0 \<and> \<not> m_shutdown s \<and> m_fault s = None \<and> (\<forall>c. c_pc (cells s c) = C_none) \<and>
     (\<forall>i<unat n. (\<forall>k. sb_get S k (dispatchers (locals s i)) = None) \<and> deferred_remove (locals s i) = [] \<and>
        registered (locals s i) = Map.empty \<and> l_pc (locals s i) = E_check)"

abbreviation mio_reach ::
  "'s slab \<Rightarrow> os_poll \<Rightarrow> usize \<Rightarrow> 's mio \<Rightarrow> bool" where
  "mio_reach S may n \<equiv> reach (mio_init S n) (enabled (mio_act S may n))"

text \<open>The interfaces: what \<open>slab\<close> and \<open>mio\<close> document.\<close>

locale slab_ops =
  fixes S :: "'s slab"
  assumes get_insert: "sb_insert S v m = (k, m') \<Longrightarrow> sb_get S k m = None \<and> sb_get S j m' = (if j = k then Some v else sb_get S j m)"
    and get_set: "sb_get S k m \<noteq> None \<Longrightarrow> sb_get S j (sb_set S k v m) = (if j = k then Some v else sb_get S j m)"
    and get_remove: "sb_get S k m \<noteq> None \<Longrightarrow>
      \<exists>m'. sb_remove S k m = Some m' \<and> (\<forall>j. sb_get S j m' = (if j = k then None else sb_get S j m))"

locale poll_events =
  fixes may :: os_poll
  assumes may_registered: "may timeout r evs \<Longrightarrow> e \<in> set evs \<Longrightarrow> r (e_socket e) = Some (e_token e)"
    and may_time_out: "may (Some ms) r []"

section \<open>The invariant\<close>

definition has_slot :: "cell \<Rightarrow> bool" where
  "has_slot cl \<longleftrightarrow> c_pc cl \<in> {C_register, C_live, C_defer, C_failed}"

abbreviation slot_at :: "'s slab \<Rightarrow> 's mio \<Rightarrow> nat \<Rightarrow> nat \<Rightarrow> Slot option" where
  "slot_at S s i k \<equiv> sb_get S k (dispatchers (locals s i))"

text \<open>A socket's slot holds exactly the dispatchers of the socket, and no two sockets share a slot.\<close>

definition cell_ok :: "'s slab \<Rightarrow> usize \<Rightarrow> 's mio \<Rightarrow> nat \<Rightarrow> bool" where
  "cell_ok S n s c \<longleftrightarrow>
     (let cl = cells s c
      in (c_pc cl \<noteq> C_none \<longrightarrow> c_local cl < unat n) \<and>
         (has_slot cl \<longrightarrow> slot_at S s (c_local cl) (c_key cl) =
            Some \<lparr>readable_dispatcher = c_reader cl, writable_dispatcher = c_writer cl\<rparr>) \<and>
         (c_pc cl \<in> {C_register, C_defer, C_failed, C_gone} \<longrightarrow> c_reader cl = null \<and> c_writer cl = null))"

definition keys_ok :: "'s mio \<Rightarrow> bool" where
  "keys_ok s \<longleftrightarrow> (\<forall>c d. c \<noteq> d \<and> has_slot (cells s c) \<and> has_slot (cells s d) \<and> c_local (cells s c) = c_local (cells s d) \<longrightarrow>
     c_key (cells s c) \<noteq> c_key (cells s d))"

text \<open>The keys a loop still has to remove: their slots are empty and belong to no socket.\<close>

definition pending :: "'s LocalData \<Rightarrow> nat list" where
  "pending l = deferred_remove l @ (case l_pc l of E_remove b k \<Rightarrow> [k] | _ \<Rightarrow> [])"

definition pending_ok :: "'s slab \<Rightarrow> 's mio \<Rightarrow> nat \<Rightarrow> bool" where
  "pending_ok S s i \<longleftrightarrow> distinct (pending (locals s i)) \<and>
     (\<forall>k\<in>set (pending (locals s i)). slot_at S s i k = Some Slot_new \<and>
        (\<forall>c. has_slot (cells s c) \<and> c_local (cells s c) = i \<longrightarrow> c_key (cells s c) \<noteq> k))"

definition registered_ok :: "'s mio \<Rightarrow> nat \<Rightarrow> bool" where
  "registered_ok s i \<longleftrightarrow> (\<forall>c k. registered (locals s i) c = Some k \<longrightarrow>
     c_pc (cells s c) = C_live \<and> c_local (cells s c) = i \<and> c_key (cells s c) = k)"

text \<open>A polled event still finds the slot of its own socket.\<close>

definition event_ok :: "'s mio \<Rightarrow> nat \<Rightarrow> io_event \<Rightarrow> bool" where
  "event_ok s i e \<longleftrightarrow>
     (let cl = cells s (e_socket e)
      in c_local cl = i \<and> c_key cl = e_token e \<and>
         (c_pc cl \<in> {C_live, C_defer} \<or> c_pc cl = C_gone \<and> e_token e \<in> set (deferred_remove (locals s i))))"

definition events_ok :: "'s mio \<Rightarrow> nat \<Rightarrow> bool" where
  "events_ok s i \<longleftrightarrow> (\<forall>evs. l_pc (locals s i) = E_dispatch evs \<longrightarrow> (\<forall>e\<in>set evs. event_ok s i e))"

text \<open>The dispatchers of the sockets are allocated, and no two \<open>MIO\<close>s share one.\<close>

definition ptrs :: "cell \<Rightarrow> addr set" where
  "ptrs cl = (if c_pc cl = C_live then {c_reader cl, c_writer cl} - {null} else {})"

definition heap_ok :: "'s mio \<Rightarrow> bool" where
  "heap_ok s \<longleftrightarrow> (\<forall>c. ptrs (cells s c) \<subseteq> m_heap s \<and>
     (c_reader (cells s c) \<noteq> null \<and> c_pc (cells s c) = C_live \<longrightarrow> c_reader (cells s c) \<noteq> c_writer (cells s c)) \<and>
     (\<forall>d. d \<noteq> c \<longrightarrow> ptrs (cells s c) \<inter> ptrs (cells s d) = {}))"

definition mio_inv :: "'s slab \<Rightarrow> usize \<Rightarrow> 's mio \<Rightarrow> bool" where
  "mio_inv S n s \<longleftrightarrow> m_fault s = None \<and> (\<forall>c. cell_ok S n s c) \<and> keys_ok s \<and> heap_ok s \<and>
     (\<forall>i<unat n. pending_ok S s i \<and> registered_ok s i \<and> events_ok s i)"

lemmas mio_inv_defs = cell_ok_def keys_ok_def heap_ok_def pending_ok_def registered_ok_def events_ok_def Let_def

lemma at_simps [simp]:
  "locals (at_cell c f s) = locals s" "cells (at_cell c f s) = (cells s)(c := f (cells s c))"
  "locals (at_local i g s) = (locals s)(i := g (locals s i))" "cells (at_local i g s) = cells s"
  "m_heap (at_cell c f s) = m_heap s" "m_heap (at_local i g s) = m_heap s"
  "m_fault (at_cell c f s) = m_fault s" "m_fault (at_local i g s) = m_fault s"
  "counter (at_cell c f s) = counter s" "counter (at_local i g s) = counter s"
  by (simp_all add: at_cell_def at_local_def)

text \<open>What an event means for the socket it is about.\<close>

definition event_notices :: "'s mio \<Rightarrow> io_event \<Rightarrow> notice list" where
  "event_notices s e =
    (let cl = cells s (e_socket e)
     in (if e_readable e \<and> c_reader cl \<noteq> null then [Notify (c_reader cl)] else []) @
        (if e_writable e \<and> c_writer cl \<noteq> null then [Notify (c_writer cl)] else []))"

lemma mio_invD:
  assumes "mio_inv S n s"
  shows "m_fault s = None" "cell_ok S n s c" "keys_ok s" "heap_ok s"
    "i < unat n \<Longrightarrow> pending_ok S s i" "i < unat n \<Longrightarrow> registered_ok s i" "i < unat n \<Longrightarrow> events_ok s i"
  using assms by (simp_all add: mio_inv_def)

lemma heap_upd:
  assumes "heap_ok s" "cells t = (cells s)(c := cl)" "ptrs cl \<subseteq> m_heap t"
    and "\<And>d. d \<noteq> c \<Longrightarrow> ptrs (cells s d) \<subseteq> m_heap t \<and> ptrs cl \<inter> ptrs (cells s d) = {}"
    and "c_reader cl \<noteq> null \<Longrightarrow> c_pc cl = C_live \<Longrightarrow> c_reader cl \<noteq> c_writer cl"
  shows "heap_ok t"
  using assms unfolding heap_ok_def by (auto simp: Int_commute)

lemma heap_quiet:
  assumes "heap_ok s" "cells t = (cells s)(c := cl)" "m_heap t = m_heap s" "ptrs cl = {}"
    and "c_pc cl = C_live \<Longrightarrow> c_reader cl = null"
  shows "heap_ok t"
  by (rule heap_upd[OF assms(1,2)]) (use assms in \<open>auto simp: heap_ok_def\<close>)

lemma new_inv:
  assumes inv: "mio_inv S n s" and pc: "c_pc (cells s c) = C_none" and n: "n \<noteq> 0"
  shows "mio_inv S n (at_cell c (\<lambda>cl. cl\<lparr>c_pc := C_insert, c_local := unat (k mod n)\<rparr>) (s\<lparr>counter := x\<rparr>))" (is "mio_inv S n ?t")
proof -
  have i: "unat (k mod n) < unat n" by (rule unat_mod_less[OF n])
  have "cell_ok S n ?t d" for d using mio_invD(2)[OF inv, of d] i by (auto simp: cell_ok_def has_slot_def Let_def)
  moreover have "keys_ok ?t" using mio_invD(3)[OF inv] by (auto simp: keys_ok_def has_slot_def)
  moreover have "heap_ok ?t" by (rule heap_quiet[OF mio_invD(4)[OF inv]]) (auto simp: ptrs_def)
  moreover have "pending_ok S ?t j" if "j < unat n" for j
    using mio_invD(5)[OF inv that] by (auto simp: pending_ok_def has_slot_def)
  moreover have "registered_ok ?t j" if "j < unat n" for j
    unfolding registered_ok_def
  proof (intro allI impI)
    fix d k assume "registered (locals ?t j) d = Some k"
    then show "c_pc (cells ?t d) = C_live \<and> c_local (cells ?t d) = j \<and> c_key (cells ?t d) = k"
      using mio_invD(6)[OF inv that] pc by (cases "d = c") (auto simp: registered_ok_def)
  qed
  moreover have "events_ok ?t j" if "j < unat n" for j
    using mio_invD(7)[OF inv that] pc by (fastforce simp: events_ok_def event_ok_def Let_def)
  ultimately show ?thesis using mio_invD(1)[OF inv] by (simp add: mio_inv_def)
qed

text \<open>
  A step on socket \<open>c\<close> that changes at most its own slot: the key belongs to no other socket and is not
  waiting to be removed.
\<close>

lemma cell_inv:
  assumes inv: "mio_inv S n s" and i: "c_local cl < unat n" and cells: "cells t = (cells s)(c := cl)"
    and fault: "m_fault t = None" and heap: "heap_ok t"
    and other: "\<And>j. j \<noteq> c_local cl \<Longrightarrow> locals t j = locals s j"
    and same: "deferred_remove (locals t (c_local cl)) = deferred_remove (locals s (c_local cl))"
      "l_pc (locals t (c_local cl)) = l_pc (locals s (c_local cl))"
    and slots: "\<And>k. k \<noteq> c_key cl \<Longrightarrow> slot_at S t (c_local cl) k = slot_at S s (c_local cl) k"
    and mine: "has_slot cl" "slot_at S t (c_local cl) (c_key cl) = Some \<lparr>readable_dispatcher = c_reader cl, writable_dispatcher = c_writer cl\<rparr>"
      "c_pc cl \<noteq> C_live \<Longrightarrow> c_reader cl = null \<and> c_writer cl = null"
    and key: "\<And>d. d \<noteq> c \<Longrightarrow> has_slot (cells s d) \<Longrightarrow> c_local (cells s d) = c_local cl \<Longrightarrow> c_key (cells s d) \<noteq> c_key cl"
      "c_key cl \<notin> set (pending (locals s (c_local cl)))"
    and reg: "\<And>d k. registered (locals t (c_local cl)) d = Some k \<Longrightarrow>
      if d = c then c_pc cl = C_live \<and> k = c_key cl else registered (locals s (c_local cl)) d = Some k"
      "\<And>j. j < unat n \<Longrightarrow> j \<noteq> c_local cl \<Longrightarrow> registered (locals s j) c = None"
    and ev: "\<And>j e. event_ok s j e \<Longrightarrow> e_socket e = c \<Longrightarrow> event_ok t j e"
  shows "mio_inv S n t"
proof -
  let ?i = "c_local cl"
  have pend: "pending (locals t j) = pending (locals s j)" for j
    using same other by (cases "j = ?i") (auto simp: pending_def)
  have "cell_ok S n t d" for d
  proof (cases "d = c")
    case True
    then show ?thesis using i mine by (auto simp: cell_ok_def cells Let_def has_slot_def)
  next
    case False
    have "slot_at S t (c_local (cells s d)) (c_key (cells s d)) = slot_at S s (c_local (cells s d)) (c_key (cells s d))"
      if "has_slot (cells s d)"
      using that key(1)[OF False that] slots other by (cases "c_local (cells s d) = ?i") auto
    then show ?thesis using False mio_invD(2)[OF inv, of d] by (simp add: cell_ok_def cells Let_def)
  qed
  moreover have "keys_ok t" unfolding keys_ok_def
  proof (intro allI impI)
    fix d e assume "d \<noteq> e \<and> has_slot (cells t d) \<and> has_slot (cells t e) \<and> c_local (cells t d) = c_local (cells t e)"
    then show "c_key (cells t d) \<noteq> c_key (cells t e)"
      using mio_invD(3)[OF inv] key(1)[of d] key(1)[of e] unfolding cells keys_ok_def by (cases "d = c"; cases "e = c") auto
  qed
  moreover have "pending_ok S t j" if j: "j < unat n" for j
  proof -
    have "slot_at S t j k = slot_at S s j k" if "k \<in> set (pending (locals s j))" for k
      using that slots[of k] key(2) other by (cases "j = ?i"; cases "k = c_key cl") auto
    then show ?thesis using mio_invD(5)[OF inv j] key(2) unfolding pending_ok_def pend cells by auto
  qed
  moreover have "registered_ok t j" if j: "j < unat n" for j
  proof (cases "j = ?i")
    case True
    show ?thesis using reg(1) mio_invD(6)[OF inv j] unfolding registered_ok_def cells True by (auto split: if_splits)
  next
    case False
    then show ?thesis using reg(2)[OF j False] mio_invD(6)[OF inv j] other[OF False] unfolding registered_ok_def cells by auto
  qed
  moreover have "events_ok t j" if j: "j < unat n" for j
    unfolding events_ok_def
  proof (intro allI impI ballI)
    fix evs e assume e: "l_pc (locals t j) = E_dispatch evs" "e \<in> set evs"
    have l: "l_pc (locals t j) = l_pc (locals s j)" "deferred_remove (locals t j) = deferred_remove (locals s j)"
      using same other by (cases "j = ?i"; simp)+
    have "l_pc (locals s j) = E_dispatch evs" using e(1) l(1) by simp
    then have "event_ok s j e" using mio_invD(7)[OF inv j] e(2) unfolding events_ok_def by blast
    then show "event_ok t j e" using ev l(2) by (cases "e_socket e = c") (auto simp: event_ok_def cells Let_def)
  qed
  ultimately show ?thesis using fault heap by (simp add: mio_inv_def)
qed

lemma key_own:
  assumes "mio_inv S n s" "has_slot (cells s c)"
  shows "d \<noteq> c \<Longrightarrow> has_slot (cells s d) \<Longrightarrow> c_local (cells s d) = c_local (cells s c) \<Longrightarrow> c_key (cells s d) \<noteq> c_key (cells s c)"
    "c_key (cells s c) \<notin> set (pending (locals s (c_local (cells s c))))" "c_local (cells s c) < unat n"
    "slot_at S s (c_local (cells s c)) (c_key (cells s c)) =
       Some \<lparr>readable_dispatcher = c_reader (cells s c), writable_dispatcher = c_writer (cells s c)\<rparr>"
proof -
  show i: "c_local (cells s c) < unat n" using mio_invD(2)[OF assms(1), of c] assms(2) by (auto simp: cell_ok_def Let_def has_slot_def)
  show "c_key (cells s c) \<notin> set (pending (locals s (c_local (cells s c))))"
    using mio_invD(5)[OF assms(1) i] assms(2) by (auto simp: pending_ok_def)
qed (use mio_invD(2)[OF assms(1), of c] mio_invD(3)[OF assms(1)] assms(2) in \<open>auto simp: keys_ok_def cell_ok_def Let_def\<close>)

lemma registered_live:
  assumes "mio_inv S n s" "j < unat n" "registered (locals s j) c = Some k"
  shows "c_pc (cells s c) = C_live \<and> c_local (cells s c) = j \<and> c_key (cells s c) = k"
  using mio_invD(6)[OF assms(1,2)] assms(3) by (simp add: registered_ok_def)

lemma not_registered:
  assumes "mio_inv S n s" "j < unat n" "c_pc (cells s c) \<noteq> C_live \<or> c_local (cells s c) \<noteq> j"
  shows "registered (locals s j) c = None"
  using registered_live[OF assms(1,2)] assms(3) by (cases "registered (locals s j) c") auto

context slab_ops
begin

lemma insert_inv:
  assumes inv: "mio_inv S n s" and pc: "c_pc (cells s c) = C_insert"
    and ins: "sb_insert S Slot_new (dispatchers (locals s (c_local (cells s c)))) = (key, m)"
  shows "mio_inv S n (at_cell c (\<lambda>cl. cl\<lparr>c_pc := C_register, c_key := key, c_reader := null, c_writer := null\<rparr>)
    (at_local (c_local (cells s c)) (dispatchers_update (\<lambda>_. m)) s))" (is "mio_inv S n ?t")
proof -
  let ?i = "c_local (cells s c)"
  let ?cl = "(cells s c)\<lparr>c_pc := C_register, c_key := key, c_reader := null, c_writer := null\<rparr>"
  have free: "slot_at S s ?i key = None" and m: "sb_get S j m = (if j = key then Some Slot_new else slot_at S s ?i j)" for j
    using get_insert[OF ins, of j] by auto
  have i: "?i < unat n" using mio_invD(2)[OF inv, of c] pc by (simp add: cell_ok_def Let_def)
  have no: "registered (locals s j) c = None" if "j < unat n" for j by (rule not_registered[OF inv that]) (simp add: pc)
  show ?thesis
  proof (rule cell_inv[OF inv, where c = c and cl = ?cl])
    show "heap_ok ?t" by (rule heap_quiet[OF mio_invD(4)[OF inv]]) (auto simp: ptrs_def)
    show "c_key (cells s d) \<noteq> c_key ?cl" if "has_slot (cells s d)" "c_local (cells s d) = c_local ?cl" for d
      using mio_invD(2)[OF inv, of d] that free by (auto simp: cell_ok_def Let_def)
    show "c_key ?cl \<notin> set (pending (locals s (c_local ?cl)))" using mio_invD(5)[OF inv i] free by (auto simp: pending_ok_def)
    show "if d = c then c_pc ?cl = C_live \<and> k = c_key ?cl else registered (locals s (c_local ?cl)) d = Some k"
      if "registered (locals ?t (c_local ?cl)) d = Some k" for d k using that no[OF i] by auto
    show "event_ok ?t j e" if "event_ok s j e" "e_socket e = c" for j e using that pc by (auto simp: event_ok_def Let_def)
  qed (use i no mio_invD(1)[OF inv] in \<open>simp_all add: has_slot_def m Slot_new_def\<close>)
qed

lemma register_inv:
  assumes inv: "mio_inv S n s" and pc: "c_pc (cells s c) = C_register"
  shows "mio_inv S n (at_cell c (c_pc_update (\<lambda>_. C_live)) (at_local (c_local (cells s c)) (registered_update (\<lambda>r. r(c \<mapsto> c_key (cells s c)))) s))"
      (is "mio_inv S n ?t")
    and "mio_inv S n (at_cell c (c_pc_update (\<lambda>_. C_failed)) s)" (is "mio_inv S n ?u")
proof -
  let ?i = "c_local (cells s c)"
  have slot: "has_slot (cells s c)" using pc by (simp add: has_slot_def)
  note own = key_own[OF inv slot]
  have nn: "c_reader (cells s c) = null" "c_writer (cells s c) = null"
    using mio_invD(2)[OF inv, of c] pc by (simp_all add: cell_ok_def Let_def)
  have no: "registered (locals s j) c = None" if "j < unat n" for j by (rule not_registered[OF inv that]) (simp add: pc)
  show "mio_inv S n ?t"
  proof (rule cell_inv[OF inv, where c = c and cl = "(cells s c)\<lparr>c_pc := C_live\<rparr>"])
    show "heap_ok ?t" by (rule heap_quiet[OF mio_invD(4)[OF inv]]) (auto simp: ptrs_def nn)
    show "event_ok ?t j e" if "event_ok s j e" "e_socket e = c" for j e using that pc by (auto simp: event_ok_def Let_def)
  qed (use own no mio_invD(1)[OF inv] in \<open>auto simp: has_slot_def split: if_splits\<close>)
  show "mio_inv S n ?u"
  proof (rule cell_inv[OF inv, where c = c and cl = "(cells s c)\<lparr>c_pc := C_failed\<rparr>"])
    show "heap_ok ?u" by (rule heap_quiet[OF mio_invD(4)[OF inv]]) (auto simp: ptrs_def)
    show "event_ok ?u j e" if "event_ok s j e" "e_socket e = c" for j e using that pc by (auto simp: event_ok_def Let_def)
  qed (use own no nn mio_invD(1)[OF inv] in \<open>auto simp: has_slot_def\<close>)
qed

lemma deregister_inv:
  assumes inv: "mio_inv S n s" and pc: "c_pc (cells s c) = C_live" and nn: "c_reader (cells s c) = null" "c_writer (cells s c) = null"
  shows "mio_inv S n (at_cell c (c_pc_update (\<lambda>_. C_defer)) (at_local (c_local (cells s c)) (registered_update (\<lambda>r. r(c := None))) s))"
    (is "mio_inv S n ?t")
proof -
  have slot: "has_slot (cells s c)" using pc by (simp add: has_slot_def)
  note own = key_own[OF inv slot]
  have no: "registered (locals s j) c = None" if "j < unat n" "j \<noteq> c_local (cells s c)" for j by (rule not_registered[OF inv that(1)]) (use that(2) in auto)
  show ?thesis
  proof (rule cell_inv[OF inv, where c = c and cl = "(cells s c)\<lparr>c_pc := C_defer\<rparr>"])
    show "heap_ok ?t" by (rule heap_quiet[OF mio_invD(4)[OF inv]]) (auto simp: ptrs_def)
    show "event_ok ?t j e" if "event_ok s j e" "e_socket e = c" for j e using that pc by (auto simp: event_ok_def Let_def)
  qed (use own no nn mio_invD(1)[OF inv] in \<open>auto simp: has_slot_def split: if_splits\<close>)
qed

text \<open>Attaching and deleting a dispatcher: the slot becomes \<open>slot\<close>, in the slab and for the socket.\<close>

lemma live_inv:
  assumes inv: "mio_inv S n s" and pc: "c_pc (cells s c) = C_live"
    and t: "locals t = (locals s)(c_local (cells s c) := dispatchers_update (sb_set S (c_key (cells s c))
        \<lparr>readable_dispatcher = r, writable_dispatcher = w\<rparr>) (locals s (c_local (cells s c))))"
      "cells t = (cells s)(c := (cells s c)\<lparr>c_reader := r, c_writer := w\<rparr>)" "m_fault t = None" "heap_ok t"
  shows "mio_inv S n t"
proof -
  let ?cl = "(cells s c)\<lparr>c_reader := r, c_writer := w\<rparr>"
  have slot: "has_slot (cells s c)" using pc by (simp add: has_slot_def)
  note own = key_own[OF inv slot]
  have get: "sb_get S j (sb_set S (c_key (cells s c)) v (dispatchers (locals s (c_local (cells s c))))) =
      (if j = c_key (cells s c) then Some v else slot_at S s (c_local (cells s c)) j)" for j v
    by (rule get_set) (simp add: own(4))
  have no: "registered (locals s j) c = None" if "j < unat n" "j \<noteq> c_local (cells s c)" for j
    by (rule not_registered[OF inv that(1)]) (use that(2) in auto)
  have reg: "registered (locals s (c_local (cells s c))) c = Some k \<Longrightarrow> k = c_key (cells s c)" for k
    by (drule registered_live[OF inv own(3)]) blast
  show ?thesis
  proof (rule cell_inv[OF inv _ t(2-4)])
    show "event_ok t j e" if "event_ok s j e" "e_socket e = c" for j e
      using that by (simp add: event_ok_def Let_def t(2) pc)
  qed (use own no reg pc in \<open>auto simp: has_slot_def t get\<close>)
qed

lemma disjointD: "A \<inter> B = {} \<Longrightarrow> x \<in> A \<Longrightarrow> x \<notin> B"
  by blast

lemma heapD:
  assumes "mio_inv S n s" "c_pc (cells s c) = C_live"
  shows "{c_reader (cells s c), c_writer (cells s c)} - {null} \<subseteq> m_heap s" "ptrs (cells s d) \<subseteq> m_heap s"
    "c_reader (cells s c) \<noteq> null \<Longrightarrow> c_reader (cells s c) \<noteq> c_writer (cells s c)"
    "d \<noteq> c \<Longrightarrow> ({c_reader (cells s c), c_writer (cells s c)} - {null}) \<inter> ptrs (cells s d) = {}"
proof -
  have h: "heap_ok s" by (rule mio_invD(4)[OF assms(1)])
  have p: "ptrs (cells s c) = {c_reader (cells s c), c_writer (cells s c)} - {null}" using assms(2) by (simp add: ptrs_def)
  show "{c_reader (cells s c), c_writer (cells s c)} - {null} \<subseteq> m_heap s" "ptrs (cells s d) \<subseteq> m_heap s"
    "d \<noteq> c \<Longrightarrow> ({c_reader (cells s c), c_writer (cells s c)} - {null}) \<inter> ptrs (cells s d) = {}"
    using h p unfolding heap_ok_def by metis+
  show "c_reader (cells s c) \<noteq> null \<Longrightarrow> c_reader (cells s c) \<noteq> c_writer (cells s c)"
    using h assms(2) unfolding heap_ok_def by blast
qed

lemma attach_inv:
  assumes inv: "mio_inv S n s" and pc: "c_pc (cells s c) = C_live" and d: "d \<noteq> null" "d \<notin> m_heap s"
    and free: "(if rd then c_reader (cells s c) else c_writer (cells s c)) = null"
  shows "mio_inv S n (attach S rd d c s)"
proof -
  have own: "slot_at S s (c_local (cells s c)) (c_key (cells s c)) =
       Some \<lparr>readable_dispatcher = c_reader (cells s c), writable_dispatcher = c_writer (cells s c)\<rparr>"
    by (rule key_own(4)[OF inv]) (simp add: has_slot_def pc)
  define r where "r = (if rd then d else c_reader (cells s c))"
  define w where "w = (if rd then c_writer (cells s c) else d)"
  let ?cl = "(cells s c)\<lparr>c_reader := r, c_writer := w\<rparr>"
  have t: "locals (attach S rd d c s) = (locals s)(c_local (cells s c) := dispatchers_update (sb_set S (c_key (cells s c))
        \<lparr>readable_dispatcher = r, writable_dispatcher = w\<rparr>) (locals s (c_local (cells s c))))"
    "cells (attach S rd d c s) = (cells s)(c := ?cl)" "m_fault (attach S rd d c s) = None"
    "m_heap (attach S rd d c s) = insert d (m_heap s)"
    using own free mio_invD(1)[OF inv] by (cases rd; simp add: attach_def Let_def r_def w_def)+
  note h = heapD[OF inv pc]
  have new: "d \<noteq> c_reader (cells s c)" "d \<noteq> c_writer (cells s c)" "\<And>e. d \<notin> ptrs (cells s e)" using h(1,2) d by auto
  have p: "ptrs ?cl \<subseteq> insert d ({c_reader (cells s c), c_writer (cells s c)} - {null})" using pc by (auto simp: ptrs_def r_def w_def)
  have "heap_ok (attach S rd d c s)"
  proof (rule heap_upd[OF mio_invD(4)[OF inv] t(2)])
    show "ptrs ?cl \<subseteq> m_heap (attach S rd d c s)" using p h(1) unfolding t(4) by blast
    show "ptrs (cells s e) \<subseteq> m_heap (attach S rd d c s) \<and> ptrs ?cl \<inter> ptrs (cells s e) = {}" if "e \<noteq> c" for e
      using p h(2)[of e] h(4)[OF that] new(3)[of e] unfolding t(4) by blast
    show "c_reader ?cl \<noteq> null \<Longrightarrow> c_reader ?cl \<noteq> c_writer ?cl" using h(3) new d(1) by (auto simp: r_def w_def)
  qed
  from live_inv[OF inv pc t(1-3) this] show ?thesis .
qed

lemma del_inv:
  assumes inv: "mio_inv S n s" and pc: "c_pc (cells s c) = C_live"
  shows "c_reader (cells s c) \<noteq> null \<Longrightarrow> mio_inv S n (at_cell c (c_reader_update (\<lambda>_. null)) (del S (c_reader (cells s c)) c s))"
    (is "_ \<Longrightarrow> mio_inv S n ?t")
    "c_writer (cells s c) \<noteq> null \<Longrightarrow> mio_inv S n (at_cell c (c_writer_update (\<lambda>_. null)) (del S (c_writer (cells s c)) c s))"
    (is "_ \<Longrightarrow> mio_inv S n ?u")
proof -
  let ?r = "c_reader (cells s c)" and ?w = "c_writer (cells s c)"
  have own: "slot_at S s (c_local (cells s c)) (c_key (cells s c)) = Some \<lparr>readable_dispatcher = ?r, writable_dispatcher = ?w\<rparr>"
    by (rule key_own(4)[OF inv]) (simp add: has_slot_def pc)
  note h = heapD[OF inv pc]
  show "mio_inv S n ?t" if nn: "?r \<noteq> null"
  proof -
    let ?cl = "(cells s c)\<lparr>c_reader := null, c_writer := ?w\<rparr>"
    have "?r \<in> m_heap s" using h(1) nn by auto
    then have eq: "del S ?r c s = (at_local (c_local (cells s c)) (dispatchers_update (sb_set S (c_key (cells s c))
        \<lparr>readable_dispatcher = null, writable_dispatcher = ?w\<rparr>)) s)\<lparr>m_heap := m_heap s - {?r}\<rparr>"
      using own by (simp add: del_def Let_def)
    have "heap_ok ?t"
    proof (rule heap_upd[OF mio_invD(4)[OF inv]])
      show "cells ?t = (cells s)(c := ?cl)" by (simp add: eq)
      show "ptrs ?cl \<subseteq> m_heap ?t" using h(1) h(3)[OF nn] pc by (auto simp: ptrs_def eq)
      show "ptrs (cells s e) \<subseteq> m_heap ?t \<and> ptrs ?cl \<inter> ptrs (cells s e) = {}" if "e \<noteq> c" for e
      proof -
        have "m_heap ?t = m_heap s - {?r}" "ptrs ?cl \<subseteq> {?r, ?w} - {null}" using pc by (auto simp: eq ptrs_def)
        moreover have "?r \<notin> ptrs (cells s e)" using disjointD[OF h(4)[OF that]] nn by simp
        ultimately show ?thesis using h(2)[of e] h(4)[OF that] by blast
      qed
    qed simp
    then show ?thesis by (intro live_inv[OF inv pc, where r = null and w = ?w]) (use mio_invD(1)[OF inv] in \<open>simp_all add: eq\<close>)
  qed
  show "mio_inv S n ?u" if nn: "?w \<noteq> null"
  proof -
    let ?cl = "(cells s c)\<lparr>c_reader := ?r, c_writer := null\<rparr>"
    have ne: "?r \<noteq> ?w" "?w \<in> m_heap s" using h(1,3) nn by auto
    then have eq: "del S ?w c s = (at_local (c_local (cells s c)) (dispatchers_update (sb_set S (c_key (cells s c))
        \<lparr>readable_dispatcher = ?r, writable_dispatcher = null\<rparr>)) s)\<lparr>m_heap := m_heap s - {?w}\<rparr>"
      using own by (simp add: del_def Let_def)
    have "heap_ok ?u"
    proof (rule heap_upd[OF mio_invD(4)[OF inv]])
      show "cells ?u = (cells s)(c := ?cl)" by (simp add: eq)
      show "ptrs ?cl \<subseteq> m_heap ?u" using h(1) ne pc by (auto simp: ptrs_def eq)
      show "ptrs (cells s e) \<subseteq> m_heap ?u \<and> ptrs ?cl \<inter> ptrs (cells s e) = {}" if "e \<noteq> c" for e
      proof -
        have "m_heap ?u = m_heap s - {?w}" "ptrs ?cl \<subseteq> {?r, ?w} - {null}" using pc by (auto simp: eq ptrs_def)
        moreover have "?w \<notin> ptrs (cells s e)" using disjointD[OF h(4)[OF that]] nn by simp
        ultimately show ?thesis using h(2)[of e] h(4)[OF that] by blast
      qed
    qed simp
    then show ?thesis by (intro live_inv[OF inv pc, where r = ?r and w = null]) (use mio_invD(1)[OF inv] in \<open>simp_all add: eq\<close>)
  qed
qed

lemma drop_cell_inv:
  assumes inv: "mio_inv S n s" and pc: "c_pc (cells s c) = C_defer"
  shows "mio_inv S n (drop_cell S c s)"
proof -
  let ?i = "c_local (cells s c)" and ?k = "c_key (cells s c)"
  have slot: "has_slot (cells s c)" using pc by (simp add: has_slot_def)
  note own = key_own[OF inv slot]
  have nn: "c_reader (cells s c) = null" "c_writer (cells s c) = null"
    using mio_invD(2)[OF inv, of c] pc by (simp_all add: cell_ok_def Let_def)
  define t where "t = at_cell c (c_pc_update (\<lambda>_. C_gone)) (at_local ?i (deferred_remove_update (\<lambda>ks. ks @ [?k])) s)"
  have eq: "drop_cell S c s = t" using own(4) nn by (simp add: drop_cell_def Let_def t_def)
  have cells: "cells t = (cells s)(c := (cells s c)\<lparr>c_pc := C_gone\<rparr>)" by (simp add: t_def)
  have disp: "dispatchers (locals t j) = dispatchers (locals s j)" "registered (locals t j) = registered (locals s j)"
    "l_pc (locals t j) = l_pc (locals s j)" "set (deferred_remove (locals s j)) \<subseteq> set (deferred_remove (locals t j))" for j
    by (auto simp: t_def)
  have gone: "\<not> has_slot (cells t c)" by (simp add: cells has_slot_def)
  have "cell_ok S n t d" for d
    using mio_invD(2)[OF inv, of d] own(3) nn by (cases "d = c") (auto simp: cell_ok_def Let_def cells disp has_slot_def)
  moreover have "keys_ok t" using mio_invD(3)[OF inv] gone unfolding keys_ok_def by (metis cells fun_upd_other)
  moreover have "heap_ok t" by (rule heap_quiet[OF mio_invD(4)[OF inv] cells]) (auto simp: t_def ptrs_def)
  moreover have "pending_ok S t j" if j: "j < unat n" for j
  proof -
    have hs: "has_slot (cells t d) \<Longrightarrow> d \<noteq> c \<and> cells t d = cells s d" for d using gone by (auto simp: cells)
    show ?thesis
    proof (cases "j = ?i")
      case True
      have set: "set (pending (locals t j)) = insert ?k (set (pending (locals s j)))"
        and dist: "distinct (pending (locals s j)) \<Longrightarrow> distinct (pending (locals t j))"
        using own(2) True by (auto simp: t_def pending_def)
      have "slot_at S t j ?k = Some Slot_new" using own(4) nn True by (simp add: disp Slot_new_def)
      moreover have "c_key (cells t d) \<noteq> ?k" if "has_slot (cells t d)" "c_local (cells t d) = j" for d
        using own(1)[of d] hs[OF that(1)] that True by auto
      ultimately show ?thesis using mio_invD(5)[OF inv j] dist hs unfolding pending_ok_def set disp by (metis insertE)
    next
      case False
      have "pending (locals t j) = pending (locals s j)" using False by (simp add: t_def)
      then show ?thesis using mio_invD(5)[OF inv j] hs unfolding pending_ok_def disp by metis
    qed
  qed
  moreover have "registered_ok t j" if j: "j < unat n" for j
    using mio_invD(6)[OF inv j] not_registered[OF inv j, of c] pc unfolding registered_ok_def disp cells by auto
  moreover have "events_ok t j" if j: "j < unat n" for j
    unfolding events_ok_def
  proof (intro allI impI ballI)
    fix evs e assume e: "l_pc (locals t j) = E_dispatch evs" "e \<in> set evs"
    then have ok: "event_ok s j e" using mio_invD(7)[OF inv j] unfolding events_ok_def disp by blast
    show "event_ok t j e"
    proof (cases "e_socket e = c")
      case True
      then show ?thesis using ok by (auto simp: event_ok_def Let_def t_def)
    next
      case False
      then show ?thesis using ok disp(4)[of j] by (auto simp: event_ok_def Let_def cells)
    qed
  qed
  ultimately show ?thesis using mio_invD(1)[OF inv] unfolding eq by (simp add: mio_inv_def t_def)
qed

text \<open>Steps of a loop that leave its slab as it is.\<close>

lemma loop_inv:
  assumes inv: "mio_inv S n s" and i: "i < unat n"
    and f: "dispatchers (f (locals s i)) = dispatchers (locals s i)" "registered (f (locals s i)) = registered (locals s i)"
      "set (pending (f (locals s i))) = set (pending (locals s i))" "distinct (pending (f (locals s i)))"
    and ev: "\<And>evs e. l_pc (f (locals s i)) = E_dispatch evs \<Longrightarrow> e \<in> set evs \<Longrightarrow>
      event_ok s i e \<and> deferred_remove (f (locals s i)) = deferred_remove (locals s i)"
  shows "mio_inv S n (at_local i f s)" (is "mio_inv S n ?t")
proof -
  have disp: "dispatchers (locals ?t j) = dispatchers (locals s j)" "registered (locals ?t j) = registered (locals s j)"
    "set (pending (locals ?t j)) = set (pending (locals s j))" for j using f by auto
  have "cell_ok S n ?t c" for c using mio_invD(2)[OF inv, of c] unfolding cell_ok_def disp by simp
  moreover have "keys_ok ?t" "heap_ok ?t" using mio_invD(3,4)[OF inv] by (simp_all add: keys_ok_def heap_ok_def)
  moreover have "pending_ok S ?t j" if j: "j < unat n" for j
  proof -
    have "distinct (pending (locals ?t j))" using mio_invD(5)[OF inv j] f(4) by (simp add: pending_ok_def)
    then show ?thesis using mio_invD(5)[OF inv j] unfolding pending_ok_def disp by simp
  qed
  moreover have "registered_ok ?t j" if j: "j < unat n" for j
    using mio_invD(6)[OF inv j] unfolding registered_ok_def disp by simp
  moreover have "events_ok ?t j" if j: "j < unat n" for j
  proof (cases "j = i")
    case True
    then show ?thesis using ev by (auto simp: events_ok_def event_ok_def Let_def)
  next
    case False
    then show ?thesis using mio_invD(7)[OF inv j] by (simp add: events_ok_def event_ok_def)
  qed
  ultimately show ?thesis using mio_invD(1)[OF inv] by (simp add: mio_inv_def)
qed

lemma remove_inv:
  assumes inv: "mio_inv S n s" and i: "i < unat n" and pc: "l_pc (locals s i) = E_remove b k"
  shows "\<exists>m. sb_remove S k (dispatchers (locals s i)) = Some m \<and>
    mio_inv S n (at_local i (\<lambda>l. l\<lparr>l_pc := E_pop b, dispatchers := m\<rparr>) s)"
proof -
  have pend: "pending (locals s i) = deferred_remove (locals s i) @ [k]" by (simp add: pending_def pc)
  have po: "distinct (pending (locals s i))" "slot_at S s i k = Some Slot_new"
    "\<And>c. has_slot (cells s c) \<Longrightarrow> c_local (cells s c) = i \<Longrightarrow> c_key (cells s c) \<noteq> k"
    "\<And>j. j \<in> set (deferred_remove (locals s i)) \<Longrightarrow> slot_at S s i j = Some Slot_new \<and>
      (\<forall>c. has_slot (cells s c) \<and> c_local (cells s c) = i \<longrightarrow> c_key (cells s c) \<noteq> j)"
    using mio_invD(5)[OF inv i] unfolding pending_ok_def pend by auto
  obtain m where m: "sb_remove S k (dispatchers (locals s i)) = Some m"
    "\<And>j. sb_get S j m = (if j = k then None else slot_at S s i j)"
    using get_remove[of k "dispatchers (locals s i)"] po(2) by auto
  let ?t = "at_local i (\<lambda>l. l\<lparr>l_pc := E_pop b, dispatchers := m\<rparr>) s"
  have same: "registered (locals ?t j) = registered (locals s j)" "cells ?t = cells s" for j by auto
  have "cell_ok S n ?t c" for c
    using mio_invD(2)[OF inv, of c] po(3)[of c] by (auto simp: cell_ok_def Let_def m(2))
  moreover have "keys_ok ?t" "heap_ok ?t" using mio_invD(3,4)[OF inv] by (simp_all add: keys_ok_def heap_ok_def)
  moreover have "pending_ok S ?t j" if j: "j < unat n" for j
  proof (cases "j = i")
    case True
    have "k \<notin> set (deferred_remove (locals s i))" using po(1) pend by auto
    then show ?thesis using True po(1,4) pend by (auto simp: pending_ok_def pending_def m(2))
  next
    case False
    then show ?thesis using mio_invD(5)[OF inv j] by (simp add: pending_ok_def)
  qed
  moreover have "registered_ok ?t j" if j: "j < unat n" for j
    using mio_invD(6)[OF inv j] unfolding registered_ok_def same by simp
  moreover have "events_ok ?t j" if j: "j < unat n" for j
    using mio_invD(7)[OF inv j] by (cases "j = i") (simp_all add: events_ok_def event_ok_def)
  moreover have "m_fault ?t = None" using mio_invD(1)[OF inv] by simp
  ultimately have "mio_inv S n ?t" unfolding mio_inv_def by blast
  then show ?thesis using m(1) by blast
qed

lemma pop_deferred: "deferred_remove l = ks @ [k] \<Longrightarrow> deferred_remove_update butlast l = l\<lparr>deferred_remove := ks\<rparr>"
  by (cases l) simp

text \<open>The dispatch finds every slot and notifies dispatchers of the sockets only.\<close>

lemma event_slot:
  assumes inv: "mio_inv S n s" and i: "i < unat n" and ev: "event_ok s i e"
  shows "slot_at S s i (e_token e) =
    Some \<lparr>readable_dispatcher = c_reader (cells s (e_socket e)), writable_dispatcher = c_writer (cells s (e_socket e))\<rparr>"
proof (cases "has_slot (cells s (e_socket e))")
  case True
  then show ?thesis using key_own(4)[OF inv True] ev by (simp add: event_ok_def Let_def)
next
  case False
  then have gone: "c_pc (cells s (e_socket e)) = C_gone" "e_token e \<in> set (pending (locals s i))"
    using ev by (auto simp: event_ok_def Let_def has_slot_def pending_def)
  then show ?thesis using mio_invD(5)[OF inv i] mio_invD(2)[OF inv, of "e_socket e"]
    by (simp add: pending_ok_def cell_ok_def Let_def Slot_new_def)
qed

lemma event_ptrs:
  assumes inv: "mio_inv S n s" and ev: "event_ok s i e" and d: "d \<in> {c_reader (cells s (e_socket e)), c_writer (cells s (e_socket e))}" "d \<noteq> null"
  shows "d \<in> m_heap s"
proof -
  have live: "c_pc (cells s (e_socket e)) = C_live"
    using mio_invD(2)[OF inv, of "e_socket e"] ev d by (auto simp: cell_ok_def event_ok_def Let_def)
  show ?thesis by (rule subsetD[OF heapD(1)[OF inv live]]) (use d in simp)
qed

lemma dispatch_ok:
  assumes inv: "mio_inv S n s" and i: "i < unat n" and "\<forall>e\<in>set evs. event_ok s i e"
  shows "\<exists>ns. dispatch_events S (dispatchers (locals s i)) k evs = Inr ns \<and> notified_ok (m_heap s) ns \<and>
    filter (\<lambda>x. x \<noteq> Push_batch) ns = concat (map (event_notices s) evs)"
  using assms(3)
proof (induction evs arbitrary: k)
  case Nil
  then show ?case by (simp add: notified_ok_def)
next
  case (Cons e evs)
  let ?cl = "cells s (e_socket e)"
  have ev: "event_ok s i e" using Cons.prems by simp
  note slot = event_slot[OF inv i ev] and live = event_ptrs[OF inv ev]
  obtain ns where ns: "dispatch_events S (dispatchers (locals s i)) (Suc k) evs = Inr ns" "notified_ok (m_heap s) ns"
    "filter (\<lambda>x. x \<noteq> Push_batch) ns = concat (map (event_notices s) evs)" using Cons by auto
  have "notified_ok (m_heap s) (event_notices s e)" using live by (simp add: notified_ok_def event_notices_def Let_def)
  moreover have "filter (\<lambda>x. x \<noteq> Push_batch) (event_notices s e) = event_notices s e" by (simp add: event_notices_def Let_def)
  moreover have "dispatch_events S (dispatchers (locals s i)) k (e # evs) =
      Inr ((if (k + 1) mod 128 = 0 then [Push_batch] else []) @ event_notices s e @ ns)"
    using ns(1) slot by (simp add: Let_def event_notices_def[of s e])
  ultimately show ?case using ns by (simp add: notified_ok_def)
qed

lemma loop_step_inv:
  assumes inv: "mio_inv S n s" and i: "i < unat n" and poll: "poll_events may" and step: "loop_step S may i evs s = Some t"
  shows "mio_inv S n t"
proof -
  have dist: "distinct (pending (locals s i))" using mio_invD(5)[OF inv i] by (simp add: pending_ok_def)
  show ?thesis
  proof (cases "l_pc (locals s i)")
    case E_check
    then have "t = at_local i (l_pc_update (\<lambda>_. if m_shutdown s then E_pop True else E_poll)) s"
      using step by (simp add: loop_step_def Let_def)
    then show ?thesis using dist E_check by (cases "m_shutdown s") (auto intro!: loop_inv[OF inv i] simp: pending_def)
  next
    case E_poll
    then have may: "may POLL_TIMEOUT (registered (locals s i)) evs" and t: "t = at_local i (l_pc_update (\<lambda>_. E_dispatch evs)) s"
      using step by (auto simp: loop_step_def Let_def split: if_splits)
    have "event_ok s i e" if "e \<in> set evs" for e
      using poll_events.may_registered[OF poll may that] registered_live[OF inv i] by (auto simp: event_ok_def Let_def)
    then show ?thesis using dist unfolding t by (intro loop_inv[OF inv i]) (auto simp: pending_def E_poll)
  next
    case (E_dispatch es)
    then have "\<forall>e\<in>set es. event_ok s i e" using mio_invD(7)[OF inv i] by (simp add: events_ok_def)
    from dispatch_ok[OF inv i this, of 0] obtain ns where
      "t = at_local i (\<lambda>l. l\<lparr>l_pc := E_flush, l_notices := l_notices l @ ns\<rparr>) s"
      using step by (auto simp: loop_step_def E_dispatch Let_def)
    then show ?thesis using dist by (auto intro!: loop_inv[OF inv i] simp: pending_def E_dispatch)
  next
    case E_flush
    then show ?thesis using step dist
      by (auto intro!: loop_inv[OF inv i] simp: pending_def loop_step_def Let_def)
  next
    case (E_pop b)
    show ?thesis
    proof (cases "deferred_remove (locals s i)" rule: rev_cases)
      case Nil
      then have "t = at_local i (l_pc_update (\<lambda>_. if b then E_done else E_check)) s"
        using step E_pop by (simp add: loop_step_def Let_def)
      then show ?thesis using dist E_pop Nil by (cases b) (auto intro!: loop_inv[OF inv i] simp: pending_def)
    next
      case (snoc ks k)
      then have t: "t = at_local i (\<lambda>l. l\<lparr>deferred_remove := ks, l_pc := E_remove b k\<rparr>) s"
        using step E_pop pop_deferred[OF snoc] by (auto simp: loop_step_def Let_def at_local_def)
      show ?thesis using dist snoc E_pop unfolding t by (intro loop_inv[OF inv i]) (auto simp: pending_def)
    qed
  next
    case (E_remove b k)
    from remove_inv[OF inv i E_remove] show ?thesis using step E_remove by (auto simp: loop_step_def Let_def)
  next
    case E_done
    then show ?thesis using step by (simp add: loop_step_def)
  qed
qed

lemma cell_step_inv:
  assumes inv: "mio_inv S n s" and n: "n \<noteq> 0" and step: "cell_step S n c l s = Some t"
  shows "mio_inv S n t"
proof (cases "c_pc (cells s c)")
  case C_none
  then show ?thesis using step n new_inv[OF inv C_none n]
    by (auto simp: cell_step_def Let_def pick_local_def mod_checked_def split: if_splits)
next
  case C_insert
  then show ?thesis using step insert_inv[OF inv C_insert] by (auto simp: cell_step_def Let_def split: if_splits prod.splits)
next
  case C_register
  then show ?thesis using step register_inv[OF inv C_register] by (auto simp: cell_step_def Let_def split: if_splits)
next
  case C_live
  then show ?thesis using step attach_inv[OF inv C_live] del_inv[OF inv C_live] deregister_inv[OF inv C_live]
    by (cases l) (auto simp: cell_step_def Let_def split: if_splits)
next
  case C_defer
  then show ?thesis using step drop_cell_inv[OF inv C_defer] by (auto simp: cell_step_def Let_def split: if_splits)
qed (use step in \<open>simp_all add: cell_step_def\<close>)

lemma shutdown_inv: "mio_inv S n (s\<lparr>m_shutdown := b\<rparr>) = mio_inv S n s"
  by (simp add: mio_inv_def cell_ok_def keys_ok_def heap_ok_def pending_ok_def registered_ok_def events_ok_def event_ok_def)

lemma mio_act_inv:
  assumes "mio_inv S n s" "n \<noteq> 0" "poll_events may" "mio_act S may n a s = Some t"
  shows "mio_inv S n t"
proof (cases a)
  case Set_shutdown
  then show ?thesis using assms(1,4) by (auto simp: shutdown_inv)
next
  case (Socket c l)
  then have "cell_step S n c l s = Some t" using assms(4) by (simp split: if_splits)
  then show ?thesis by (rule cell_step_inv[OF assms(1,2)])
next
  case (Loop i evs)
  then have "i < unat n" "loop_step S may i evs s = Some t" using assms(4) by (auto split: if_splits)
  then show ?thesis by (rule loop_step_inv[OF assms(1) _ assms(3)])
qed

lemma mio_init_inv: "mio_init S n s \<Longrightarrow> mio_inv S n s"
  by (auto simp: mio_init_def mio_inv_def cell_ok_def keys_ok_def heap_ok_def pending_ok_def registered_ok_def
      events_ok_def has_slot_def ptrs_def pending_def Let_def)

lemma mio_reach_inv:
  assumes "n \<noteq> 0" "poll_events may" "mio_reach S may n s"
  shows "mio_inv S n s"
  using assms(3) by (induction rule: reach.induct) (auto simp: enabled_def intro: mio_init_inv mio_act_inv[OF _ assms(1,2)])

end

section \<open>Properties\<close>

text \<open>
  C15: the event loops are safe.  With at least one loop, whatever sockets are created, used and dropped
  by other threads meanwhile: the unchecked slab accesses find an occupied slot, the assertions of
  \<open>new_from_waker\<close> and \<open>MIOCell::drop\<close> hold, \<open>del\<close> never reaches \<open>unreachable!()\<close>, a key to be removed
  is occupied, and no freed dispatcher is notified or freed again.
\<close>

theorem event_loop_safe:
  assumes "slab_ops S" and "poll_events may" and "n \<noteq> 0" and "mio_reach S may n s"
  shows "m_fault s = None"
  using mio_invD(1)[OF slab_ops.mio_reach_inv[OF assms(1,3,2,4)]] .

text \<open>
  C28: events reach their socket.  When a loop has polled some events, then at any later time before it
  handles them the handling notifies exactly the dispatchers the sockets of these events have by then,
  in the order of the events, even if a socket was dropped after the poll: its key is not given to
  another socket before the events are handled.
\<close>

theorem events_reach_sockets:
  assumes "slab_ops S" and "poll_events may" and "n \<noteq> 0" and "mio_reach S may n s"
    and "i < unat n" and "l_pc (locals s i) = E_dispatch evs"
  shows "\<exists>ns. dispatch_events S (dispatchers (locals s i)) 0 evs = Inr ns \<and>
    filter (\<lambda>x. x \<noteq> Push_batch) ns = concat (map (event_notices s) evs)"
proof -
  have inv: "mio_inv S n s" by (rule slab_ops.mio_reach_inv[OF assms(1,3,2,4)])
  have "\<forall>e\<in>set evs. event_ok s i e" using mio_invD(7)[OF inv assms(5)] assms(6) by (simp add: events_ok_def)
  from slab_ops.dispatch_ok[OF assms(1) inv assms(5) this] show ?thesis by blast
qed

section \<open>The interfaces can be met\<close>

text \<open>A slab as a vector of entries that uses the first vacant one.\<close>

fun first_vacant :: "'a option list \<Rightarrow> nat" where
  "first_vacant [] = 0"
| "first_vacant (None # xs) = 0"
| "first_vacant (Some x # xs) = Suc (first_vacant xs)"

definition vec_get :: "nat \<Rightarrow> Slot option list \<Rightarrow> Slot option" where
  "vec_get k m = (if k < length m then m ! k else None)"

definition vec_slab :: "Slot option list slab" where
  "vec_slab = \<lparr>sb_get = vec_get,
     sb_insert = (\<lambda>v m. let k = first_vacant m in (k, if k < length m then m[k := Some v] else m @ [Some v])),
     sb_set = (\<lambda>k v m. m[k := Some v]),
     sb_remove = (\<lambda>k m. if vec_get k m = None then None else Some (m[k := None]))\<rparr>"

lemma first_vacant: "first_vacant m \<le> length m \<and> (first_vacant m < length m \<longrightarrow> m ! first_vacant m = None)"
  by (induction m rule: first_vacant.induct) auto

interpretation vec: slab_ops vec_slab
proof
  fix v m k m' j assume "sb_insert vec_slab v m = (k, m')"
  then show "sb_get vec_slab k m = None \<and> sb_get vec_slab j m' = (if j = k then Some v else sb_get vec_slab j m)"
    using first_vacant[of m] by (auto simp: vec_slab_def vec_get_def Let_def nth_append split: if_splits)
qed (auto simp: vec_slab_def vec_get_def split: if_splits)

text \<open>A poll that returns at most 1024 events of registered sockets, and none only when it has a timeout.\<close>

definition any_poll :: os_poll where
  "any_poll timeout r evs = (length evs \<le> 1024 \<and> list_all (\<lambda>e. r (e_socket e) = Some (e_token e)) evs \<and>
     (evs = [] \<longrightarrow> timeout \<noteq> None))"

interpretation any: poll_events any_poll
  by unfold_locales (auto simp: any_poll_def list_all_iff)

text \<open>One loop, one socket with a reader; an event is polled, and the socket is dropped before it is handled.\<close>

definition one_loop :: "Slot option list mio" where
  "one_loop = \<lparr>locals = (\<lambda>_. \<lparr>dispatchers = [], deferred_remove = [], registered = Map.empty, l_pc = E_check, l_notices = []\<rparr>),
     counter = 0, cells = (\<lambda>_. \<lparr>c_pc = C_none, c_local = 0, c_key = 0, c_reader = null, c_writer = null\<rparr>),
     m_heap = {}, m_shutdown = False, m_fault = None\<rparr>"

definition one_event :: io_event where
  "one_event = \<lparr>e_token = 0, e_readable = True, e_writable = False, e_socket = 0\<rparr>"

definition one_schedule :: "mlabel list" where
  "one_schedule = [Socket 0 New, Socket 0 Insert, Socket 0 (Register True), Socket 0 (Attach True 5), Loop 0 [], Loop 0 [one_event]]"

lemma one_init: "mio_init vec_slab 1 one_loop"
  by (simp add: mio_init_def one_loop_def vec_slab_def vec_get_def)

lemmas mio_replay = one_loop_def one_event_def cell_step_def pick_local_def mod_checked_def at_cell_def at_local_def Let_def
  vec_slab_def vec_get_def attach_def loop_step_def any_poll_def POLL_TIMEOUT_def Slot_new_def

lemma one_run:
  "\<exists>s. run (mio_act vec_slab any_poll 1) one_schedule one_loop = Some s \<and> l_pc (locals s 0) = E_dispatch [one_event] \<and>
     c_reader (cells s 0) = 5"
  by (simp add: one_schedule_def mio_replay)

lemma one_reach:
  "\<exists>s. mio_reach vec_slab any_poll 1 s \<and> l_pc (locals s 0) = E_dispatch [one_event] \<and> c_reader (cells s 0) = 5"
  using one_run reach_run[of "mio_init vec_slab 1", OF one_init] by blast

theorem event_loop_safe_witness:
  "\<exists>s. mio_reach vec_slab any_poll 1 s \<and> l_pc (locals s 0) = E_dispatch [one_event] \<and> m_fault s = None"
proof -
  obtain s where s: "mio_reach vec_slab any_poll 1 s" "l_pc (locals s 0) = E_dispatch [one_event]" using one_reach by blast
  have "m_fault s = None" by (rule event_loop_safe[OF vec.slab_ops_axioms any.poll_events_axioms _ s(1)]) simp
  with s show ?thesis by blast
qed

theorem events_reach_sockets_witness:
  "\<exists>s ns. mio_reach vec_slab any_poll 1 s \<and> l_pc (locals s 0) = E_dispatch [one_event] \<and>
     dispatch_events vec_slab (dispatchers (locals s 0)) 0 [one_event] = Inr ns \<and> filter (\<lambda>x. x \<noteq> Push_batch) ns = [Notify 5]"
proof -
  obtain s where s: "mio_reach vec_slab any_poll 1 s" "l_pc (locals s 0) = E_dispatch [one_event]" "c_reader (cells s 0) = 5"
    using one_reach by blast
  have "concat (map (event_notices s) [one_event]) = [Notify 5]" using s(3) by (simp add: event_notices_def one_event_def)
  then show ?thesis
    using events_reach_sockets[OF vec.slab_ops_axioms any.poll_events_axioms _ s(1) _ s(2)] s by auto
qed

end
