(* ===== verification/Loop_Startup.thy ===== *)
theory Loop_Startup
  imports Event_Loop Parking Rendezvous Memory
begin

text \<open>
  The start of the event loops (\<open>GlobalData::build\<close> in \<open>yaay-mio/src/shared.rs\<close>) under concurrency.  The
  calling thread creates \<open>n\<close> threads; each builds its \<open>LocalData\<close>, enters the pointer into a locked
  array and waits at a condition variable until the array is full; so does the calling thread, which
  then publishes the array.  One step is one locked section, one call of the condition variable or one
  access of memory.  What it ends with is a start state of theory \<open>Event_Loop\<close>.

  An empty slab is a parameter \<open>m0\<close> (\<open>Slab::new\<close>); \<open>p\<close> is the address an allocation returns.
\<close>

section \<open>Definitions\<close>

definition LocalData_build :: "'s \<Rightarrow> 's LocalData" where
  "LocalData_build m0 = \<lparr>dispatchers = m0, deferred_remove = [], registered = Map.empty, l_pc = E_check, l_notices = []\<rparr>"

datatype tpc =
    T_unborn
  | T_build          \<comment> \<open>shared.rs 82-83\<close>
  | T_put            \<comment> \<open>shared.rs 84-86\<close>
  | T_wait           \<comment> \<open>shared.rs 87\<close>
  | T_notify         \<comment> \<open>shared.rs 90\<close>
  | T_run            \<comment> \<open>shared.rs 94\<close>

datatype gpc =
    G_spawn nat      \<comment> \<open>shared.rs 75-133\<close>
  | G_check          \<comment> \<open>shared.rs 135-136\<close>
  | G_wait           \<comment> \<open>shared.rs 136\<close>
  | G_publish        \<comment> \<open>shared.rs 139-148\<close>
  | G_ready

record GlobalData =
  g_locals :: "addr list"
  g_counter :: usize

record ('s, 'l) lstart =
  ls_heap :: "'s LocalData heap"
  ls_ptrs :: "addr list"
  ls_cond :: 'l
  ls_at :: "nat \<Rightarrow> tpc"
  ls_local :: "nat \<Rightarrow> addr"
  ls_main :: gpc
  ls_global :: "GlobalData option"

definition t_go :: "nat \<Rightarrow> tpc \<Rightarrow> ('s, 'l) lstart \<Rightarrow> ('s, 'l) lstart" where
  "t_go w pc s = s\<lparr>ls_at := (ls_at s)(w := pc)\<rparr>"

definition ptrs_set :: "addr list \<Rightarrow> bool" where
  "ptrs_set xs = list_all (\<lambda>x. x \<noteq> null) xs"

text \<open>The loop around \<open>cond.wait\<close>, entered with the lock held.\<close>

definition t_check :: "'l parking_lot \<Rightarrow> nat \<Rightarrow> ('s, 'l) lstart \<Rightarrow> ('s, 'l) lstart" where
  "t_check P w s =
     (if ptrs_set (ls_ptrs s) then t_go w T_notify s
      else t_go w T_wait (s\<lparr>ls_cond := pl_park P w (ls_cond s)\<rparr>))"

definition thread_step :: "'l parking_lot \<Rightarrow> 's \<Rightarrow> nat \<Rightarrow> addr \<Rightarrow> ('s, 'l) lstart \<Rightarrow> ('s, 'l) lstart option" where
  "thread_step P m0 w p s =
    (case ls_at s w of
       T_unborn \<Rightarrow> None
     | T_build \<Rightarrow>
         Some (t_go w T_put (s\<lparr>ls_heap := (ls_heap s)(p \<mapsto> Init (LocalData_build m0)), ls_local := (ls_local s)(w := p)\<rparr>))
     | T_put \<Rightarrow> Some (t_check P w (s\<lparr>ls_ptrs := (ls_ptrs s)[w := ls_local s w]\<rparr>))
     | T_wait \<Rightarrow> (if w \<in> pl_parked P (ls_cond s) then None else Some (t_check P w s))
     | T_notify \<Rightarrow> Some (t_go w T_run (s\<lparr>ls_cond := pl_unpark_all P (ls_cond s)\<rparr>))
     | T_run \<Rightarrow> None)"

definition g_check :: "'l parking_lot \<Rightarrow> usize \<Rightarrow> ('s, 'l) lstart \<Rightarrow> ('s, 'l) lstart" where
  "g_check P n s =
     (if ptrs_set (ls_ptrs s) then s\<lparr>ls_main := G_publish\<rparr>
      else s\<lparr>ls_main := G_wait, ls_cond := pl_park P (unat n) (ls_cond s)\<rparr>)"

definition global_step :: "'l parking_lot \<Rightarrow> usize \<Rightarrow> ('s, 'l) lstart \<Rightarrow> ('s, 'l) lstart option" where
  "global_step P n s =
    (case ls_main s of
       G_spawn k \<Rightarrow> Some (if k < unat n then t_go k T_build (s\<lparr>ls_main := G_spawn (Suc k)\<rparr>) else s\<lparr>ls_main := G_check\<rparr>)
     | G_check \<Rightarrow> Some (g_check P n s)
     | G_wait \<Rightarrow> (if unat n \<in> pl_parked P (ls_cond s) then None else Some (g_check P n s))
     | G_publish \<Rightarrow> Some (s\<lparr>ls_global := Some \<lparr>g_locals = ls_ptrs s, g_counter = 0\<rparr>, ls_main := G_ready\<rparr>)
     | G_ready \<Rightarrow> None)"

text \<open>A step of thread \<open>w\<close>, whose allocation gets an unused address, or of the calling thread.\<close>

definition loops_step :: "'l parking_lot \<Rightarrow> 's \<Rightarrow> usize \<Rightarrow> ('s, 'l) lstart \<Rightarrow> ('s, 'l) lstart \<Rightarrow> bool" where
  "loops_step P m0 n s t \<longleftrightarrow>
     (\<exists>w p. w < unat n \<and> p \<noteq> null \<and> alloc_ok p (ls_heap s) \<and> thread_step P m0 w p s = Some t) \<or> global_step P n s = Some t"

definition loops_new :: "'l \<Rightarrow> usize \<Rightarrow> 's LocalData heap \<Rightarrow> ('s, 'l) lstart" where
  "loops_new l n h = \<lparr>ls_heap = h, ls_ptrs = replicate (unat n) null, ls_cond = l, ls_at = (\<lambda>_. T_unborn),
     ls_local = (\<lambda>_. null), ls_main = G_spawn 0, ls_global = None\<rparr>"

definition loops_init :: "'l parking_lot \<Rightarrow> usize \<Rightarrow> ('s, 'l) lstart \<Rightarrow> bool" where
  "loops_init P n s \<longleftrightarrow> (\<exists>l h. s = loops_new l n h \<and> finite (dom h) \<and> pl_parked P l = {})"

text \<open>The state of theory \<open>Event_Loop\<close> that the published data stand for.\<close>

definition local_at :: "'s LocalData heap \<Rightarrow> addr \<Rightarrow> 's LocalData" where
  "local_at h a = (case h a of Some (Init l) \<Rightarrow> l)"

definition built_mio :: "GlobalData \<Rightarrow> 's LocalData heap \<Rightarrow> 's mio" where
  "built_mio g h = \<lparr>locals = (\<lambda>i. local_at h (g_locals g ! i)), counter = g_counter g,
     cells = (\<lambda>_. \<lparr>c_pc = C_none, c_local = 0, c_key = 0, c_reader = null, c_writer = null\<rparr>),
     m_heap = {}, m_shutdown = False, m_fault = None\<rparr>"

section \<open>The invariant\<close>

fun t_rank :: "tpc \<Rightarrow> nat" where
  "t_rank T_unborn = 0"
| "t_rank T_build = 1"
| "t_rank T_put = 2"
| "t_rank T_wait = 3"
| "t_rank T_notify = 4"
| "t_rank T_run = 5"

interpretation t: rendezvous t_rank .

abbreviation all_put :: "usize \<Rightarrow> ('s, 'l) lstart \<Rightarrow> bool" where
  "all_put n s \<equiv> t.arrived (unat n) 3 (ls_at s)"

definition thread_ok :: "'s \<Rightarrow> ('s, 'l) lstart \<Rightarrow> nat \<Rightarrow> bool" where
  "thread_ok m0 s w \<longleftrightarrow>
     ls_ptrs s ! w = (if 3 \<le> t_rank (ls_at s w) then ls_local s w else null) \<and>
     (2 \<le> t_rank (ls_at s w) \<longrightarrow> ls_local s w \<noteq> null \<and> ls_heap s (ls_local s w) = Some (Init (LocalData_build m0)))"

definition threads_ok :: "'s \<Rightarrow> usize \<Rightarrow> ('s, 'l) lstart \<Rightarrow> bool" where
  "threads_ok m0 n s \<longleftrightarrow> length (ls_ptrs s) = unat n \<and> finite (dom (ls_heap s)) \<and> (\<forall>w<unat n. thread_ok m0 s w) \<and>
     (\<forall>w<unat n. \<forall>v<unat n. w \<noteq> v \<and> 2 \<le> t_rank (ls_at s w) \<and> 2 \<le> t_rank (ls_at s v) \<longrightarrow> ls_local s w \<noteq> ls_local s v)"

definition global_ok :: "usize \<Rightarrow> ('s, 'l) lstart \<Rightarrow> nat set \<Rightarrow> bool" where
  "global_ok n s W \<longleftrightarrow> W \<subseteq> {..unat n} \<and> (unat n \<in> W \<longrightarrow> ls_main s = G_wait) \<and>
     (ls_main s = G_wait \<and> unat n \<notin> W \<longrightarrow> all_put n s) \<and>
     (case ls_main s of
        G_spawn k \<Rightarrow> k \<le> unat n \<and> (\<forall>v<unat n. ls_at s v = T_unborn \<longleftrightarrow> k \<le> v)
      | G_publish \<Rightarrow> all_put n s
      | G_ready \<Rightarrow> all_put n s \<and> ls_global s = Some \<lparr>g_locals = ls_ptrs s, g_counter = 0\<rparr>
      | _ \<Rightarrow> t.arrived (unat n) 1 (ls_at s))"

definition loops_inv :: "'l parking_lot \<Rightarrow> 's \<Rightarrow> usize \<Rightarrow> ('s, 'l) lstart \<Rightarrow> bool" where
  "loops_inv P m0 n s \<longleftrightarrow> threads_ok m0 n s \<and> global_ok n s (pl_parked P (ls_cond s)) \<and>
     t.meeting (unat n) 3 T_wait T_notify (pl_parked P (ls_cond s)) (ls_at s)"

fun g_rank :: "usize \<Rightarrow> gpc \<Rightarrow> nat" where
  "g_rank n (G_spawn k) = unat n - k + 4"
| "g_rank n G_check = 3"
| "g_rank n G_wait = 2"
| "g_rank n G_publish = 1"
| "g_rank n G_ready = 0"

definition loops_measure :: "usize \<Rightarrow> ('s, 'l) lstart \<Rightarrow> nat" where
  "loops_measure n s = (\<Sum>v<unat n. 5 - t_rank (ls_at s v)) + g_rank n (ls_main s)"

lemma t_unborn: "ls_at s v = T_unborn \<longleftrightarrow> \<not> 1 \<le> t_rank (ls_at s v)"
  by (cases "ls_at s v") auto

lemma threadsD:
  assumes "threads_ok m0 n s"
  shows "length (ls_ptrs s) = unat n" "finite (dom (ls_heap s))" "w < unat n \<Longrightarrow> thread_ok m0 s w"
    "w < unat n \<Longrightarrow> v < unat n \<Longrightarrow> w \<noteq> v \<Longrightarrow> 2 \<le> t_rank (ls_at s w) \<Longrightarrow> 2 \<le> t_rank (ls_at s v) \<Longrightarrow> ls_local s w \<noteq> ls_local s v"
  using assms by (simp_all add: threads_ok_def)

lemma slot_set: "thread_ok m0 s w \<Longrightarrow> null < ls_ptrs s ! w \<longleftrightarrow> 3 \<le> t_rank (ls_at s w)"
  by (auto simp: thread_ok_def)

lemma ptrs_set_iff: "threads_ok m0 n s \<Longrightarrow> ptrs_set (ls_ptrs s) \<longleftrightarrow> all_put n s"
  by (simp add: threads_ok_def ptrs_set_def list_all_length t.arrived_def slot_set[of m0])

text \<open>What a step of thread \<open>w\<close> to \<open>pc\<close> keeps.\<close>

lemma threads_upd:
  assumes ok: "threads_ok m0 n s" and w: "w < unat n" and at: "ls_at t = (ls_at s)(w := pc)"
    and len: "length (ls_ptrs t) = length (ls_ptrs s)" "finite (dom (ls_heap t))" and mine: "thread_ok m0 t w"
    and frame: "\<And>v. v < unat n \<Longrightarrow> v \<noteq> w \<Longrightarrow> ls_ptrs t ! v = ls_ptrs s ! v \<and> ls_local t v = ls_local s v \<and>
      (2 \<le> t_rank (ls_at s v) \<longrightarrow> ls_heap t (ls_local s v) = ls_heap s (ls_local s v))"
    and own: "\<And>v. v < unat n \<Longrightarrow> v \<noteq> w \<Longrightarrow> 2 \<le> t_rank (ls_at s v) \<Longrightarrow> 2 \<le> t_rank pc \<Longrightarrow> ls_local t w \<noteq> ls_local s v"
  shows "threads_ok m0 n t"
proof -
  have "thread_ok m0 t v" if v: "v < unat n" for v
  proof (cases "v = w")
    case False
    then show ?thesis using frame[OF v False] threadsD(3)[OF ok v] by (auto simp: thread_ok_def at)
  qed (use mine in simp)
  moreover have "ls_local t u \<noteq> ls_local t v" if uv: "u < unat n" "v < unat n" "u \<noteq> v" "2 \<le> t_rank (ls_at t u)" "2 \<le> t_rank (ls_at t v)" for u v
  proof (cases "u = w \<or> v = w")
    case True
    then show ?thesis using uv own[of v] own[of u] frame[of v] frame[of u] by (auto simp: at)
  next
    case False
    then show ?thesis using uv threadsD(4)[OF ok uv(1-3)] frame[of v] frame[of u] by (simp add: at)
  qed
  ultimately show ?thesis using len threadsD(1)[OF ok] by (simp add: threads_ok_def)
qed

lemma global_upd:
  assumes g: "global_ok n s W" and w: "w < unat n" and at: "ls_at t = (ls_at s)(w := pc)"
    and r: "1 \<le> t_rank (ls_at s w)" "t_rank (ls_at s w) \<le> t_rank pc"
    and same: "ls_main t = ls_main s" "ls_global t = ls_global s" "ls_ptrs t = ls_ptrs s \<or> \<not> all_put n s"
    and W: "V \<subseteq> {..unat n}" "unat n \<in> V \<longrightarrow> unat n \<in> W" "unat n \<in> W \<longrightarrow> unat n \<in> V \<or> all_put n t"
  shows "global_ok n t V"
proof -
  have up: "t.arrived (unat n) k (ls_at s) \<Longrightarrow> t.arrived (unat n) k (ls_at t)" for k
    using t.arrived_mono[OF w, of "ls_at s" pc] r(2) by (simp add: at)
  have born: "ls_at t v = T_unborn \<longleftrightarrow> ls_at s v = T_unborn" for v using r by (auto simp: at t_unborn)
  show ?thesis using g same W up by (cases "ls_main s") (auto simp: global_ok_def born)
qed

lemma t_sum_upd:
  "w < unat n \<Longrightarrow> (\<Sum>v<unat n. 5 - t_rank ((at(w := pc)) v)) + (5 - t_rank (at w)) = (\<Sum>v<unat n. 5 - t_rank (at v)) + (5 - t_rank pc)"
  by (rule sum_upd)

lemma t_rank_le: "t_rank pc \<le> 5"
  by (cases pc) auto

lemma measure_upd:
  assumes "w < unat n" "ls_at t = (ls_at s)(w := pc)" "t_rank (ls_at s w) < t_rank pc" "g_rank n (ls_main t) \<le> g_rank n (ls_main s)"
  shows "loops_measure n t < loops_measure n s"
  using t_sum_upd[OF assms(1), of "ls_at s" pc] t_rank_le[of pc] assms(2-) by (simp add: loops_measure_def)

context parking_lot_ops
begin

definition t_forward :: "'s \<Rightarrow> usize \<Rightarrow> ('s, 'l) lstart \<Rightarrow> ('s, 'l) lstart \<Rightarrow> bool" where
  "t_forward m0 n s t \<longleftrightarrow> loops_inv P m0 n t \<and> loops_measure n t < loops_measure n s"

lemma loops_invD:
  assumes "loops_inv P m0 n s"
  shows "threads_ok m0 n s" "global_ok n s (pl_parked P (ls_cond s))"
    "t.meeting (unat n) 3 T_wait T_notify (pl_parked P (ls_cond s)) (ls_at s)" "pl_parked P (ls_cond s) \<subseteq> {..unat n}"
  using assms by (simp_all add: loops_inv_def global_ok_def)

lemma build_forward:
  assumes inv: "loops_inv P m0 n s" and w: "w < unat n" and at: "ls_at s w = T_build" and p: "p \<noteq> null" "alloc_ok p (ls_heap s)"
  shows "t_forward m0 n s (t_go w T_put (s\<lparr>ls_heap := (ls_heap s)(p \<mapsto> Init (LocalData_build m0)), ls_local := (ls_local s)(w := p)\<rparr>))"
    (is "t_forward m0 n s ?t")
proof -
  note ok = loops_invD(1)[OF inv]
  have free: "ls_heap s p = None" using p by (auto simp: alloc_ok_def)
  have used: "p \<noteq> ls_local s v" if "v < unat n" "2 \<le> t_rank (ls_at s v)" for v
    using threadsD(3)[OF ok that(1)] that(2) free by (auto simp: thread_ok_def)
  have t: "ls_at ?t = (ls_at s)(w := T_put)" by (simp add: t_go_def)
  have "threads_ok m0 n ?t"
  proof (rule threads_upd[OF ok w t])
    show "thread_ok m0 ?t w" using threadsD(3)[OF ok w] p(1) at by (simp add: thread_ok_def t_go_def)
    show "ls_ptrs ?t ! v = ls_ptrs s ! v \<and> ls_local ?t v = ls_local s v \<and>
        (2 \<le> t_rank (ls_at s v) \<longrightarrow> ls_heap ?t (ls_local s v) = ls_heap s (ls_local s v))" if "v < unat n" "v \<noteq> w" for v
      using used[OF that(1)] that(2) by (auto simp: t_go_def)
    show "ls_local ?t w \<noteq> ls_local s v" if "v < unat n" "2 \<le> t_rank (ls_at s v)" for v
      using used[OF that] by (simp add: t_go_def)
  qed (use threadsD(2)[OF ok] in \<open>simp_all add: t_go_def\<close>)
  moreover have "global_ok n ?t (pl_parked P (ls_cond s))"
    by (rule global_upd[OF loops_invD(2)[OF inv] w t]) (use at loops_invD(4)[OF inv] in \<open>simp_all add: t_go_def\<close>)
  moreover have "w \<notin> pl_parked P (ls_cond s)" using t.meetingD(1)[OF loops_invD(3)[OF inv] _ w] at by auto
  then have "t.meeting (unat n) 3 T_wait T_notify (pl_parked P (ls_cond s)) ((ls_at s)(w := T_put))"
    using at by (intro t.meeting_other[OF loops_invD(3)[OF inv] w]) simp_all
  moreover have "loops_measure n ?t < loops_measure n s" by (rule measure_upd[OF w t]) (simp_all add: at t_go_def)
  ultimately show ?thesis by (simp add: t_forward_def loops_inv_def t) (simp add: t_go_def)
qed

lemma put_forward:
  assumes inv: "loops_inv P m0 n s" and w: "w < unat n" and at: "ls_at s w = T_put"
  shows "t_forward m0 n s (t_check P w (s\<lparr>ls_ptrs := (ls_ptrs s)[w := ls_local s w]\<rparr>))"
proof -
  note ok = loops_invD(1)[OF inv] and meet = loops_invD(3)[OF inv]
  define u where "u pc c = t_go w pc (s\<lparr>ls_ptrs := (ls_ptrs s)[w := ls_local s w], ls_cond := c\<rparr>)" for pc c
  have t: "ls_at (u pc c) = (ls_at s)(w := pc)" "ls_cond (u pc c) = c" for pc c by (simp_all add: t_go_def u_def)
  have no: "\<not> all_put n s" using w at by (auto simp: t.arrived_def dest!: spec[of _ w])
  have threads: "threads_ok m0 n (u pc c)" if "3 \<le> t_rank pc" for pc c
  proof (rule threads_upd[OF ok w t(1)])
    show "thread_ok m0 (u pc c) w" using threadsD(1,3)[OF ok] w that at by (simp add: thread_ok_def t_go_def u_def)
    show "ls_local (u pc c) w \<noteq> ls_local s v" if "v < unat n" "v \<noteq> w" "2 \<le> t_rank (ls_at s v)" for v
      using threadsD(4)[OF ok w that(1)] that(2,3) at by (auto simp: t_go_def u_def)
  qed (use threadsD(2)[OF ok] in \<open>simp_all add: t_go_def u_def\<close>)
  have set: "ptrs_set ((ls_ptrs s)[w := ls_local s w]) \<longleftrightarrow> t.arrived (unat n) 3 ((ls_at s)(w := T_wait))"
    using ptrs_set_iff[OF threads[of T_wait "ls_cond s"]] by (simp add: t) (simp add: u_def t_go_def)
  have global: "global_ok n (u pc c) V" if "V \<subseteq> {..unat n}" "unat n \<in> V \<longleftrightarrow> unat n \<in> pl_parked P (ls_cond s)" "3 \<le> t_rank pc" for pc c V
    by (rule global_upd[OF loops_invD(2)[OF inv] w t(1)]) (use that at no in \<open>simp_all add: t_go_def u_def\<close>)
  have meas: "loops_measure n (u pc c) < loops_measure n s" if "3 \<le> t_rank pc" for pc c
    by (rule measure_upd[OF w t(1)]) (use that in \<open>simp_all add: at t_go_def u_def\<close>)
  have fw: "t_forward m0 n s (u pc c)" if "3 \<le> t_rank pc" "pl_parked P c \<subseteq> {..unat n}" "unat n \<in> pl_parked P c \<longleftrightarrow> unat n \<in> pl_parked P (ls_cond s)"
    "t.meeting (unat n) 3 T_wait T_notify (pl_parked P c) ((ls_at s)(w := pc))" for pc c
    using threads[OF that(1)] global[OF that(2,3,1)] meas[OF that(1)] that(4) by (simp add: t_forward_def loops_inv_def t)
  have m: "if t.arrived (unat n) 3 ((ls_at s)(w := T_wait))
      then t.meeting (unat n) 3 T_wait T_notify (pl_parked P (ls_cond s)) ((ls_at s)(w := T_notify))
      else t.meeting (unat n) 3 T_wait T_notify (insert w (pl_parked P (ls_cond s))) ((ls_at s)(w := T_wait))"
    by (rule t.meeting_arrive_park[OF meet w]) (simp_all add: at)
  show ?thesis
  proof (cases "t.arrived (unat n) 3 ((ls_at s)(w := T_wait))")
    case True
    then have "t_forward m0 n s (u T_notify (ls_cond s))" using fw[of T_notify "ls_cond s"] m loops_invD(4)[OF inv] by simp
    then show ?thesis using True by (simp add: t_check_def set u_def)
  next
    case False
    then have "t_forward m0 n s (u T_wait (pl_park P w (ls_cond s)))"
      using fw[of T_wait "pl_park P w (ls_cond s)"] m loops_invD(4)[OF inv] w by (auto simp: parked_park)
    then show ?thesis using False by (simp add: t_check_def set u_def)
  qed
qed

text \<open>A step that only moves the control of a thread that has arrived.\<close>

lemma go_forward:
  assumes inv: "loops_inv P m0 n s" and w: "w < unat n" and r: "3 \<le> t_rank (ls_at s w)" "t_rank (ls_at s w) < t_rank pc"
    and c: "pl_parked P c \<subseteq> {..unat n}" "unat n \<in> pl_parked P c \<longrightarrow> unat n \<in> pl_parked P (ls_cond s)"
      "unat n \<in> pl_parked P (ls_cond s) \<longrightarrow> unat n \<in> pl_parked P c \<or> all_put n s"
    and meet: "t.meeting (unat n) 3 T_wait T_notify (pl_parked P c) ((ls_at s)(w := pc))"
  shows "t_forward m0 n s (t_go w pc (s\<lparr>ls_cond := c\<rparr>))" (is "t_forward m0 n s ?t")
proof -
  note ok = loops_invD(1)[OF inv]
  have t: "ls_at ?t = (ls_at s)(w := pc)" by (simp add: t_go_def)
  have same: "all_put n ?t = all_put n s" using t.arrived_same[OF w, of 3 "ls_at s" pc] r by (simp add: t_go_def)
  have "threads_ok m0 n ?t"
  proof (rule threads_upd[OF ok w t])
    show "thread_ok m0 ?t w" using threadsD(3)[OF ok w] r by (simp add: thread_ok_def t_go_def)
    show "ls_local ?t w \<noteq> ls_local s v" if "v < unat n" "v \<noteq> w" "2 \<le> t_rank (ls_at s v)" for v
      using threadsD(4)[OF ok w that(1)] that(2,3) r by (simp add: t_go_def)
  qed (use threadsD(2)[OF ok] in \<open>simp_all add: t_go_def\<close>)
  moreover have "global_ok n ?t (pl_parked P c)"
    by (rule global_upd[OF loops_invD(2)[OF inv] w t]) (use r c same in \<open>auto simp: t_go_def\<close>)
  moreover have "loops_measure n ?t < loops_measure n s" by (rule measure_upd[OF w t]) (use r in \<open>simp_all add: t_go_def\<close>)
  ultimately show ?thesis using meet by (simp add: t_forward_def loops_inv_def t) (simp add: t_go_def)
qed

lemma thread_forward:
  assumes inv: "loops_inv P m0 n s" and w: "w < unat n" and p: "p \<noteq> null" "alloc_ok p (ls_heap s)"
    and step: "thread_step P m0 w p s = Some t"
  shows "t_forward m0 n s t"
proof (cases "ls_at s w")
  case T_build
  then show ?thesis using step build_forward[OF inv w T_build p] by (simp add: thread_step_def)
next
  case T_put
  then show ?thesis using step put_forward[OF inv w T_put] by (simp add: thread_step_def)
next
  case T_wait
  then have np: "w \<notin> pl_parked P (ls_cond s)" and t: "t = t_check P w s" using step by (auto simp: thread_step_def split: if_splits)
  have arr: "all_put n s" by (rule t.meetingD(3)[OF loops_invD(3)[OF inv] w T_wait np])
  have "t_forward m0 n s (t_go w T_notify (s\<lparr>ls_cond := ls_cond s\<rparr>))"
  proof (rule go_forward[OF inv w])
    show "t.meeting (unat n) 3 T_wait T_notify (pl_parked P (ls_cond s)) ((ls_at s)(w := T_notify))"
      by (rule t.meeting_other[OF loops_invD(3)[OF inv] w]) (use np arr in \<open>simp_all add: T_wait\<close>)
  qed (use loops_invD(4)[OF inv] in \<open>simp_all add: T_wait\<close>)
  then show ?thesis using arr by (simp add: t t_check_def ptrs_set_iff[OF loops_invD(1)[OF inv]])
next
  case T_notify
  have arr: "all_put n s" by (rule t.meetingD(4)[OF loops_invD(3)[OF inv] w]) (simp add: T_notify)
  have "t_forward m0 n s (t_go w T_run (s\<lparr>ls_cond := pl_unpark_all P (ls_cond s)\<rparr>))"
  proof (rule go_forward[OF inv w])
    show "t.meeting (unat n) 3 T_wait T_notify (pl_parked P (pl_unpark_all P (ls_cond s))) ((ls_at s)(w := T_run))"
      unfolding parked_unpark_all by (rule t.meeting_notify[OF loops_invD(3)[OF inv] w T_notify]) simp
  qed (use arr in \<open>simp_all add: T_notify parked_unpark_all\<close>)
  then show ?thesis using step by (simp add: thread_step_def T_notify)
qed (use step in \<open>simp_all add: thread_step_def\<close>)

text \<open>The steps of the calling thread.\<close>

lemma g_check_forward:
  assumes inv: "loops_inv P m0 n s" and born: "t.arrived (unat n) 1 (ls_at s)"
    and at: "ls_main s = G_check \<or> ls_main s = G_wait \<and> unat n \<notin> pl_parked P (ls_cond s)"
  shows "t_forward m0 n s (g_check P n s)"
proof (cases "all_put n s")
  case True
  have "threads_ok m0 n (s\<lparr>ls_main := G_publish\<rparr>)" using loops_invD(1)[OF inv] by (simp add: threads_ok_def thread_ok_def)
  moreover have "unat n \<notin> pl_parked P (ls_cond s)" using at loops_invD(2)[OF inv] by (auto simp: global_ok_def)
  ultimately have "loops_inv P m0 n (s\<lparr>ls_main := G_publish\<rparr>)" using True loops_invD(3,4)[OF inv] by (simp add: loops_inv_def global_ok_def)
  then show ?thesis using True at by (auto simp: g_check_def ptrs_set_iff[OF loops_invD(1)[OF inv]] t_forward_def loops_measure_def)
next
  case False
  then have at': "ls_main s = G_check" using at loops_invD(2)[OF inv] by (auto simp: global_ok_def)
  let ?t = "s\<lparr>ls_main := G_wait, ls_cond := pl_park P (unat n) (ls_cond s)\<rparr>"
  have "threads_ok m0 n ?t" using loops_invD(1)[OF inv] by (simp add: threads_ok_def thread_ok_def)
  moreover have "t.meeting (unat n) 3 T_wait T_notify (insert (unat n) (pl_parked P (ls_cond s))) (ls_at s)"
    by (rule t.meeting_insert[OF loops_invD(3)[OF inv] False]) simp
  ultimately have "loops_inv P m0 n ?t" using born loops_invD(4)[OF inv] by (simp add: loops_inv_def global_ok_def parked_park)
  then show ?thesis using False at' by (simp add: g_check_def ptrs_set_iff[OF loops_invD(1)[OF inv]] t_forward_def loops_measure_def)
qed

lemma spawn_forward:
  assumes inv: "loops_inv P m0 n s" and at: "ls_main s = G_spawn k" and k: "k < unat n"
  shows "t_forward m0 n s (t_go k T_build (s\<lparr>ls_main := G_spawn (Suc k)\<rparr>))" (is "t_forward m0 n s ?t")
proof -
  note ok = loops_invD(1)[OF inv]
  have g: "\<forall>v<unat n. ls_at s v = T_unborn \<longleftrightarrow> k \<le> v" "unat n \<notin> pl_parked P (ls_cond s)"
    using loops_invD(2)[OF inv] by (auto simp: global_ok_def at)
  then have un: "ls_at s k = T_unborn" using k by blast
  have t: "ls_at ?t = (ls_at s)(k := T_build)" by (simp add: t_go_def)
  have "threads_ok m0 n ?t"
  proof (rule threads_upd[OF ok k t])
    show "thread_ok m0 ?t k" using threadsD(3)[OF ok k] un by (simp add: thread_ok_def t_go_def)
  qed (use threadsD(2)[OF ok] in \<open>simp_all add: t_go_def\<close>)
  moreover have "k \<notin> pl_parked P (ls_cond s)" using t.meetingD(1)[OF loops_invD(3)[OF inv] _ k] un by auto
  then have "t.meeting (unat n) 3 T_wait T_notify (pl_parked P (ls_cond s)) ((ls_at s)(k := T_build))"
    using un by (intro t.meeting_other[OF loops_invD(3)[OF inv] k]) simp_all
  moreover have "global_ok n ?t (pl_parked P (ls_cond s))" using g k loops_invD(4)[OF inv] by (auto simp: global_ok_def t_go_def)
  moreover have "loops_measure n ?t < loops_measure n s" by (rule measure_upd[OF k t]) (simp_all add: un at t_go_def)
  ultimately show ?thesis by (simp add: t_forward_def loops_inv_def t) (simp add: t_go_def)
qed

lemma global_forward:
  assumes inv: "loops_inv P m0 n s" and step: "global_step P n s = Some t"
  shows "t_forward m0 n s t"
proof (cases "ls_main s")
  case (G_spawn k)
  show ?thesis
  proof (cases "k < unat n")
    case True
    then show ?thesis using step spawn_forward[OF inv G_spawn True] by (simp add: global_step_def G_spawn)
  next
    case False
    have "t.arrived (unat n) 1 (ls_at s)" "unat n \<notin> pl_parked P (ls_cond s)"
      using loops_invD(2)[OF inv] False by (auto simp: global_ok_def G_spawn t.arrived_def t_unborn)
    moreover have "threads_ok m0 n (s\<lparr>ls_main := G_check\<rparr>)" using loops_invD(1)[OF inv] by (simp add: threads_ok_def thread_ok_def)
    ultimately have "loops_inv P m0 n (s\<lparr>ls_main := G_check\<rparr>)" using loops_invD(3,4)[OF inv] by (simp add: loops_inv_def global_ok_def)
    then show ?thesis using step False by (auto simp: global_step_def G_spawn t_forward_def loops_measure_def)
  qed
next
  case G_publish
  have "all_put n s" "unat n \<notin> pl_parked P (ls_cond s)" using loops_invD(2)[OF inv] by (auto simp: global_ok_def G_publish)
  moreover have "threads_ok m0 n (s\<lparr>ls_global := g, ls_main := G_ready\<rparr>)" for g
    using loops_invD(1)[OF inv] by (simp add: threads_ok_def thread_ok_def)
  ultimately show ?thesis using step loops_invD(3,4)[OF inv]
    by (auto simp: global_step_def G_publish t_forward_def loops_inv_def global_ok_def loops_measure_def)
qed (use step g_check_forward[OF inv] loops_invD(2)[OF inv] in \<open>auto simp: global_step_def global_ok_def split: if_splits\<close>)

lemma loops_step_forward: "loops_inv P m0 n s \<Longrightarrow> loops_step P m0 n s t \<Longrightarrow> t_forward m0 n s t"
  by (auto simp: loops_step_def intro: thread_forward global_forward)

lemma loops_init_inv:
  assumes "loops_init P n s"
  shows "loops_inv P m0 n s \<and> loops_measure n s = 6 * unat n + 4"
proof -
  from assms obtain l h where s: "s = loops_new l n h" "finite (dom h)" "pl_parked P l = {}" by (auto simp: loops_init_def)
  have "t.meeting (unat n) 3 T_wait T_notify {} (\<lambda>_. T_unborn)" by (simp add: t.meeting_def)
  then show ?thesis using s(2,3)
    by (simp add: s(1) loops_new_def loops_inv_def threads_ok_def thread_ok_def global_ok_def loops_measure_def)
qed

lemma loops_not_stuck:
  assumes inv: "loops_inv P m0 n s" and stuck: "\<nexists>t. loops_step P m0 n s t"
  shows "ls_main s = G_ready \<and> (\<forall>w<unat n. ls_at s w = T_run)"
proof -
  note meet = loops_invD(3)[OF inv] and g = loops_invD(2)[OF inv]
  obtain p where p: "p \<noteq> null" "alloc_ok p (ls_heap s)"
    using ex_new_if_finite[of "insert null (dom (ls_heap s))"] threadsD(2)[OF loops_invD(1)[OF inv]] by (auto simp: alloc_ok_def)
  have "global_step P n s = None" using stuck by (cases "global_step P n s") (auto simp: loops_step_def)
  then have m: "ls_main s = G_ready \<or> ls_main s = G_wait \<and> unat n \<in> pl_parked P (ls_cond s)"
    by (cases "ls_main s") (auto simp: global_step_def split: if_splits)
  then have born: "t.arrived (unat n) 1 (ls_at s)" using g t.arrived_weaken[of "unat n" 3 "ls_at s" 1] by (auto simp: global_ok_def)
  have b: "ls_at s w = T_run \<or> ls_at s w = T_wait \<and> w \<in> pl_parked P (ls_cond s)" if w: "w < unat n" for w
  proof -
    have "thread_step P m0 w p s = None" using stuck w p by (cases "thread_step P m0 w p s") (auto simp: loops_step_def)
    moreover have "ls_at s w \<noteq> T_unborn" using born w by (auto simp: t.arrived_def t_unborn)
    ultimately show ?thesis by (cases "ls_at s w") (auto simp: thread_step_def split: if_splits)
  qed
  then have "\<forall>w<unat n. 3 \<le> t_rank (ls_at s w)" by force
  then have "all_put n s" by (simp add: t.arrived_def)
  moreover have "ls_at s v \<noteq> T_notify" if "v < unat n" for v using b[OF that] by auto
  ultimately have "pl_parked P (ls_cond s) = {}" using t.meetingD(2)[OF meet] by blast
  then show ?thesis using b m by auto
qed

lemma loops_steps:
  assumes "(loops_step P m0 n ^^ k) s t" "loops_inv P m0 n s"
  shows "loops_inv P m0 n t \<and> k + loops_measure n t \<le> loops_measure n s"
  using assms
proof (induction k arbitrary: t)
  case (Suc k)
  then obtain u where "(loops_step P m0 n ^^ k) s u" "loops_step P m0 n u t" by auto
  with Suc.IH[of u] Suc.prems(2) loops_step_forward[of m0 n u t] show ?case by (auto simp: t_forward_def)
qed simp

lemma loops_finish:
  assumes "loops_inv P m0 n s"
  shows "\<exists>k t. (loops_step P m0 n ^^ k) s t \<and> ls_main t = G_ready"
  using assms
proof (induction "loops_measure n s" arbitrary: s rule: less_induct)
  case less
  show ?case
  proof (cases "\<exists>u. loops_step P m0 n s u")
    case True
    then obtain u where u: "loops_step P m0 n s u" by blast
    with loops_step_forward[OF less.prems u] less.hyps[of u] obtain k t where
      "(loops_step P m0 n ^^ k) u t" "ls_main t = G_ready" by (auto simp: t_forward_def)
    then show ?thesis using relpowp_Suc_I2[of "loops_step P m0 n", OF u] by blast
  next
    case False
    then show ?thesis using loops_not_stuck[OF less.prems] by (intro exI[of _ 0]) auto
  qed
qed

lemma loops_built:
  assumes inv: "loops_inv P m0 n s" and arr: "all_put n s"
  shows "distinct (ls_ptrs s)" "i < unat n \<Longrightarrow> ls_ptrs s ! i = ls_local s i \<and> ls_heap s (ls_ptrs s ! i) = Some (Init (LocalData_build m0))"
proof -
  note ok = loops_invD(1)[OF inv]
  have r: "3 \<le> t_rank (ls_at s v)" if "v < unat n" for v using arr that by (simp add: t.arrived_def)
  have b: "ls_ptrs s ! v = ls_local s v" "ls_heap s (ls_local s v) = Some (Init (LocalData_build m0))" if "v < unat n" for v
    using threadsD(3)[OF ok that] r[OF that] by (simp_all add: thread_ok_def)
  show "ls_ptrs s ! i = ls_local s i \<and> ls_heap s (ls_ptrs s ! i) = Some (Init (LocalData_build m0))" if "i < unat n"
    using b[OF that] by simp
  show "distinct (ls_ptrs s)" unfolding distinct_conv_nth
  proof (intro allI impI)
    fix i j assume "i < length (ls_ptrs s)" "j < length (ls_ptrs s)" "i \<noteq> j"
    then show "ls_ptrs s ! i \<noteq> ls_ptrs s ! j" using threadsD(1)[OF ok] threadsD(4)[OF ok, of i j] b(1) r[of i] r[of j] by simp
  qed
qed

end

section \<open>Properties\<close>

text \<open>
  C27: the event loops start.  Every schedule of \<open>GlobalData::build\<close> and its threads has at most
  \<open>6 * n + 4\<close> steps, and it cannot end, or block, before all loops run and the data are published; a
  thread that runs its loop has its own \<open>LocalData\<close>, and so have all others by then; and what is
  published is a start state of the event loops, with distinct \<open>LocalData\<close>.
\<close>

theorem loops_start:
  assumes "parking_lot_ops P" and "\<forall>k. sb_get S k m0 = None" and "loops_init P n s" and "(loops_step P m0 n ^^ k) s t"
  shows "k \<le> 6 * unat n + 4 \<and>
    ((\<nexists>u. loops_step P m0 n t u) \<longrightarrow> ls_main t = G_ready \<and> (\<forall>w<unat n. ls_at t w = T_run)) \<and>
    (\<forall>w<unat n. ls_at t w = T_run \<longrightarrow> (\<forall>i<unat n. ls_heap t (ls_local t i) = Some (Init (LocalData_build m0)))) \<and>
    (ls_main t = G_ready \<longrightarrow> (\<exists>g. ls_global t = Some g \<and> distinct (g_locals g) \<and> mio_init S n (built_mio g (ls_heap t))))"
proof -
  have init: "loops_inv P m0 n s" "loops_measure n s = 6 * unat n + 4"
    using parking_lot_ops.loops_init_inv[OF assms(1,3)] by auto
  have inv: "loops_inv P m0 n t" and k: "k + loops_measure n t \<le> loops_measure n s"
    using parking_lot_ops.loops_steps[OF assms(1,4) init(1)] by auto
  note built = parking_lot_ops.loops_built[OF assms(1) inv]
  have "all_put n t" if "w < unat n" "ls_at t w = T_run" for w
    by (rule t.meetingD(4)[OF parking_lot_ops.loops_invD(3)[OF assms(1) inv] that(1)]) (simp add: that(2))
  then have "\<forall>w<unat n. ls_at t w = T_run \<longrightarrow> (\<forall>i<unat n. ls_heap t (ls_local t i) = Some (Init (LocalData_build m0)))"
    using built(2) by metis
  moreover have "\<exists>g. ls_global t = Some g \<and> distinct (g_locals g) \<and> mio_init S n (built_mio g (ls_heap t))" if "ls_main t = G_ready"
  proof -
    have arr: "all_put n t" and g: "ls_global t = Some \<lparr>g_locals = ls_ptrs t, g_counter = 0\<rparr>"
      using parking_lot_ops.loops_invD(2)[OF assms(1) inv] that by (simp_all add: global_ok_def)
    have "local_at (ls_heap t) (ls_ptrs t ! i) = LocalData_build m0" if "i < unat n" for i
      using conjunct2[OF built(2)[OF arr that]] by (simp add: local_at_def)
    then have "mio_init S n (built_mio \<lparr>g_locals = ls_ptrs t, g_counter = 0\<rparr> (ls_heap t))"
      using assms(2) by (simp add: mio_init_def built_mio_def LocalData_build_def)
    then show ?thesis using g built(1)[OF arr] by simp
  qed
  ultimately show ?thesis using k init(2) parking_lot_ops.loops_not_stuck[OF assms(1) inv] by simp
qed

theorem loops_start_witness:
  "\<exists>k t. (loops_step fifo_lot [] 2 ^^ k) (loops_new [] 2 Map.empty) t \<and> k \<le> 16 \<and> ls_main t = G_ready \<and>
     (\<exists>g. ls_global t = Some g \<and> mio_init vec_slab 2 (built_mio g (ls_heap t)))"
proof -
  let ?s = "loops_new ([] :: nat list) 2 (Map.empty :: Slot option list LocalData heap)"
  have init: "loops_init fifo_lot 2 ?s" by (auto simp: loops_init_def fifo_lot_def)
  have empty: "\<forall>k. sb_get vec_slab k [] = None" by (simp add: vec_slab_def vec_get_def)
  obtain k t where t: "(loops_step fifo_lot [] 2 ^^ k) ?s t" "ls_main t = G_ready"
    using fifo.loops_finish[OF conjunct1[OF fifo.loops_init_inv[OF init]], of "[]"] by blast
  from loops_start[OF fifo.parking_lot_ops_axioms empty init t(1)] t show ?thesis by auto
qed

end
