(* ===== verification/Dispatcher.thy ===== *)
theory Dispatcher
  imports Transition
begin

text \<open>
  The dispatcher between an event loop and a task that does I/O (\<open>yaay-mio/src/dispatcher.rs\<close>,
  \<open>macros.rs\<close>, the loop in \<open>shared.rs\<close> 98-113), under concurrency.

  \<open>d_reader\<close> is the position of the task that owns the dispatcher in \<open>io_poll!\<close> and in the drop of
  its \<open>MIO\<close>, \<open>d_loop\<close> that of the event loop thread, which holds the lock of the dispatcher slab
  whenever it is not at \<open>L_idle\<close>.  One step is one atomic access of the status, one locked section, or
  one call.  The result of the I/O operation is the environment's choice, as is the arrival of events.

  Ghost state: \<open>d_unseen\<close> is set by an event and cleared when the task starts a new attempt;
  \<open>d_woken\<close> is set by \<open>wake_by_ref\<close> and cleared when the task is polled; \<open>d_bad\<close> records an access to
  freed memory, a second free, or the \<open>unreachable!()\<close> of \<open>del\<close>.
\<close>

section \<open>Definitions\<close>

definition D_MUTED :: u8 where
  "D_MUTED = 1"

definition D_NOTIFIED :: u8 where
  "D_NOTIFIED = push_bit 1 D_MUTED"

datatype rpc =
    R_idle        \<comment> \<open>outside \<open>io_poll!\<close>\<close>
  | R_prepare     \<comment> \<open>dispatcher.rs 48\<close>
  | R_io          \<comment> \<open>macros.rs 6: the operation itself\<close>
  | R_wait        \<comment> \<open>dispatcher.rs 60\<close>
  | R_pending     \<comment> \<open>dispatcher.rs 62: the task returned \<open>Pending\<close>\<close>
  | R_del         \<comment> \<open>dispatcher.rs 32\<close>
  | R_free        \<comment> \<open>dispatcher.rs 43\<close>
  | R_gone

datatype lpc =
    L_idle        \<comment> \<open>shared.rs 99\<close>
  | L_held        \<comment> \<open>shared.rs 101: between two events\<close>
  | L_slot        \<comment> \<open>shared.rs 105: an event for this dispatcher\<close>
  | L_notify      \<comment> \<open>dispatcher.rs 111\<close>
  | L_wake        \<comment> \<open>dispatcher.rs 113\<close>

record dstate =
  d_status :: u8
  d_slot :: bool
  d_freed :: bool
  d_reader :: rpc
  d_loop :: lpc
  d_woken :: bool
  d_unseen :: bool
  d_bad :: bool

text \<open>After \<open>new_from_waker\<close>: the status is \<open>MUTED\<close> and the slot points to the dispatcher.\<close>

definition d_new :: dstate where
  "d_new = \<lparr>d_status = D_MUTED, d_slot = True, d_freed = False, d_reader = R_idle, d_loop = L_idle,
     d_woken = False, d_unseen = False, d_bad = False\<rparr>"

definition d_touch :: "dstate \<Rightarrow> dstate" where
  "d_touch s = s\<lparr>d_bad := d_bad s \<or> d_freed s\<rparr>"

datatype dlabel =
    Begin             \<comment> \<open>the task enters \<open>io_poll!\<close>\<close>
  | Prepare
  | Io_block          \<comment> \<open>the operation would block\<close>
  | Io_done           \<comment> \<open>the operation succeeds or fails\<close>
  | Cas
  | Cas_weak          \<comment> \<open>the compare-exchange fails spuriously\<close>
  | Resume            \<comment> \<open>the woken task is polled\<close>
  | Spurious          \<comment> \<open>the task is polled for another reason\<close>
  | Drop_mio          \<comment> \<open>the \<open>MIO\<close> is dropped, in the task or with the suspended task\<close>
  | Del
  | Free
  | Lock
  | Unlock
  | Event
  | Loop

text \<open>A step of the task: \<open>prepare_io\<close>, \<open>wait_io\<close>, \<open>del\<close>.  \<open>None\<close>: not the task's turn.\<close>

definition rstep :: "dlabel \<Rightarrow> dstate \<Rightarrow> dstate option" where
  "rstep l s =
    (case d_reader s of
       R_idle \<Rightarrow>
         (if l = Begin then Some (s\<lparr>d_reader := R_prepare\<rparr>)
          else if l = Drop_mio then Some (s\<lparr>d_reader := R_del\<rparr>) else None)
     | R_prepare \<Rightarrow>
         (if l = Prepare then Some ((d_touch s)\<lparr>d_status := D_MUTED, d_unseen := False, d_reader := R_io\<rparr>)
          else None)
     | R_io \<Rightarrow>
         (if l = Io_block then Some (s\<lparr>d_reader := R_wait\<rparr>)
          else if l = Io_done then Some (s\<lparr>d_reader := R_idle\<rparr>) else None)
     | R_wait \<Rightarrow>
         (if l = Cas \<or> l = Cas_weak then
            let s = d_touch s; val = d_status s
            in if val = D_MUTED \<and> l = Cas then Some (s\<lparr>d_status := 0, d_reader := R_pending\<rparr>)
               else if val \<noteq> D_MUTED then Some (s\<lparr>d_reader := R_prepare\<rparr>)
               else Some s
          else None)
     | R_pending \<Rightarrow>
         (if l = Resume \<and> d_woken s then Some (s\<lparr>d_woken := False, d_reader := R_prepare\<rparr>)
          else if l = Spurious then Some (s\<lparr>d_reader := R_prepare\<rparr>)
          else if l = Drop_mio then Some (s\<lparr>d_reader := R_del\<rparr>) else None)
     | R_del \<Rightarrow>
         (if l = Del \<and> d_loop s = L_idle
          then Some (s\<lparr>d_slot := False, d_bad := d_bad s \<or> \<not> d_slot s, d_reader := R_free\<rparr>) else None)
     | R_free \<Rightarrow> (if l = Free then Some ((d_touch s)\<lparr>d_freed := True, d_reader := R_gone\<rparr>) else None)
     | R_gone \<Rightarrow> None)"

text \<open>A step of the event loop; \<open>Loop\<close> goes on with the event at hand.\<close>

definition lstep :: "dlabel \<Rightarrow> dstate \<Rightarrow> dstate option" where
  "lstep l s =
    (case d_loop s of
       L_idle \<Rightarrow> (if l = Lock then Some (s\<lparr>d_loop := L_held\<rparr>) else None)
     | L_held \<Rightarrow>
         (if l = Unlock then Some (s\<lparr>d_loop := L_idle\<rparr>)
          else if l = Event then Some (s\<lparr>d_loop := L_slot\<rparr>) else None)
     | L_slot \<Rightarrow> (if l = Loop then Some (s\<lparr>d_loop := if d_slot s then L_notify else L_held\<rparr>) else None)
     | L_notify \<Rightarrow>
         (if l = Loop then
            let s = d_touch s; prev = d_status s
            in Some (s\<lparr>d_status := D_NOTIFIED OR D_MUTED, d_unseen := True,
                 d_loop := if prev AND (D_MUTED OR D_NOTIFIED) = 0 then L_wake else L_held\<rparr>)
          else None)
     | L_wake \<Rightarrow> (if l = Loop then Some ((d_touch s)\<lparr>d_woken := True, d_loop := L_held\<rparr>) else None))"

definition dstep :: "dlabel \<Rightarrow> dstate \<Rightarrow> dstate option" where
  "dstep l s = (case rstep l s of Some t \<Rightarrow> Some t | None \<Rightarrow> lstep l s)"

abbreviation disp_reach :: "dstate \<Rightarrow> bool" where
  "disp_reach \<equiv> reach (\<lambda>s. s = d_new) (enabled dstep)"

section \<open>The invariant\<close>

lemmas d_bits = D_MUTED_def D_NOTIFIED_def

fun reader_ok :: "rpc \<Rightarrow> dstate \<Rightarrow> bool" where
  "reader_ok R_io s = (d_status s = (if d_unseen s then 3 else 1))"
| "reader_ok R_wait s = (d_status s = (if d_unseen s then 3 else 1))"
| "reader_ok R_pending s =
     (if d_unseen s then d_status s = 3 \<and> (d_woken s \<or> d_loop s = L_wake) else d_status s = 0)"
| "reader_ok _ s = True"

definition disp_inv :: "dstate \<Rightarrow> bool" where
  "disp_inv s \<longleftrightarrow> \<not> d_bad s \<and> d_status s \<in> {0, 1, 3} \<and> reader_ok (d_reader s) s \<and>
     (d_slot s \<longleftrightarrow> d_reader s \<notin> {R_free, R_gone}) \<and> (d_freed s \<longleftrightarrow> d_reader s = R_gone) \<and>
     (d_loop s \<in> {L_notify, L_wake} \<longrightarrow> d_slot s)"

lemma rstep_inv: "disp_inv s \<Longrightarrow> rstep l s = Some t \<Longrightarrow> disp_inv t"
  by (cases "d_reader s")
    (auto simp: rstep_def disp_inv_def d_touch_def d_bits Let_def split: if_splits)

lemma notified_bits: "D_NOTIFIED OR D_MUTED = 3"
  by (simp add: d_bits)

lemma notify_wakes: "st \<in> {0, 1, 3} \<Longrightarrow> st AND (D_MUTED OR D_NOTIFIED) = 0 \<longleftrightarrow> st = 0"
  by (auto simp: d_bits)

lemma touch_ok: "disp_inv s \<Longrightarrow> d_slot s \<Longrightarrow> d_touch s = s"
  by (auto simp: d_touch_def disp_inv_def)

lemma lstep_inv:
  assumes "disp_inv s" "lstep l s = Some t"
  shows "disp_inv t"
proof (cases "d_loop s")
  case L_notify
  then have "l = Loop" using assms(2) by (auto simp: lstep_def split: if_splits)
  have touch: "d_touch s = s" by (rule touch_ok) (use assms(1) L_notify in \<open>auto simp: disp_inv_def\<close>)
  have bits: "d_status s AND (D_MUTED OR D_NOTIFIED) = 0 \<longleftrightarrow> d_status s = 0"
    by (rule notify_wakes) (use assms(1) in \<open>simp add: disp_inv_def\<close>)
  have "t = s\<lparr>d_status := 3, d_unseen := True, d_loop := if d_status s = 0 then L_wake else L_held\<rparr>"
    using assms(2) L_notify \<open>l = Loop\<close> by (auto simp: lstep_def touch bits notified_bits Let_def)
  then show ?thesis using assms(1) L_notify by (cases "d_reader s") (auto simp: disp_inv_def split: if_splits)
next
  case L_wake
  with assms show ?thesis
    by (cases "d_reader s") (auto simp: lstep_def disp_inv_def d_touch_def split: if_splits)
qed (use assms in \<open>cases "d_reader s"; auto simp: lstep_def disp_inv_def split: if_splits\<close>)+

lemma dstep_inv: "disp_inv s \<Longrightarrow> dstep l s = Some t \<Longrightarrow> disp_inv t"
  by (cases "rstep l s") (auto simp: dstep_def dest: rstep_inv lstep_inv)

lemma d_new_inv: "disp_inv d_new"
  by (simp add: disp_inv_def d_new_def d_bits)

interpretation disp: inductive_invariant "\<lambda>s. s = d_new" "enabled dstep" disp_inv
  by unfold_locales (auto simp: enabled_def d_new_inv dest: dstep_inv)

section \<open>Properties\<close>

text \<open>
  C19: no event is lost.  If an event arrived after the task started its current attempt, then either the
  task has not yet gone to sleep and the status makes its compare-exchange fail, so that it tries
  again, or it sleeps and has been woken, or the event loop is about to wake it.
\<close>

theorem dispatcher_event_not_lost:
  assumes "disp_reach s" and "d_unseen s" and "d_reader s \<in> {R_io, R_wait, R_pending}"
  shows "if d_reader s = R_pending then d_woken s \<or> d_loop s = L_wake else d_status s = D_NOTIFIED OR D_MUTED"
  using disp.reach_inv[OF assms(1)] assms(2,3) by (auto simp: disp_inv_def d_bits)

text \<open>
  C32: the dispatcher is memory safe.  The event loop and the task never touch it after it was freed,
  it is freed at most once, and \<open>del\<close> never reaches its \<open>unreachable!()\<close>.
\<close>

theorem dispatcher_memory_safe:
  assumes "disp_reach s"
  shows "\<not> d_bad s \<and> (d_loop s \<in> {L_notify, L_wake} \<longrightarrow> \<not> d_freed s)"
  using disp.reach_inv[OF assms] by (auto simp: disp_inv_def)

text \<open>
  C31: an event is acted upon.  From every reachable state in which an unseen event finds the task in
  \<open>wait_io\<close>, at most two steps, none of them spurious (the event loop's \<open>wake_by_ref\<close>, the
  compare-exchange or the poll of the woken task), bring the task to a new attempt.
\<close>

theorem dispatcher_event_retried:
  assumes "disp_reach s" and "d_unseen s" and "d_reader s \<in> {R_wait, R_pending}"
  shows "\<exists>ls t. run dstep ls s = Some t \<and> length ls \<le> 2 \<and> set ls \<subseteq> {Loop, Cas, Resume} \<and>
    d_reader t = R_prepare"
proof -
  have inv: "disp_inv s" by (rule disp.reach_inv[OF assms(1)])
  consider "d_reader s = R_wait" | "d_reader s = R_pending" "d_woken s" | "d_reader s = R_pending" "d_loop s = L_wake"
    using inv assms(2,3) by (auto simp: disp_inv_def)
  then show ?thesis
  proof cases
    case 1
    then show ?thesis using inv assms(2)
      by (intro exI[of _ "[Cas]"]) (auto simp: dstep_def rstep_def lstep_def disp_inv_def d_bits d_touch_def)
  next
    case 2
    then show ?thesis by (intro exI[of _ "[Resume]"]) (auto simp: dstep_def rstep_def lstep_def)
  next
    case 3
    then show ?thesis by (intro exI[of _ "[Loop, Resume]"]) (auto simp: dstep_def rstep_def lstep_def d_touch_def)
  qed
qed

text \<open>The task goes to sleep, and an event arrives.\<close>

definition d_asleep :: "dlabel list" where
  "d_asleep = [Begin, Prepare, Io_block, Cas, Lock, Event, Loop, Loop]"

lemma d_asleep_run:
  "\<exists>s. run dstep d_asleep d_new = Some s \<and> d_unseen s \<and> d_reader s = R_pending \<and> d_loop s = L_wake"
  by (simp add: d_asleep_def dstep_def rstep_def lstep_def d_new_def d_bits d_touch_def)

lemma d_asleep_reach: "\<exists>s. disp_reach s \<and> d_unseen s \<and> d_reader s = R_pending \<and> d_loop s = L_wake"
  using d_asleep_run by (auto intro: reach_run)

theorem dispatcher_event_not_lost_witness:
  "\<exists>s. disp_reach s \<and> d_unseen s \<and> d_reader s = R_pending \<and> (d_woken s \<or> d_loop s = L_wake)"
proof -
  obtain s where "disp_reach s" "d_unseen s" "d_reader s = R_pending" using d_asleep_reach by blast
  with dispatcher_event_not_lost[of s] show ?thesis by auto
qed

theorem dispatcher_memory_safe_witness:
  "\<exists>s. disp_reach s \<and> d_loop s = L_wake \<and> \<not> d_bad s \<and> \<not> d_freed s"
proof -
  obtain s where "disp_reach s" "d_loop s = L_wake" using d_asleep_reach by blast
  with dispatcher_memory_safe[of s] show ?thesis by auto
qed

theorem dispatcher_event_retried_witness:
  "\<exists>s ls t. disp_reach s \<and> d_reader s = R_pending \<and> run dstep ls s = Some t \<and> d_reader t = R_prepare"
proof -
  obtain s where "disp_reach s" "d_unseen s" "d_reader s = R_pending" using d_asleep_reach by blast
  with dispatcher_event_retried[of s] show ?thesis by blast
qed

end
