(* ===== verification/Tcp.thy ===== *)
theory Tcp
  imports Prelude
begin

text \<open>
  Input and output on sockets (\<open>yaay-mio/src/macros.rs\<close>, \<open>net/tcp_stream.rs\<close>).  The macro \<open>io_poll!\<close>
  repeats an operation until it does not answer \<open>WouldBlock\<close>, waiting for an event in between; that no
  event is missed is the subject of theory \<open>Dispatcher\<close>.  It is wrapped around \<open>read\<close> and \<open>write\<close> of
  the socket, and around the standard library's \<open>read_exact\<close> and \<open>write_all\<close>, which loop over them.

  The socket is not part of the sources: its \<open>write\<close> and \<open>read\<close> are parameters \<open>wr\<close> and \<open>rd\<close> on a state
  of the world, with the laws of the locales \<open>byte_sink\<close> and \<open>byte_source\<close>; \<open>wait\<close> is what happens to
  the world while the task sleeps.  A loop may run for ever: its result is then \<open>None\<close>.
\<close>

section \<open>Definitions\<close>

datatype io_error = Would_block | Interrupted | Write_zero | Unexpected_eof | Other nat

type_synonym 'a io = "io_error + 'a"

partial_function (option) io_poll :: "('w \<Rightarrow> ('a io \<times> 'w) option) \<Rightarrow> ('w \<Rightarrow> 'w) \<Rightarrow> 'w \<Rightarrow> ('a io \<times> 'w) option" where
  "io_poll opr wait w =
    (case opr w of
       None \<Rightarrow> None
     | Some (res, w) \<Rightarrow>
         (case res of
            Inr r \<Rightarrow> Some (Inr r, w)
          | Inl err \<Rightarrow> if err = Would_block then io_poll opr wait (wait w) else Some (Inl err, w)))"

text \<open>The first rule of the macro, which \<open>accept\<close> uses, maps the result.\<close>

partial_function (option) io_poll_map ::
  "('w \<Rightarrow> ('a io \<times> 'w) option) \<Rightarrow> ('a \<Rightarrow> 'b) \<Rightarrow> ('w \<Rightarrow> 'w) \<Rightarrow> 'w \<Rightarrow> ('b io \<times> 'w) option" where
  "io_poll_map opr f wait w =
    (case opr w of
       None \<Rightarrow> None
     | Some (res, w) \<Rightarrow>
         (case res of
            Inr r \<Rightarrow> Some (Inr (f r), w)
          | Inl err \<Rightarrow> if err = Would_block then io_poll_map opr f wait (wait w) else Some (Inl err, w)))"

text \<open>\<open>std::io::Write::write_all\<close> and \<open>std::io::Read::read_exact\<close>; the latter with the bytes read so far.\<close>

partial_function (option) std_write_all ::
  "(u8 list \<Rightarrow> 'w \<Rightarrow> nat io \<times> 'w) \<Rightarrow> u8 list \<Rightarrow> 'w \<Rightarrow> (unit io \<times> 'w) option" where
  "std_write_all wr buf w =
    (if buf = [] then Some (Inr (), w)
     else case wr buf w of
       (Inr n, w) \<Rightarrow> if n = 0 then Some (Inl Write_zero, w) else std_write_all wr (drop n buf) w
     | (Inl err, w) \<Rightarrow> if err = Interrupted then std_write_all wr buf w else Some (Inl err, w))"

partial_function (option) std_read_exact ::
  "(nat \<Rightarrow> 'w \<Rightarrow> u8 list io \<times> 'w) \<Rightarrow> u8 list \<Rightarrow> nat \<Rightarrow> 'w \<Rightarrow> (u8 list io \<times> 'w) option" where
  "std_read_exact rd got len w =
    (if len = 0 then Some (Inr got, w)
     else case rd len w of
       (Inr bs, w) \<Rightarrow>
         if bs = [] then Some (Inl Unexpected_eof, w) else std_read_exact rd (got @ bs) (len - length bs) w
     | (Inl err, w) \<Rightarrow> if err = Interrupted then std_read_exact rd got len w else Some (Inl err, w))"

definition TcpStreamWriter_write ::
  "(u8 list \<Rightarrow> 'w \<Rightarrow> nat io \<times> 'w) \<Rightarrow> ('w \<Rightarrow> 'w) \<Rightarrow> u8 list \<Rightarrow> 'w \<Rightarrow> (nat io \<times> 'w) option" where
  "TcpStreamWriter_write wr wait buf = io_poll (\<lambda>w. Some (wr buf w)) wait"

definition TcpStreamWriter_write_all ::
  "(u8 list \<Rightarrow> 'w \<Rightarrow> nat io \<times> 'w) \<Rightarrow> ('w \<Rightarrow> 'w) \<Rightarrow> u8 list \<Rightarrow> 'w \<Rightarrow> (unit io \<times> 'w) option" where
  "TcpStreamWriter_write_all wr wait buf = io_poll (std_write_all wr buf) wait"

definition TcpStreamReader_read ::
  "(nat \<Rightarrow> 'w \<Rightarrow> u8 list io \<times> 'w) \<Rightarrow> ('w \<Rightarrow> 'w) \<Rightarrow> nat \<Rightarrow> 'w \<Rightarrow> (u8 list io \<times> 'w) option" where
  "TcpStreamReader_read rd wait len = io_poll (\<lambda>w. Some (rd len w)) wait"

definition TcpStreamReader_read_exact ::
  "(nat \<Rightarrow> 'w \<Rightarrow> u8 list io \<times> 'w) \<Rightarrow> ('w \<Rightarrow> 'w) \<Rightarrow> nat \<Rightarrow> 'w \<Rightarrow> (u8 list io \<times> 'w) option" where
  "TcpStreamReader_read_exact rd wait len = io_poll (std_read_exact rd [] len) wait"

text \<open>What a socket promises: \<open>sent\<close> are the bytes accepted so far, \<open>inbox\<close> the bytes yet to be read.\<close>

locale byte_sink =
  fixes wr :: "u8 list \<Rightarrow> 'w \<Rightarrow> nat io \<times> 'w" and wait :: "'w \<Rightarrow> 'w" and sent :: "'w \<Rightarrow> u8 list"
  assumes write_ok: "wr buf w = (Inr n, w') \<Longrightarrow> n \<le> length buf \<and> sent w' = sent w @ take n buf"
    and write_err: "wr buf w = (Inl e, w') \<Longrightarrow> sent w' = sent w"
    and sent_wait: "sent (wait w) = sent w"

locale byte_source =
  fixes rd :: "nat \<Rightarrow> 'w \<Rightarrow> u8 list io \<times> 'w" and wait :: "'w \<Rightarrow> 'w" and inbox :: "'w \<Rightarrow> u8 list"
  assumes read_ok: "rd len w = (Inr bs, w') \<Longrightarrow> length bs \<le> len \<and> inbox w = bs @ inbox w'"
    and read_err: "rd len w = (Inl e, w') \<Longrightarrow> inbox w' = inbox w"
    and inbox_wait: "\<exists>more. inbox (wait w) = inbox w @ more"

section \<open>The loop\<close>

text \<open>The world before attempt \<open>k\<close>, if all attempts before it blocked.\<close>

fun attempts :: "('w \<Rightarrow> ('a io \<times> 'w) option) \<Rightarrow> ('w \<Rightarrow> 'w) \<Rightarrow> nat \<Rightarrow> 'w \<Rightarrow> 'w option" where
  "attempts opr wait 0 w = Some w"
| "attempts opr wait (Suc k) w =
    (case opr w of Some (Inl err, w') \<Rightarrow> if err = Would_block then attempts opr wait k (wait w') else None | _ \<Rightarrow> None)"

lemma io_poll_attempts:
  assumes "attempts opr wait k w = Some v" "opr v = Some (res, v')" "res \<noteq> Inl Would_block"
  shows "io_poll opr wait w = Some (res, v')"
  using assms
proof (induction k arbitrary: w)
  case 0
  then show ?case by (subst io_poll.simps) (auto split: sum.splits)
next
  case (Suc k)
  then show ?case by (subst io_poll.simps) (auto split: option.splits sum.splits if_splits)
qed

lemma io_poll_map_Some:
  assumes "io_poll_map opr f wait w = Some y"
  shows "\<exists>r. io_poll opr wait w = Some r \<and> y = (map_sum id f (fst r), snd r)"
proof (rule io_poll_map.raw_induct[where P = "\<lambda>opr f wait w y. \<exists>r. io_poll opr wait w = Some r \<and> y = (map_sum id f (fst r), snd r)", OF _ assms])
  fix g opr f wait w y
  assume "\<And>opr f wait w y. g opr f wait w = Some y \<Longrightarrow> \<exists>r. io_poll opr wait w = Some r \<and> y = (map_sum id f (fst r), snd r)"
    and "(case opr w of None \<Rightarrow> None | Some (res, w) \<Rightarrow> (case res of Inl err \<Rightarrow> if err = Would_block then g opr f wait (wait w) else Some (Inl err, w)
        | Inr r \<Rightarrow> Some (Inr (f r), w))) = Some y"
  then show "\<exists>r. io_poll opr wait w = Some r \<and> y = (map_sum id f (fst r), snd r)"
    by (subst io_poll.simps, cases y) (auto split: option.splits sum.splits if_splits)
qed

lemma io_poll_Some:
  assumes "io_poll opr wait w = Some r"
  shows "io_poll_map opr f wait w = Some (map_sum id f (fst r), snd r)"
proof (rule io_poll.raw_induct[where P = "\<lambda>opr wait w r. io_poll_map opr f wait w = Some (map_sum id f (fst r), snd r)", OF _ assms])
  fix g opr wait w r
  assume "\<And>opr wait w r. g opr wait w = Some r \<Longrightarrow> io_poll_map opr f wait w = Some (map_sum id f (fst r), snd r)"
    and "(case opr w of None \<Rightarrow> None | Some (res, w) \<Rightarrow> (case res of Inl err \<Rightarrow> if err = Would_block then g opr wait (wait w) else Some (Inl err, w)
        | Inr r \<Rightarrow> Some (Inr r, w))) = Some r"
  then show "io_poll_map opr f wait w = Some (map_sum id f (fst r), snd r)"
    by (subst io_poll_map.simps) (auto split: option.splits sum.splits if_splits)
qed

text \<open>The result is mapped once, after the last attempt.\<close>

lemma io_poll_map_eq: "io_poll_map opr f wait w = map_option (\<lambda>r. (map_sum id f (fst r), snd r)) (io_poll opr wait w)"
proof (cases "io_poll opr wait w")
  case None
  then show ?thesis using io_poll_map_Some[of opr f wait w] by (cases "io_poll_map opr f wait w") auto
qed (simp add: io_poll_Some)

context byte_sink
begin

lemma blocked_sent:
  assumes "\<And>w err w'. opr w = Some (Inl err, w') \<Longrightarrow> sent w' = sent w" "attempts opr wait k w = Some v"
  shows "sent v = sent w"
  using assms(2)
proof (induction k arbitrary: w)
  case (Suc k)
  then obtain w' where "opr w = Some (Inl Would_block, w')" "attempts opr wait k (wait w') = Some v"
    by (auto split: option.splits sum.splits if_splits)
  with Suc.IH[of "wait w'"] assms(1)[of w] show ?case by (simp add: sent_wait)
qed simp

definition wrote :: "'w \<Rightarrow> u8 list \<Rightarrow> unit io \<times> 'w \<Rightarrow> bool" where
  "wrote w buf r \<longleftrightarrow> (\<exists>n\<le>length buf. sent (snd r) = sent w @ take n buf \<and> (fst r = Inr () \<longrightarrow> n = length buf))"

lemma wrote_step:
  assumes rec: "\<And>buf w r. g buf w = Some r \<Longrightarrow> wrote w buf r"
    and body: "(if buf = [] then Some (Inr (), w)
      else case wr buf w of
        (Inr n, w) \<Rightarrow> if n = 0 then Some (Inl Write_zero, w) else g (drop n buf) w
      | (Inl err, w) \<Rightarrow> if err = Interrupted then g buf w else Some (Inl err, w)) = Some r"
  shows "wrote w buf r"
proof (cases "buf = []")
  case True
  then show ?thesis using body by (auto simp: wrote_def)
next
  case False
  obtain res v where v: "wr buf w = (res, v)" by (cases "wr buf w")
  show ?thesis
  proof (cases res)
    case (Inl e)
    then have same: "sent v = sent w" using write_err v by simp
    show ?thesis
    proof (cases "e = Interrupted")
      case True
      then have "wrote v buf r" using rec[of buf v r] body False v Inl by simp
      then show ?thesis using same by (simp add: wrote_def)
    next
      case no: False
      then have "r = (Inl e, v)" using body False v Inl by simp
      then show ?thesis using same by (auto simp: wrote_def)
    qed
  next
    case (Inr n)
    then have n: "n \<le> length buf" "sent v = sent w @ take n buf" using write_ok v by simp_all
    show ?thesis
    proof (cases "n = 0")
      case True
      then have "r = (Inl Write_zero, v)" using body False v Inr by simp
      then show ?thesis using n True by (auto simp: wrote_def)
    next
      case pos: False
      then have "wrote v (drop n buf) r" using rec[of "drop n buf" v r] body False v Inr by simp
      then obtain k where "k \<le> length buf - n" "sent (snd r) = sent v @ take k (drop n buf)"
        "fst r = Inr () \<longrightarrow> k = length buf - n" by (auto simp: wrote_def)
      then show ?thesis unfolding wrote_def using n by (intro exI[of _ "n + k"]) (auto simp: take_add)
    qed
  qed
qed

lemma write_all_prefix:
  assumes "std_write_all wr buf w = Some (res, w')"
  shows "\<exists>n\<le>length buf. sent w' = sent w @ take n buf \<and> (res = Inr () \<longrightarrow> n = length buf)"
proof -
  have "wr = wr \<longrightarrow> wrote w buf (res, w')"
  proof (rule std_write_all.raw_induct[where P = "\<lambda>f buf w r. f = wr \<longrightarrow> wrote w buf r", OF _ assms], rule impI)
    fix g f buf w r
    assume rec: "\<And>f buf w r. g f buf w = Some r \<Longrightarrow> f = wr \<longrightarrow> wrote w buf r" and "f = wr"
      and body: "(if buf = [] then Some (Inr (), w)
        else case f buf w of
          (Inr n, w) \<Rightarrow> if n = 0 then Some (Inl Write_zero, w) else g f (drop n buf) w
        | (Inl err, w) \<Rightarrow> if err = Interrupted then g f buf w else Some (Inl err, w)) = Some r"
    then show "wrote w buf r" using wrote_step[of "g wr" buf w r] by blast
  qed
  then show ?thesis by (simp add: wrote_def)
qed

end

context byte_source
begin

definition fetched :: "u8 list \<Rightarrow> nat \<Rightarrow> 'w \<Rightarrow> u8 list io \<times> 'w \<Rightarrow> bool" where
  "fetched got len w r \<longleftrightarrow> (\<exists>bs. inbox w = bs @ inbox (snd r) \<and> (\<forall>out. fst r = Inr out \<longrightarrow> out = got @ bs \<and> length bs = len))"

lemma fetched_step:
  assumes rec: "\<And>got len w r. g got len w = Some r \<Longrightarrow> fetched got len w r"
    and body: "(if len = 0 then Some (Inr got, w)
      else case rd len w of
        (Inr bs, w) \<Rightarrow> if bs = [] then Some (Inl Unexpected_eof, w) else g (got @ bs) (len - length bs) w
      | (Inl err, w) \<Rightarrow> if err = Interrupted then g got len w else Some (Inl err, w)) = Some r"
  shows "fetched got len w r"
proof (cases "len = 0")
  case True
  then show ?thesis using body by (auto simp: fetched_def)
next
  case False
  obtain res v where v: "rd len w = (res, v)" by (cases "rd len w")
  show ?thesis
  proof (cases res)
    case (Inl e)
    then have same: "inbox v = inbox w" using read_err v by simp
    show ?thesis
    proof (cases "e = Interrupted")
      case True
      then have "fetched got len v r" using rec[of got len v r] body False v Inl by simp
      then show ?thesis using same by (simp add: fetched_def)
    next
      case no: False
      then have "r = (Inl e, v)" using body False v Inl by simp
      then show ?thesis using same by (auto simp: fetched_def)
    qed
  next
    case (Inr bs)
    then have n: "length bs \<le> len" "inbox w = bs @ inbox v" using read_ok v by simp_all
    show ?thesis
    proof (cases "bs = []")
      case True
      then have "r = (Inl Unexpected_eof, v)" using body False v Inr by simp
      then show ?thesis using n True by (auto simp: fetched_def)
    next
      case some: False
      then have "fetched (got @ bs) (len - length bs) v r" using rec[of "got @ bs" "len - length bs" v r] body False v Inr by simp
      then obtain cs where "inbox v = cs @ inbox (snd r)" "\<forall>out. fst r = Inr out \<longrightarrow> out = got @ bs @ cs \<and> length cs = len - length bs"
        by (auto simp: fetched_def)
      then show ?thesis unfolding fetched_def using n by (intro exI[of _ "bs @ cs"]) auto
    qed
  qed
qed

lemma read_exact_fetches:
  assumes "std_read_exact rd got len w = Some r"
  shows "fetched got len w r"
proof -
  have "rd = rd \<longrightarrow> fetched got len w r"
  proof (rule std_read_exact.raw_induct[where P = "\<lambda>f got len w r. f = rd \<longrightarrow> fetched got len w r", OF _ assms], rule impI)
    fix g f got len w r
    assume rec: "\<And>f got len w r. g f got len w = Some r \<Longrightarrow> f = rd \<longrightarrow> fetched got len w r" and "f = rd"
      and body: "(if len = 0 then Some (Inr got, w)
        else case f len w of
          (Inr bs, w) \<Rightarrow> if bs = [] then Some (Inl Unexpected_eof, w) else g f (got @ bs) (len - length bs) w
        | (Inl err, w) \<Rightarrow> if err = Interrupted then g f got len w else Some (Inl err, w)) = Some r"
    then show "fetched got len w r" using fetched_step[of "g rd" len got w r] by blast
  qed
  then show ?thesis by simp
qed

end

section \<open>Properties\<close>

text \<open>
  \<open>write\<close> on a socket.  When the socket accepts bytes after any number of attempts that blocked,
  \<open>write\<close> returns with the result of that attempt, and exactly the bytes it reports were sent, once.
\<close>

lemma tcp_write_sends:
  assumes "byte_sink wr wait sent" and "attempts (\<lambda>w. Some (wr buf w)) wait k w = Some v" and "wr buf v = (Inr n, v')"
  shows "TcpStreamWriter_write wr wait buf w = Some (Inr n, v') \<and> n \<le> length buf \<and> sent v' = sent w @ take n buf"
proof -
  have "sent v = sent w"
    by (rule byte_sink.blocked_sent[OF assms(1) _ assms(2)]) (auto dest: byte_sink.write_err[OF assms(1)])
  then show ?thesis using io_poll_attempts[OF assms(2)] assms(3) byte_sink.write_ok[OF assms(1,3)]
    by (simp add: TcpStreamWriter_write_def)
qed

text \<open>
  C30: \<open>write_all\<close> sends bytes twice.  If the standard library's \<open>write_all\<close> blocks after \<open>n\<close> bytes, it
  returns \<open>WouldBlock\<close>, and \<open>io_poll!\<close> starts it again from the beginning of the buffer: when that
  attempt succeeds, \<open>write_all\<close> reports success, and the peer gets the first \<open>n\<close> bytes, then the whole
  buffer.
\<close>

theorem write_all_resends:
  assumes "byte_sink wr wait sent" and "std_write_all wr buf w = Some (Inl Would_block, w1)" and "sent w1 = sent w @ take n buf"
    and "std_write_all wr buf (wait w1) = Some (Inr (), w2)"
  shows "TcpStreamWriter_write_all wr wait buf w = Some (Inr (), w2) \<and> sent w2 = sent w @ take n buf @ buf"
proof -
  have "attempts (std_write_all wr buf) wait 1 w = Some (wait w1)" using assms(2) by simp
  from io_poll_attempts[OF this assms(4)] have "TcpStreamWriter_write_all wr wait buf w = Some (Inr (), w2)"
    by (simp add: TcpStreamWriter_write_all_def)
  moreover have "sent w2 = sent (wait w1) @ buf" using byte_sink.write_all_prefix[OF assms(1,4)] by auto
  ultimately show ?thesis using assms(3) byte_sink.sent_wait[OF assms(1)] by simp
qed

text \<open>
  \<open>read_exact\<close> loses bytes.  If the standard library's \<open>read_exact\<close> blocks after it has read some
  bytes, these are gone: \<open>io_poll!\<close> starts it again, and the buffer of a successful call holds the bytes
  that follow in the stream.
\<close>

lemma read_exact_loses:
  assumes "byte_source rd wait inbox" and "std_read_exact rd [] len w = Some (Inl Would_block, w1)" and "inbox w = lost @ inbox w1"
    and "std_read_exact rd [] len (wait w1) = Some (Inr out, w2)"
  shows "TcpStreamReader_read_exact rd wait len w = Some (Inr out, w2) \<and> length out = len \<and>
    (\<exists>more. inbox w @ more = lost @ out @ inbox w2)"
proof -
  have "attempts (std_read_exact rd [] len) wait 1 w = Some (wait w1)" using assms(2) by simp
  from io_poll_attempts[OF this assms(4)] have "TcpStreamReader_read_exact rd wait len w = Some (Inr out, w2)"
    by (simp add: TcpStreamReader_read_exact_def)
  moreover have "inbox (wait w1) = out @ inbox w2" "length out = len"
    using byte_source.read_exact_fetches[OF assms(1,4)] by (auto simp: byte_source.fetched_def[OF assms(1)])
  moreover obtain more where "inbox (wait w1) = inbox w1 @ more" using byte_source.inbox_wait[OF assms(1)] by blast
  ultimately show ?thesis using assms(3) by auto
qed

section \<open>A bounded pipe\<close>

text \<open>A socket with a send buffer of which three bytes get free, or that receives three bytes, during a wait.\<close>

fun pipe_write :: "u8 list \<Rightarrow> nat \<times> u8 list \<Rightarrow> nat io \<times> (nat \<times> u8 list)" where
  "pipe_write buf (cap, out) =
    (if cap = 0 then (Inl Would_block, (cap, out))
     else (Inr (min cap (length buf)), (cap - min cap (length buf), out @ take (min cap (length buf)) buf)))"

definition pipe_drain :: "nat \<times> u8 list \<Rightarrow> nat \<times> u8 list" where
  "pipe_drain w = (fst w + 3, snd w)"

fun pipe_read :: "nat \<Rightarrow> u8 list \<times> u8 list \<Rightarrow> u8 list io \<times> (u8 list \<times> u8 list)" where
  "pipe_read len (avail, later) =
    (if avail = [] then (Inl Would_block, (avail, later)) else (Inr (take len avail), (drop len avail, later)))"

definition pipe_fill :: "u8 list \<times> u8 list \<Rightarrow> u8 list \<times> u8 list" where
  "pipe_fill w = (fst w @ take 3 (snd w), drop 3 (snd w))"

interpretation sink: byte_sink pipe_write pipe_drain snd
  by unfold_locales (auto simp: pipe_drain_def split: if_splits)

interpretation source: byte_source pipe_read pipe_fill fst
  by unfold_locales (auto simp: pipe_fill_def split: if_splits)

lemma tcp_write_sends_example:
  "TcpStreamWriter_write pipe_write pipe_drain [7, 8, 9, 10] (0, [1]) = Some (Inr 3, (0, [1, 7, 8, 9]))"
  using tcp_write_sends[OF sink.byte_sink_axioms, of "[7, 8, 9, 10]" 1 "(0, [1])" "(3, [1])" 3 "(0, [1, 7, 8, 9])"]
  by (simp add: pipe_drain_def)

lemma write_all_blocks: "std_write_all pipe_write [7, 8, 9] (2, []) = Some (Inl Would_block, (0, [7, 8]))"
  by (simp add: std_write_all.simps)

lemma write_all_again: "std_write_all pipe_write [7, 8, 9] (3, [7, 8]) = Some (Inr (), (0, [7, 8, 7, 8, 9]))"
  by (simp add: std_write_all.simps)

theorem write_all_resends_witness:
  "TcpStreamWriter_write_all pipe_write pipe_drain [7, 8, 9] (2, []) = Some (Inr (), (0, [7, 8, 7, 8, 9]))"
  using write_all_resends[OF sink.byte_sink_axioms write_all_blocks, of 2 "(0, [7, 8, 7, 8, 9])"] write_all_again
  by (simp add: pipe_drain_def)

lemma read_exact_blocks: "std_read_exact pipe_read [] 3 ([1, 2], [3, 4, 5, 6]) = Some (Inl Would_block, ([], [3, 4, 5, 6]))"
  by (simp add: std_read_exact.simps)

lemma read_exact_again: "std_read_exact pipe_read [] 3 ([3, 4, 5], [6]) = Some (Inr [3, 4, 5], ([], [6]))"
  by (simp add: std_read_exact.simps)

lemma read_exact_loses_example:
  "TcpStreamReader_read_exact pipe_read pipe_fill 3 ([1, 2], [3, 4, 5, 6]) = Some (Inr [3, 4, 5], ([], [6]))"
  using read_exact_loses[OF source.byte_source_axioms read_exact_blocks, of "[1, 2]" "[3, 4, 5]" "([], [6])"] read_exact_again
  by (simp add: pipe_fill_def)

end
