(* ===== verification/Lifecycle.thy ===== *)
theory Lifecycle
  imports Startup
begin

text \<open>
  The life of a whole runtime on its memory: \<open>run_with\<close> (\<open>runtime.rs\<close>) from the point where
  \<open>WorkerManager::wait\<close> has returned to its end, with the worker threads in \<open>main_loop\<close> (\<open>worker.rs\<close>) and
  \<open>Task::poll\<close> (\<open>task.rs\<close>), reactor threads that batch, and other threads that own wakers.

  One step is one call of an operation of the sequential model (theories \<open>Task\<close> to \<open>Runtime\<close>) on the
  memory \<open>rt\<close>, or one access of the epoch word; the finer interleavings inside an operation are the
  subject of \<open>Task_Protocol\<close> and \<open>Scheduler\<close>.  A step whose operation faults sets \<open>l_fault\<close>.  Threads
  \<open>0\<close> to \<open>n - 1\<close> are the workers.  What a user future does while it is polled is the environment's
  choice (\<open>call\<close>), and so is how long \<open>wait_next_epoch\<close> blocks.

  What Rust's types ensure is a guard (\<open>life_env\<close>): a call through a waker uses a live one, the allocator
  returns unused addresses.  Three guards are obligations of the user: wakers are not invoked on worker
  threads nor after the tear-down (\<open>wake_on_worker_faults\<close> and \<open>wake_after_shutdown_faults\<close> in
  \<open>Worker_Manager\<close> say why), and the callback \<open>on_shutdown\<close> ends the reactor threads.  \<open>l_wakers\<close>
  records which waker points to which task; \<open>Waker::wake\<close> is \<open>Wake\<close> and then \<open>Drop_waker\<close>.  The wakers that
  the destructor of a future drops are dropped by \<open>Drop_waker\<close> steps of their own, before or after the step that
  drops the future; \<open>WorkerGuard_drop_frees\<close> in \<open>Worker_Manager\<close> is about destructors that drop them on the spot.
\<close>

section \<open>Definitions\<close>

datatype 'u fut = Shutdown | User 'u

datatype life_pc =
    W_drain          \<comment> \<open>worker.rs 108\<close>
  | W_poll addr      \<comment> \<open>task.rs 140-146\<close>
  | W_run addr       \<comment> \<open>task.rs 150: the future runs\<close>
  | W_pending addr   \<comment> \<open>task.rs 151-170\<close>
  | W_ready addr     \<comment> \<open>task.rs 171-179\<close>
  | W_chk            \<comment> \<open>worker.rs 112 and 153\<close>
  | W_exited
  | W_inactive       \<comment> \<open>worker.rs 119-120\<close>
  | W_head u32       \<comment> \<open>worker.rs 122\<close>
  | W_steal nat u32  \<comment> \<open>worker.rs 124: tries left\<close>
  | W_recheck u32    \<comment> \<open>worker.rs 133\<close>
  | W_wait u32       \<comment> \<open>worker.rs 136\<close>
  | W_reload u32     \<comment> \<open>worker.rs 140-142\<close>
  | W_local u32      \<comment> \<open>worker.rs 143\<close>
  | W_active addr    \<comment> \<open>worker.rs 151\<close>

datatype main_pc =
    M_on_start       \<comment> \<open>runtime.rs 39\<close>
  | M_run            \<comment> \<open>runtime.rs 40\<close>
  | M_join nat       \<comment> \<open>runtime.rs 41: the next thread to join\<close>
  | M_on_shutdown    \<comment> \<open>runtime.rs 42\<close>
  | M_drop           \<comment> \<open>runtime.rs 43\<close>
  | M_on_exit        \<comment> \<open>runtime.rs 44\<close>
  | M_end

record 'u life =
  l_rt :: "'u fut rt"
  l_pcs :: "nat \<Rightarrow> life_pc"
  l_main :: main_pc
  l_wakers :: "nat \<rightharpoonup> addr"
  l_fault :: "fault option"

subsection \<open>\<open>Task::poll\<close>\<close>

definition poll_begin :: "addr \<Rightarrow> 'f rt \<Rightarrow> 'f rt res" where
  "poll_begin task s = modify_task task (\<lambda>t. t\<lparr>t_status := t_status t AND NOT NOTIFIED\<rparr>) s"

text \<open>\<open>fn_poll\<close>: the future inside the task, and what \<open>poll\<close> leaves of it.\<close>

definition fn_poll :: "addr \<Rightarrow> 'f rt \<Rightarrow> 'f res" where
  "fn_poll task s = bind_r (deref task s) (\<lambda>ob. case ob of TaskInner t f \<Rightarrow> Inr f | _ \<Rightarrow> Inl Type_confusion)"

definition set_future :: "addr \<Rightarrow> 'f \<Rightarrow> 'f rt \<Rightarrow> 'f rt res" where
  "set_future task f s =
     bind_r (deref task s) (\<lambda>ob. case ob of TaskInner t _ \<Rightarrow> Inr (store task (TaskInner t f) s) | _ \<Rightarrow> Inl Type_confusion)"

text \<open>The future returned \<open>Pending\<close>: whether \<open>poll\<close> returns, or polls again.\<close>

definition poll_pending :: "addr \<Rightarrow> 'f rt \<Rightarrow> (bool \<times> 'f rt) res" where
  "poll_pending task s =
     bind_r (deref_task task s) (\<lambda>t.
       if t_status t = MUTED then bind_r (modify_task task (\<lambda>t. t\<lparr>t_status := 0\<rparr>) s) (\<lambda>s. Inr (True, s))
       else bind_r (modify_task task (\<lambda>t. t\<lparr>t_status := MUTED\<rparr>) s) (\<lambda>s. Inr (False, s)))"

definition poll_ready :: "addr \<Rightarrow> 'f rt \<Rightarrow> 'f rt res" where
  "poll_ready task s =
     bind_r (modify_task task (\<lambda>t. t\<lparr>t_status := t_status t OR DROPPED\<rparr>) s) (\<lambda>s.
     bind_r (fn_drop_in_place no_wakers task s) (\<lambda>s. rc_dec task s))"

subsection \<open>The epoch word in memory\<close>

definition set_inactive_at :: "addr \<Rightarrow> 'f rt \<Rightarrow> (u32 \<times> 'f rt) res" where
  "set_inactive_at a s =
     bind_r (deref_epoch a s) (\<lambda>e. bind_r (set_inactive e) (\<lambda>(e', r). Inr (r, store a (Obj_epoch e') s)))"

definition set_active_at :: "addr \<Rightarrow> 'f rt \<Rightarrow> 'f rt res" where
  "set_active_at a s =
     bind_r (deref_epoch a s) (\<lambda>e. bind_r (set_active e) (\<lambda>(e', wake, r).
       let s = store a (Obj_epoch e') s in Inr (if wake then s\<lparr>events := events s @ [Unpark_all a]\<rparr> else s)))"

definition get_status_at :: "addr \<Rightarrow> 'f rt \<Rightarrow> u32 res" where
  "get_status_at a s = bind_r (deref_epoch a s) (\<lambda>e. Inr (get_status e))"

subsection \<open>The workers\<close>

text \<open>What a user future does while it runs; \<open>C_return\<close> ends its \<open>poll\<close>.\<close>

datatype 'u call =
    C_return bool | C_update 'u | C_spawn addr 'u | C_defer addr 'u | C_rng | C_shutdown_async "addr list"
  | C_clone nat | C_wake

definition l_go :: "nat \<Rightarrow> life_pc \<Rightarrow> 'u life \<Rightarrow> 'u life" where
  "l_go k pc L = L\<lparr>l_pcs := (l_pcs L)(k := pc)\<rparr>"

definition l_do :: "'a res \<Rightarrow> ('a \<Rightarrow> 'u life) \<Rightarrow> 'u life \<Rightarrow> 'u life" where
  "l_do r f L = (case r of Inl e \<Rightarrow> L\<lparr>l_fault := Some e\<rparr> | Inr x \<Rightarrow> f x)"

definition on_rt :: "('u fut rt \<Rightarrow> 'u fut rt res) \<Rightarrow> 'u life \<Rightarrow> 'u life" where
  "on_rt g L = l_do (g (l_rt L)) (\<lambda>s. L\<lparr>l_rt := s\<rparr>) L"

definition pop_own_task :: "nat \<Rightarrow> life_pc \<Rightarrow> (addr \<Rightarrow> life_pc) \<Rightarrow> 'u life \<Rightarrow> 'u life" where
  "pop_own_task k none some L =
     l_do (bind_r (Worker_get k (l_rt L)) (\<lambda>(a, w). pop_queue a (l_rt L))) (\<lambda>(r, s).
       l_go k (case r of None \<Rightarrow> none | Some t \<Rightarrow> some t) (L\<lparr>l_rt := s\<rparr>)) L"

fun call_step :: "nat \<Rightarrow> addr \<Rightarrow> 'u call \<Rightarrow> 'u life \<Rightarrow> 'u life" where
  "call_step k t (C_return ready) L = l_go k (if ready then W_ready t else W_pending t) L"
| "call_step k t (C_update u) L = on_rt (set_future t (User u)) L"
| "call_step k t (C_spawn p u) L = on_rt (MTRuntime_spawn p (User u) k) L"
| "call_step k t (C_defer p u) L = on_rt (MTRuntime_defer p (User u) k) L"
| "call_step k t C_rng L = l_do (MTRuntime_rng_gen k (l_rt L)) (\<lambda>(x, s). L\<lparr>l_rt := s\<rparr>) L"
| "call_step k t (C_shutdown_async ps) L = on_rt (shutdown_async Shutdown ps) L"
| "call_step k t (C_clone w) L =
     l_do (fn_clone t (l_rt L)) (\<lambda>s. L\<lparr>l_rt := s, l_wakers := (l_wakers L)(w \<mapsto> t)\<rparr>) L"
| "call_step k t C_wake L = on_rt (fn_wake_by_ref k t) L"

text \<open>
  One step of worker thread \<open>k\<close>: \<open>ps\<close> are results of the allocator, \<open>c\<close> is what a user future does.
\<close>

definition life_work :: "nat \<Rightarrow> addr list \<Rightarrow> 'u call \<Rightarrow> 'u life \<Rightarrow> 'u life option" where
  "life_work k ps c L =
    (let s = l_rt L in
     case l_pcs L k of
       W_drain \<Rightarrow> Some (pop_own_task k W_inactive W_poll L)
     | W_poll t \<Rightarrow> Some (l_do (poll_begin t s) (\<lambda>s. l_go k (W_run t) (L\<lparr>l_rt := s\<rparr>)) L)
     | W_run t \<Rightarrow>
         Some (l_do (fn_poll t s) (\<lambda>f.
           case f of
             Shutdown \<Rightarrow> l_do (Shutdown_poll Shutdown ps k s) (\<lambda>s. l_go k (W_ready t) (L\<lparr>l_rt := s\<rparr>)) L
           | User u \<Rightarrow> call_step k t c L) L)
     | W_pending t \<Rightarrow>
         Some (l_do (poll_pending t s) (\<lambda>(ret, s). l_go k (if ret then W_chk else W_run t) (L\<lparr>l_rt := s\<rparr>)) L)
     | W_ready t \<Rightarrow> Some (l_do (poll_ready t s) (\<lambda>s. l_go k W_chk (L\<lparr>l_rt := s\<rparr>)) L)
     | W_chk \<Rightarrow> Some (l_do (Worker_get k s) (\<lambda>(a, w). l_go k (if w_shutdown w then W_exited else W_drain) L) L)
     | W_exited \<Rightarrow> None
     | W_inactive \<Rightarrow>
         Some (l_do (bind_r (Worker_get k s) (\<lambda>(a, w). set_inactive_at (w_epoch w) s)) (\<lambda>(st, s).
           l_go k (W_head st) (L\<lparr>l_rt := s\<rparr>)) L)
     | W_head st \<Rightarrow>
         Some (l_do (Worker_get k s) (\<lambda>(a, w).
           l_go k (if active_count st \<noteq> 0 then W_steal (unat (4 * n_workers w)) st else W_recheck st) L) L)
     | W_steal j st \<Rightarrow>
         Some (if j = 0 then l_go k (W_reload st) L
           else l_do (bind_r (Worker_get k s) (\<lambda>(a, w). try_steal a s)) (\<lambda>(r, s).
             l_go k (case r of None \<Rightarrow> W_steal (j - 1) st | Some t \<Rightarrow> W_active t) (L\<lparr>l_rt := s\<rparr>)) L)
     | W_recheck st \<Rightarrow> Some (pop_own_task k (W_wait st) W_active L)
     | W_wait st \<Rightarrow> Some (l_go k (W_reload st) L)
     | W_reload st \<Rightarrow>
         Some (l_do (bind_r (Worker_get k s) (\<lambda>(a, w). get_status_at (w_epoch w) s)) (\<lambda>new.
           l_go k (if epoch new > epoch st then W_local new else W_head new) L) L)
     | W_local new \<Rightarrow> Some (pop_own_task k (W_head new) W_active L)
     | W_active t \<Rightarrow>
         Some (l_do (bind_r (Worker_get k s) (\<lambda>(a, w). set_active_at (w_epoch w) s)) (\<lambda>s.
           l_go k (W_poll t) (L\<lparr>l_rt := s\<rparr>)) L))"

subsection \<open>The main thread and all others\<close>

text \<open>The second half of \<open>run_with\<close>; \<open>None\<close> also stands for a tear-down that does not end.\<close>

definition life_main :: "nat \<Rightarrow> addr \<Rightarrow> 'u \<Rightarrow> 'u life \<Rightarrow> 'u life option" where
  "life_main n p async_main L =
    (let go = (\<lambda>pc L. L\<lparr>l_main := pc\<rparr>) in
     case l_main L of
       M_on_start \<Rightarrow> Some (go M_run L)
     | M_run \<Rightarrow> Some (l_do (WorkerGuard_run p (User async_main) (l_rt L)) (\<lambda>s. go (M_join 0) (L\<lparr>l_rt := s\<rparr>)) L)
     | M_join k \<Rightarrow>
         (if k = n then Some (go M_on_shutdown L)
          else if l_pcs L k = W_exited then Some (go (M_join (Suc k)) L) else None)
     | M_on_shutdown \<Rightarrow> Some (go M_drop L)
     | M_drop \<Rightarrow> map_option (\<lambda>r. l_do r (\<lambda>s. go M_on_exit (L\<lparr>l_rt := s\<rparr>)) L) (WorkerGuard_drop no_wakers (l_rt L))
     | M_on_exit \<Rightarrow> Some (go M_end L)
     | M_end \<Rightarrow> None)"

datatype 'u llabel =
    Work nat "addr list" "'u call"
  | Main_thread addr 'u
  | Batch_new nat addr | Batch_push nat | Batch_drop nat
  | Wake nat nat | Clone nat nat | Drop_waker nat

fun life_act :: "nat \<Rightarrow> 'u llabel \<Rightarrow> 'u life \<Rightarrow> 'u life option" where
  "life_act n (Work k ps c) L = life_work k ps c L"
| "life_act n (Main_thread p u) L = life_main n p u L"
| "life_act n (Batch_new i p) L = Some (on_rt (BatchGuard_new p i) L)"
| "life_act n (Batch_push i) L = Some (on_rt (push_batch i) L)"
| "life_act n (Batch_drop i) L = Some (on_rt (BatchGuard_drop i) L)"
| "life_act n (Wake i w) L = map_option (\<lambda>t. on_rt (fn_wake_by_ref i t) L) (l_wakers L w)"
| "life_act n (Clone w v) L =
     map_option (\<lambda>t. l_do (fn_clone t (l_rt L)) (\<lambda>s. L\<lparr>l_rt := s, l_wakers := (l_wakers L)(v \<mapsto> t)\<rparr>) L) (l_wakers L w)"
| "life_act n (Drop_waker w) L =
     map_option (\<lambda>t. l_do (fn_drop t (l_rt L)) (\<lambda>s. L\<lparr>l_rt := s, l_wakers := (l_wakers L)(w := None)\<rparr>) L) (l_wakers L w)"

subsection \<open>The environment\<close>

definition fresh_for :: "'f rt \<Rightarrow> addr \<Rightarrow> bool" where
  "fresh_for s p \<longleftrightarrow> p \<noteq> null \<and> alloc_ok p (mem s)"

definition fresh_list :: "nat \<Rightarrow> 'f rt \<Rightarrow> addr list \<Rightarrow> bool" where
  "fresh_list n s ps \<longleftrightarrow> length ps = n \<and> distinct ps \<and> list_all (fresh_for s) ps"

text \<open>\<open>2 ^ 64\<close> wakers do not fit into memory.\<close>

definition fresh_waker :: "'u life \<Rightarrow> nat \<Rightarrow> bool" where
  "fresh_waker L w \<longleftrightarrow> l_wakers L w = None \<and> card (dom (l_wakers L)) + 2 < 2 ^ 64"

fun call_env :: "nat \<Rightarrow> 'u call \<Rightarrow> 'u life \<Rightarrow> bool" where
  "call_env n (C_spawn p u) L = fresh_for (l_rt L) p"
| "call_env n (C_defer p u) L = fresh_for (l_rt L) p"
| "call_env n (C_shutdown_async ps) L = fresh_list n (l_rt L) ps"
| "call_env n (C_clone w) L = fresh_waker L w"
| "call_env n _ L = True"

definition torn_down :: "main_pc \<Rightarrow> bool" where
  "torn_down pc \<longleftrightarrow> pc = M_on_exit \<or> pc = M_end"

fun life_env :: "nat \<Rightarrow> 'u llabel \<Rightarrow> 'u life \<Rightarrow> bool" where
  "life_env n (Work k ps c) L \<longleftrightarrow> k < n \<and> fresh_list n (l_rt L) ps \<and> call_env n c L"
| "life_env n (Main_thread p u) L \<longleftrightarrow> fresh_for (l_rt L) p \<and>
     (l_main L = M_on_shutdown \<longrightarrow> (\<forall>i\<ge>n. LOCAL (l_rt L) i = null))"
| "life_env n (Batch_new i p) L \<longleftrightarrow> n \<le> i \<and> LOCAL (l_rt L) i = null \<and> fresh_for (l_rt L) p \<and>
     l_main L \<noteq> M_drop \<and> \<not> torn_down (l_main L)"
| "life_env n (Batch_push i) L \<longleftrightarrow> n \<le> i \<and> LOCAL (l_rt L) i \<noteq> null"
| "life_env n (Batch_drop i) L \<longleftrightarrow> n \<le> i \<and> LOCAL (l_rt L) i \<noteq> null"
| "life_env n (Wake i w) L \<longleftrightarrow> n \<le> i \<and> \<not> torn_down (l_main L)"
| "life_env n (Clone w v) L \<longleftrightarrow> fresh_waker L v"
| "life_env n (Drop_waker w) L \<longleftrightarrow> True"

definition life_step :: "nat \<Rightarrow> 'u life \<Rightarrow> 'u life \<Rightarrow> bool" where
  "life_step n L M \<longleftrightarrow> l_fault L = None \<and> (\<exists>a. life_env n a L \<and> life_act n a L = Some M)"

text \<open>The start: any end of the start of \<open>n\<close> workers, and no batches yet.\<close>

definition life_init :: "'l parking_lot \<Rightarrow> u32 \<Rightarrow> 'u life \<Rightarrow> bool" where
  "life_init P n L \<longleftrightarrow> 0 < n \<and>
     (\<exists>st :: ('u fut, 'l) startup. start_reach P n st \<and> m_at st = M_ready \<and> l_rt L = st_rt st) \<and>
     (\<forall>i\<ge>unat n. LOCAL (l_rt L) i = null) \<and> l_pcs L = (\<lambda>_. W_drain) \<and> l_main L = M_on_start \<and>
     l_wakers L = Map.empty \<and> l_fault L = None"

end
