(* ===== verification/Lifecycle_Invariant.thy ===== *)
theory Lifecycle_Invariant
  imports Lifecycle
begin

text \<open>
  The invariant of the machine of theory \<open>Lifecycle\<close>, and that every step keeps it.

  Every task the runtime has made is of a \<open>kind\<close>: \<open>Sched\<close> (in exactly one queue or batch), \<open>Held\<close> (by
  exactly one worker), \<open>Idle\<close> (waiting for a wake-up) or \<open>Done\<close> (its future is dropped, and wakers keep
  the memory).  The kind determines the status byte, the count and whether the future is live, and the
  memory holds the blocks of the runtime, the batches and these tasks, and nothing else that was not
  there before (\<open>base\<close>).
\<close>

section \<open>The invariant\<close>

datatype kind = Absent | Sched | Held | Idle | Done

definition refs :: "(nat \<rightharpoonup> addr) \<Rightarrow> addr \<Rightarrow> nat" where
  "refs W a = card {w. W w = Some a}"

fun kind_status :: "kind \<Rightarrow> u8 set" where
  "kind_status Sched = {3}"
| "kind_status Held = {1, 3}"
| "kind_status Idle = {0}"
| "kind_status _ = {}"

fun kind_ok :: "nat \<Rightarrow> nat \<Rightarrow> (bool \<times> u8 \<times> usize \<times> u32) option \<Rightarrow> kind \<Rightarrow> bool" where
  "kind_ok n r v Absent \<longleftrightarrow> r = 0"
| "kind_ok n r v Done \<longleftrightarrow> (\<exists>st c w. v = Some (False, st, c, w) \<and> st AND DROPPED \<noteq> 0 \<and> unat c = r \<and> 0 < r)"
| "kind_ok n r v k \<longleftrightarrow> (\<exists>st c w. v = Some (True, st, c, w) \<and> st \<in> kind_status k \<and> unat c = Suc r \<and> unat w < n)"

definition life_held :: "life_pc \<Rightarrow> addr option" where
  "life_held pc =
     (case pc of W_poll t \<Rightarrow> Some t | W_run t \<Rightarrow> Some t | W_pending t \<Rightarrow> Some t | W_ready t \<Rightarrow> Some t
      | W_active t \<Rightarrow> Some t | _ \<Rightarrow> None)"

definition active :: "life_pc \<Rightarrow> bool" where
  "active pc =
     (case pc of W_head st \<Rightarrow> False | W_steal j st \<Rightarrow> False | W_recheck st \<Rightarrow> False | W_wait st \<Rightarrow> False
      | W_reload st \<Rightarrow> False | W_local st \<Rightarrow> False | W_active t \<Rightarrow> False | _ \<Rightarrow> True)"

text \<open>With one worker nobody else can be active, so the worker never tries to steal.\<close>

definition life_pc_ok :: "nat \<Rightarrow> life_pc \<Rightarrow> bool" where
  "life_pc_ok n pc \<longleftrightarrow> (n = 1 \<longrightarrow>
     (case pc of W_head st \<Rightarrow> active_count st = 0 | W_local st \<Rightarrow> active_count st = 0 | W_steal j st \<Rightarrow> False | _ \<Rightarrow> True))"

definition own :: "nat \<Rightarrow> 'f rt \<Rightarrow> addr \<Rightarrow> addr list \<Rightarrow> (addr \<Rightarrow> kind) \<Rightarrow> addr set" where
  "own n s ep wps K = {GLOBAL s, ep} \<union> set wps \<union> {a. K a \<noteq> Absent} \<union> {LOCAL s i | i. n \<le> i \<and> LOCAL s i \<noteq> null}"

text \<open>The batches \<open>bs i\<close> of the threads.\<close>

definition batches :: "nat \<Rightarrow> 'f rt \<Rightarrow> (tid \<Rightarrow> addr list list) \<Rightarrow> bool" where
  "batches n s bs \<longleftrightarrow>
     (\<forall>i. if n \<le> i \<and> LOCAL s i \<noteq> null then batch s i (LOCAL s i) (bs i) \<and> length (bs i) = n else bs i = []) \<and>
     (\<forall>i j. n \<le> i \<and> n \<le> j \<and> LOCAL s i = LOCAL s j \<and> LOCAL s i \<noteq> null \<longrightarrow> i = j)"

definition tasks_ok :: "nat \<Rightarrow> 'f rt \<Rightarrow> (nat \<rightharpoonup> addr) \<Rightarrow> (addr \<Rightarrow> kind) \<Rightarrow> bool" where
  "tasks_ok n s W K \<longleftrightarrow> (\<forall>a. kind_ok n (refs W a) (tview s a) (K a) \<and> (K a \<noteq> Absent \<longrightarrow> a \<noteq> null))"

definition mem_view :: "nat \<Rightarrow> 'f obj heap \<Rightarrow> (nat \<rightharpoonup> addr) \<Rightarrow> 'f rt \<Rightarrow> addr \<Rightarrow> addr list \<Rightarrow>
    (tid \<Rightarrow> addr list list) \<Rightarrow> (addr \<Rightarrow> kind) \<Rightarrow> bool" where
  "mem_view n base W s ep wps bs K \<longleftrightarrow> (\<forall>k<n. LOCAL s k = wps ! k) \<and> batches n s bs \<and> tasks_ok n s W K \<and>
     (\<forall>a. a \<notin> own n s ep wps K \<longrightarrow> mem s a = base a) \<and> (\<forall>a\<in>own n s ep wps K. base a = None \<and> mem s a \<noteq> None)"

definition sched_view :: "nat \<Rightarrow> (nat \<Rightarrow> life_pc) \<Rightarrow> addr list list \<Rightarrow> (tid \<Rightarrow> addr list list) \<Rightarrow> (addr \<Rightarrow> kind) \<Rightarrow> bool" where
  "sched_view n pc qs bs K \<longleftrightarrow>
     (\<forall>a. K a = Sched \<longleftrightarrow> a \<in> set (concat qs) \<or> (\<exists>i. a \<in> set (concat (bs i)))) \<and>
     (\<forall>i. set (concat qs) \<inter> set (concat (bs i)) = {}) \<and>
     (\<forall>i j. i \<noteq> j \<longrightarrow> set (concat (bs i)) \<inter> set (concat (bs j)) = {}) \<and>
     (\<forall>a. K a = Held \<longleftrightarrow> (\<exists>k<n. life_held (pc k) = Some a)) \<and>
     (\<forall>k<n. \<forall>l<n. \<forall>a. life_held (pc k) = Some a \<and> life_held (pc l) = Some a \<longrightarrow> k = l)"

definition count_view :: "nat \<Rightarrow> (nat \<Rightarrow> life_pc) \<Rightarrow> u32 \<Rightarrow> bool" where
  "count_view n pc e \<longleftrightarrow> unat (active_count e) = (\<Sum>k<n. if active (pc k) then 1 else 0) \<and> 0 < n \<and> n \<le> 511 \<and>
     (\<forall>k<n. life_pc_ok n (pc k))"

definition up_view :: "nat \<Rightarrow> 'u fut obj heap \<Rightarrow> 'u life \<Rightarrow> addr \<Rightarrow> u32 \<Rightarrow> addr list \<Rightarrow> addr list list \<Rightarrow>
    (tid \<Rightarrow> addr list list) \<Rightarrow> (addr \<Rightarrow> kind) \<Rightarrow> bool" where
  "up_view n base L ep e wps qs bs K \<longleftrightarrow> runtime (l_rt L) ep e wps qs \<and> length wps = n \<and>
     mem_view n base (l_wakers L) (l_rt L) ep wps bs K \<and> sched_view n (l_pcs L) qs bs K \<and> count_view n (l_pcs L) e"

definition life_up :: "nat \<Rightarrow> 'u fut obj heap \<Rightarrow> 'u life \<Rightarrow> bool" where
  "life_up n base L \<longleftrightarrow> (\<exists>ep e wps qs bs K. up_view n base L ep e wps qs bs K)"

text \<open>After the tear-down only tasks are left.\<close>

definition life_down :: "nat \<Rightarrow> 'u fut obj heap \<Rightarrow> 'u life \<Rightarrow> bool" where
  "life_down n base L \<longleftrightarrow> GLOBAL (l_rt L) = null \<and>
     (\<exists>K. (\<forall>a. K a \<in> {Absent, Idle, Done}) \<and> tasks_ok n (l_rt L) (l_wakers L) K \<and>
        (\<forall>a. if K a = Absent then mem (l_rt L) a = base a else base a = None))"

definition life_main_ok :: "nat \<Rightarrow> 'u life \<Rightarrow> bool" where
  "life_main_ok n L \<longleftrightarrow>
     (case l_main L of
        M_on_start \<Rightarrow> True | M_run \<Rightarrow> True
      | M_join j \<Rightarrow> j \<le> n \<and> (\<forall>k<j. l_pcs L k = W_exited)
      | M_on_shutdown \<Rightarrow> (\<forall>k<n. l_pcs L k = W_exited)
      | _ \<Rightarrow> (\<forall>k<n. l_pcs L k = W_exited) \<and> (\<forall>i\<ge>n. LOCAL (l_rt L) i = null))"

definition life_inv :: "nat \<Rightarrow> 'u fut obj heap \<Rightarrow> 'u life \<Rightarrow> bool" where
  "life_inv n base L \<longleftrightarrow> l_fault L = None \<and> finite (dom (l_wakers L)) \<and> card (dom (l_wakers L)) + 1 < 2 ^ 64 \<and>
     life_main_ok n L \<and> (if torn_down (l_main L) then life_down n base L else life_up n base L)"

section \<open>References\<close>

lemma refs_upd:
  assumes "finite (dom W)"
  shows "W w = None \<Longrightarrow> refs (W(w \<mapsto> t)) a = refs W a + (if a = t then 1 else 0)"
    "W w = Some t \<Longrightarrow> refs (W(w := None)) a = refs W a - (if a = t then 1 else 0)"
    "W w = Some t \<Longrightarrow> 0 < refs W t"
proof -
  have fin: "finite {w. W w = Some a}" for a by (rule finite_subset[OF _ assms]) auto
  show "refs (W(w \<mapsto> t)) a = refs W a + (if a = t then 1 else 0)" if "W w = None"
  proof -
    have "{v. (W(w \<mapsto> t)) v = Some a} = (if a = t then insert w {v. W v = Some a} else {v. W v = Some a})" using that by auto
    moreover have "w \<notin> {v. W v = Some a}" using that by simp
    ultimately show ?thesis using fin[of a] unfolding refs_def by (cases "a = t") (simp_all only: if_True if_False card_insert_disjoint, simp_all)
  qed
  show "refs (W(w := None)) a = refs W a - (if a = t then 1 else 0)" if "W w = Some t"
  proof -
    have "{v. (W(w := None)) v = Some a} = (if a = t then {v. W v = Some a} - {w} else {v. W v = Some a})" using that by auto
    then show ?thesis using fin[of a] that by (simp add: refs_def)
  qed
  show "0 < refs W t" if "W w = Some t" using that fin[of t] by (auto simp: refs_def card_gt_0_iff)
qed

lemma refs_le: "finite (dom W) \<Longrightarrow> refs W a \<le> card (dom W)"
  unfolding refs_def by (rule card_mono) auto

section \<open>Changes of memory\<close>

text \<open>A task that is there is one of the runtime's own, and of the kind its block shows.\<close>

lemma tasks_okD:
  assumes "tasks_ok n s W K"
  shows "kind_ok n (refs W a) (tview s a) (K a)" "K a \<noteq> Absent \<Longrightarrow> a \<noteq> null"
  using assms unfolding tasks_ok_def by blast+

lemma kind_live:
  assumes "tasks_ok n s W K" "K a \<in> {Sched, Held, Idle}"
  obtains st c w where "tview s a = Some (True, st, c, w)" "st \<in> kind_status (K a)" "unat c = Suc (refs W a)" "unat w < n"
  using tasks_okD(1)[OF assms(1), of a] assms(2) by auto

lemma kind_task: "tasks_ok n s W K \<Longrightarrow> K a \<noteq> Absent \<Longrightarrow> is_task s a"
  unfolding tasks_ok_def tview_task by (drule spec[of _ a], cases "K a") auto

lemma mem_viewD:
  assumes "mem_view n base W s ep wps bs K"
  shows "k < n \<Longrightarrow> LOCAL s k = wps ! k" "batches n s bs" "tasks_ok n s W K" "a \<notin> own n s ep wps K \<Longrightarrow> mem s a = base a"
    "a \<in> own n s ep wps K \<Longrightarrow> base a = None" "a \<in> own n s ep wps K \<Longrightarrow> mem s a \<noteq> None"
  using assms unfolding mem_view_def by blast+

lemma mem_viewI:
  assumes "\<And>k. k < n \<Longrightarrow> LOCAL s k = wps ! k" "batches n s bs" "tasks_ok n s W K" "\<And>a. a \<notin> own n s ep wps K \<Longrightarrow> mem s a = base a"
    "\<And>a. a \<in> own n s ep wps K \<Longrightarrow> base a = None" "\<And>a. a \<in> own n s ep wps K \<Longrightarrow> mem s a \<noteq> None"
  shows "mem_view n base W s ep wps bs K"
  using assms unfolding mem_view_def by blast

lemma batch_cong:
  assumes "batch s i b bs" "LOCAL s' i = LOCAL s i" "\<And>d. mem s b = Some (Init (Obj_local d)) \<Longrightarrow> mem s' b = mem s b"
    and "\<And>l xs. xs \<in> set bs \<Longrightarrow> queue_at s l xs \<Longrightarrow> queue_at s' l xs"
  shows "batch s' i b bs"
proof -
  from assms(1) obtain d where d: "LOCAL s i = b" "b \<noteq> null" "distinct (concat bs)" "mem s b = Some (Init (Obj_local d))"
    "list_all2 (queue_at s) (task_lists d) bs" by (auto simp: batch_def)
  have "list_all2 (queue_at s') (task_lists d) bs"
    using d(5) assms(4) by (auto simp: list_all2_conv_all_nth)
  then show ?thesis using d assms(2,3) by (auto simp: batch_def)
qed

lemma batches_cong:
  assumes "batches n s bs" "LOCAL s' = LOCAL s"
    and "\<And>i b. batch s i b (bs i) \<Longrightarrow> batch s' i b (bs i)"
  shows "batches n s' bs"
proof -
  have "if n \<le> i \<and> LOCAL s i \<noteq> null then batch s i (LOCAL s i) (bs i) \<and> length (bs i) = n else bs i = []" for i
    using assms(1) unfolding batches_def by (elim conjE) (erule spec)
  then have "if n \<le> i \<and> LOCAL s i \<noteq> null then batch s' i (LOCAL s i) (bs i) \<and> length (bs i) = n else bs i = []" for i
    using assms(3)[of i "LOCAL s i"] by (auto split: if_splits)
  then show ?thesis using assms(1) unfolding batches_def assms(2) by blast
qed

lemma tasks_ok_upd:
  assumes "tasks_ok n s W K" "\<And>a. a \<noteq> t \<Longrightarrow> tview s' a = tview s a \<and> refs W' a = refs W a"
    and "kind_ok n (refs W' t) (tview s' t) k" "k \<noteq> Absent \<Longrightarrow> t \<noteq> null"
  shows "tasks_ok n s' W' (K(t := k))"
  using assms by (auto simp: tasks_ok_def)

lemma touches_mem_view:
  assumes v: "mem_view n base W s ep wps bs K" and t: "touches A U s s'" "U \<subseteq> insert ep (set wps)"
    and A: "\<And>a. a \<in> A \<Longrightarrow> K a \<noteq> Absent" "\<And>i. A \<inter> set (concat (bs i)) = {}"
  shows "mem_view n base W s' ep wps bs K"
proof -
  have g: "GLOBAL s' = GLOBAL s" "LOCAL s' = LOCAL s" using t(1) by (simp_all add: touches_def)
  then have own: "own n s' ep wps K = own n s ep wps K" by (simp add: own_def)
  have sub: "A \<union> U \<subseteq> own n s ep wps K" using t(2) A(1) by (auto simp: own_def)
  have "mem s' a = mem s a" if "a \<notin> own n s ep wps K" for a
    using touches_same[OF t(1)] that sub by blast
  moreover have "mem s' a \<noteq> None \<longleftrightarrow> mem s a \<noteq> None" for a using touches_dom[OF t(1)] by blast
  moreover have "batches n s' bs"
  proof (rule batches_cong[OF mem_viewD(2)[OF v] g(2)])
    fix i b assume b: "batch s i b (bs i)"
    show "batch s' i b (bs i)"
    proof (rule batch_cong[OF b])
      show "mem s' b = mem s b" if "mem s b = Some (Init (Obj_local d))" for d using touches_local[OF t(1) that] that by simp
      show "queue_at s' l xs" if "xs \<in> set (bs i)" "queue_at s l xs" for l xs
        using touches_queue[OF t(1) that(2)] A(2)[of i] that(1) by auto
    qed (simp add: g)
  qed
  moreover have "tasks_ok n s' W K" using mem_viewD(3)[OF v] touches_tview[OF t(1)] by (simp add: tasks_ok_def)
  ultimately show ?thesis using mem_viewD[OF v] g by (intro mem_viewI) (auto simp: own)
qed

text \<open>A new task.\<close>

lemma alloc_mem_view:
  assumes v: "mem_view n base W s ep wps bs K" and p: "fresh_for s p" and n: "0 < n"
    and s': "\<And>a. a \<noteq> p \<Longrightarrow> mem s' a = mem s a" "mem s' p = Some (Init (TaskInner fresh_task f))"
      "GLOBAL s' = GLOBAL s" "LOCAL s' = LOCAL s"
  shows "mem_view n base W s' ep wps bs (K(p := Sched)) \<and> K p = Absent"
proof -
  have m: "p \<noteq> null" "mem s p = None" using p by (auto simp: fresh_for_def alloc_ok_def)
  have notown: "p \<notin> own n s ep wps K" using mem_viewD(6)[OF v, of p] m(2) by auto
  then have K: "K p = Absent" by (auto simp: own_def)
  have "tview s' a = tview s a" if "a \<noteq> p" for a using s'(1)[OF that] by (simp add: tview_def)
  moreover have "refs W p = 0" using mem_viewD(3)[OF v] K unfolding tasks_ok_def by (metis kind_ok.simps(1))
  ultimately have "tasks_ok n s' W (K(p := Sched))"
    using m n s'(2) by (intro tasks_ok_upd[OF mem_viewD(3)[OF v]]) (auto simp: tview_def status_bits)
  moreover have "batches n s' bs"
  proof (rule batches_cong[OF mem_viewD(2)[OF v] s'(4)])
    fix i b assume b: "batch s i b (bs i)"
    show "batch s' i b (bs i)"
    proof (rule batch_cong[OF b])
      show "mem s' b = mem s b" if "mem s b = Some (Init (Obj_local d))" for d using s'(1)[of b] that m(2) by fastforce
      show "queue_at s' l xs" if "queue_at s l xs" for l xs
      proof -
        have "mem s' x = mem s x" if "x \<in> set xs" for x
          using queue_tasks[OF \<open>queue_at s l xs\<close> that] not_task(5)[OF m(2)] s'(1)[of x] by blast
        then show ?thesis using that queue_at_cong[of xs s' s l] by blast
      qed
    qed (simp add: s'(4))
  qed
  moreover have "own n s' ep wps (K(p := Sched)) = insert p (own n s ep wps K)" using s'(3,4) by (auto simp: own_def)
  moreover have "base p = None" using mem_viewD(4)[OF v notown] m(2) by simp
  moreover have "mem s' a \<noteq> None" if "a \<in> insert p (own n s ep wps K)" for a
    using that s'(1)[of a] s'(2) mem_viewD(6)[OF v, of a] by (cases "a = p") auto
  ultimately have "mem_view n base W s' ep wps bs (K(p := Sched))"
    using s'(1,4) mem_viewD[OF v] by (intro mem_viewI) auto
  then show ?thesis using K by simp
qed

text \<open>A changed header, apart from the link, of a task of the runtime.\<close>

lemma hdr_mem_view:
  assumes v: "mem_view n base W s ep wps bs K" and K: "K t \<noteq> Absent" "k \<noteq> Absent" and g: "\<And>h. t_next (g h) = t_next h"
    and W: "\<And>a. a \<noteq> t \<Longrightarrow> refs W' a = refs W a"
    and k: "kind_ok n (refs W' t) (tview (with_hdr t g s) t) k"
  shows "mem_view n base W' (with_hdr t g s) ep wps bs (K(t := k))"
proof -
  note ok = mem_viewD(3)[OF v]
  note t = kind_task[OF ok K(1)]
  let ?s = "with_hdr t g s"
  have same: "mem ?s a = mem s a" if "a \<noteq> t" for a using that by (simp add: with_hdr_def)
  have "tasks_ok n ?s W' (K(t := k))"
    by (rule tasks_ok_upd[OF ok _ k]) (use same W t in \<open>auto simp: tview_def is_task_def\<close>)
  moreover have "batches n ?s bs"
    by (rule batches_cong[OF mem_viewD(2)[OF v]], simp, erule batch_cong) (simp_all add: with_hdr_queue[OF t g])
  moreover have "own n ?s ep wps (K(t := k)) = own n s ep wps K" using K by (auto simp: own_def)
  moreover have "mem ?s t \<noteq> None" using t by (auto simp: with_hdr_def is_task_def)
  moreover have "t \<in> own n s ep wps K" using K(1) by (simp add: own_def)
  moreover have "mem ?s a \<noteq> None" if "a \<in> own n s ep wps K" for a
    using that same[of a] mem_viewD(6)[OF v that] \<open>mem ?s t \<noteq> None\<close> by (cases "a = t") auto
  moreover have "mem ?s a = base a" if "a \<notin> own n s ep wps K" for a
    using that same[of a] mem_viewD(4)[OF v that] \<open>t \<in> own n s ep wps K\<close> by metis
  ultimately show ?thesis using mem_viewD[OF v] by (intro mem_viewI) auto
qed

section \<open>Changes of the schedule\<close>

lemma sched_viewD:
  assumes "sched_view n pc qs bs K"
  shows "K a = Sched \<longleftrightarrow> a \<in> set (concat qs) \<or> (\<exists>i. a \<in> set (concat (bs i)))"
    "set (concat qs) \<inter> set (concat (bs i)) = {}" "i \<noteq> j \<Longrightarrow> set (concat (bs i)) \<inter> set (concat (bs j)) = {}"
    "K a = Held \<longleftrightarrow> (\<exists>k<n. life_held (pc k) = Some a)"
    "k < n \<Longrightarrow> l < n \<Longrightarrow> life_held (pc k) = Some a \<Longrightarrow> life_held (pc l) = Some a \<Longrightarrow> k = l"
  using assms unfolding sched_view_def by blast+

lemma sched_viewI:
  assumes "\<And>a. K a = Sched \<longleftrightarrow> a \<in> set (concat qs) \<or> (\<exists>i. a \<in> set (concat (bs i)))"
    "\<And>i. set (concat qs) \<inter> set (concat (bs i)) = {}" "\<And>i j. i \<noteq> j \<Longrightarrow> set (concat (bs i)) \<inter> set (concat (bs j)) = {}"
    "\<And>a. K a = Held \<longleftrightarrow> (\<exists>k<n. life_held (pc k) = Some a)"
    "\<And>k l a. k < n \<Longrightarrow> l < n \<Longrightarrow> life_held (pc k) = Some a \<Longrightarrow> life_held (pc l) = Some a \<Longrightarrow> k = l"
  shows "sched_view n pc qs bs K"
  using assms unfolding sched_view_def by blast

text \<open>A worker moves on.\<close>

lemma sched_go: "sched_view n pc qs bs K \<Longrightarrow> life_held pc' = life_held (pc k) \<Longrightarrow> sched_view n (pc(k := pc')) qs bs K"
proof -
  assume v: "sched_view n pc qs bs K" and h: "life_held pc' = life_held (pc k)"
  have "life_held ((pc(k := pc')) j) = life_held (pc j)" for j using h by simp
  then show ?thesis using sched_viewD[OF v] by (intro sched_viewI) (simp_all only:)
qed

text \<open>A task enters a queue.\<close>

lemma sched_push:
  assumes v: "sched_view n pc qs bs K" and p: "K p \<noteq> Sched" "K p \<noteq> Held"
    and q: "set (concat qs') = insert p (set (concat qs))"
  shows "sched_view n pc qs' bs (K(p := Sched))"
proof (rule sched_viewI)
  note d = sched_viewD[OF v]
  have p': "p \<notin> set (concat (bs i))" for i using d(1)[of p] p(1) by blast
  show "(K(p := Sched)) a = Sched \<longleftrightarrow> a \<in> set (concat qs') \<or> (\<exists>i. a \<in> set (concat (bs i)))" for a
    using d(1)[of a] q by auto
  show "set (concat qs') \<inter> set (concat (bs i)) = {}" for i using d(2)[of i] p' q by auto
  show "(K(p := Sched)) a = Held \<longleftrightarrow> (\<exists>k<n. life_held (pc k) = Some a)" for a using d(4)[of a] p(2) by auto
qed (use sched_viewD(3,5)[OF v] in blast)+

text \<open>A task enters a batch.\<close>

lemma sched_push_batch:
  assumes v: "sched_view n pc qs bs K" and p: "K p \<noteq> Sched" "K p \<noteq> Held"
    and b: "set (concat b) = insert p (set (concat (bs i)))"
  shows "sched_view n pc qs (bs(i := b)) (K(p := Sched))"
proof (rule sched_viewI)
  note d = sched_viewD[OF v]
  have p': "p \<notin> set (concat qs)" "p \<notin> set (concat (bs j))" for j using d(1)[of p] p(1) by blast+
  have set_b: "set (concat ((bs(i := b)) j)) = (if j = i then insert p (set (concat (bs i))) else set (concat (bs j)))" for j
    using b by simp
  have ex: "(\<exists>j. a \<in> set (concat ((bs(i := b)) j))) \<longleftrightarrow> a \<in> set (concat b) \<or> (\<exists>j. j \<noteq> i \<and> a \<in> set (concat (bs j)))" for a
    by (metis fun_upd_other fun_upd_same)
  show "(K(p := Sched)) a = Sched \<longleftrightarrow> a \<in> set (concat qs) \<or> (\<exists>j. a \<in> set (concat ((bs(i := b)) j)))" for a
    unfolding ex using d(1)[of a] b by (cases "a = p") (auto simp del: set_concat)
  show "set (concat qs) \<inter> set (concat ((bs(i := b)) j)) = {}" for j
    unfolding set_b using d(2)[of i] d(2)[of j] p'(1) by auto
  show "set (concat ((bs(i := b)) j)) \<inter> set (concat ((bs(i := b)) l)) = {}" if "j \<noteq> l" for j l
    unfolding set_b using d(3)[OF that] d(3)[of i l] d(3)[of j i] p'(2) that by (auto simp del: set_concat)
  show "(K(p := Sched)) a = Held \<longleftrightarrow> (\<exists>k<n. life_held (pc k) = Some a)" for a using d(4)[of a] p(2) by auto
qed (use sched_viewD(5)[OF v] in blast)+

text \<open>A batch is handed over to the queues.\<close>

lemma sched_flush:
  assumes v: "sched_view n pc qs bs K" and q: "set (concat qs') = set (concat qs) \<union> set (concat (bs i))" and b: "concat b = []"
  shows "sched_view n pc qs' (bs(i := b)) K"
proof (rule sched_viewI)
  note d = sched_viewD[OF v]
  have nb: "set (concat b) = {}" unfolding b by simp
  have set_b: "set (concat ((bs(i := b)) j)) = (if j = i then {} else set (concat (bs j)))" for j using b by simp
  have ex: "(\<exists>j. a \<in> set (concat ((bs(i := b)) j))) \<longleftrightarrow> a \<in> set (concat b) \<or> (\<exists>j. j \<noteq> i \<and> a \<in> set (concat (bs j)))" for a
    by (metis fun_upd_other fun_upd_same)
  show "K a = Sched \<longleftrightarrow> a \<in> set (concat qs') \<or> (\<exists>j. a \<in> set (concat ((bs(i := b)) j)))" for a
    unfolding ex q nb using d(1)[of a] by (auto simp del: set_concat)
  show "set (concat qs') \<inter> set (concat ((bs(i := b)) j)) = {}" for j
    unfolding set_b q using d(2)[of j] d(3)[of i j] by auto
  show "set (concat ((bs(i := b)) j)) \<inter> set (concat ((bs(i := b)) l)) = {}" if "j \<noteq> l" for j l
    unfolding set_b using d(3)[OF that] by auto
qed (use sched_viewD(4,5)[OF v] in blast)+

text \<open>A worker takes a task out of a queue.\<close>

lemma sched_take:
  assumes v: "sched_view n pc qs bs K" and k: "k < n" "life_held (pc k) = None" "life_held pc' = Some t"
    and q: "set (concat qs) = insert t (set (concat qs'))" "t \<notin> set (concat qs')"
  shows "sched_view n (pc(k := pc')) qs' bs (K(t := Held))"
proof (rule sched_viewI)
  note d = sched_viewD[OF v]
  have t: "K t = Sched" "t \<notin> set (concat (bs i))" for i using d(1)[of t] d(2)[of i] q(1) by auto
  show "(K(t := Held)) a = Sched \<longleftrightarrow> a \<in> set (concat qs') \<or> (\<exists>i. a \<in> set (concat (bs i)))" for a
    using d(1)[of a] q t(2) by auto
  show "set (concat qs') \<inter> set (concat (bs i)) = {}" for i using d(2)[of i] q(1) by auto
  have other: "life_held (pc j) \<noteq> Some t" if "j < n" for j using d(4)[of t] t(1) that by auto
  show "(K(t := Held)) a = Held \<longleftrightarrow> (\<exists>j<n. life_held ((pc(k := pc')) j) = Some a)" for a
  proof (cases "a = t")
    case False
    have "(\<exists>j<n. life_held ((pc(k := pc')) j) = Some a) \<longleftrightarrow> (\<exists>j<n. life_held (pc j) = Some a)"
      using k False by (metis fun_upd_apply option.distinct(1) option.inject)
    then show ?thesis using d(4)[of a] False by simp
  qed (use k in auto)
  show "j = l" if "j < n" "l < n" "life_held ((pc(k := pc')) j) = Some a" "life_held ((pc(k := pc')) l) = Some a" for j l a
    using that d(5)[of j l a] k other by (auto split: if_splits)
qed (use sched_viewD(3)[OF v] in blast)

text \<open>A worker lets go of its task.\<close>

lemma sched_release:
  assumes v: "sched_view n pc qs bs K" and k: "k < n" "life_held (pc k) = Some t" "life_held pc' = None" and kd: "kd \<noteq> Sched" "kd \<noteq> Held"
  shows "sched_view n (pc(k := pc')) qs bs (K(t := kd))"
proof (rule sched_viewI)
  note d = sched_viewD[OF v]
  have t: "K t = Held" using d(4)[of t] k by auto
  show "(K(t := kd)) a = Sched \<longleftrightarrow> a \<in> set (concat qs) \<or> (\<exists>i. a \<in> set (concat (bs i)))" for a
    using d(1)[of a] t kd by (cases "a = t") auto
  show "(K(t := kd)) a = Held \<longleftrightarrow> (\<exists>j<n. life_held ((pc(k := pc')) j) = Some a)" for a
  proof (cases "a = t")
    case True
    then show ?thesis using d(5)[OF k(1) _ k(2)] k(3) kd by (auto split: if_splits)
  next
    case False
    have "(\<exists>j<n. life_held ((pc(k := pc')) j) = Some a) \<longleftrightarrow> (\<exists>j<n. life_held (pc j) = Some a)"
      using k False by (metis fun_upd_apply option.distinct(1) option.inject)
    then show ?thesis using d(4)[of a] False by simp
  qed
  show "j = l" if "j < n" "l < n" "life_held ((pc(k := pc')) j) = Some a" "life_held ((pc(k := pc')) l) = Some a" for j l a
    using that d(5)[of j l a] k by (auto split: if_splits)
qed (use sched_viewD(2,3)[OF v] in blast)+

text \<open>A task that is neither scheduled nor life_held changes.\<close>

lemma sched_other:
  assumes v: "sched_view n pc qs bs K" and K: "K t \<notin> {Sched, Held}" "kd \<notin> {Sched, Held}"
  shows "sched_view n pc qs bs (K(t := kd))"
proof (rule sched_viewI)
  show "(K(t := kd)) a = Sched \<longleftrightarrow> a \<in> set (concat qs) \<or> (\<exists>i. a \<in> set (concat (bs i)))" for a
    using sched_viewD(1)[OF v, of a] K by (cases "a = t") auto
  show "(K(t := kd)) a = Held \<longleftrightarrow> (\<exists>k<n. life_held (pc k) = Some a)" for a
    using sched_viewD(4)[OF v, of a] K by (cases "a = t") auto
qed (use sched_viewD(2,3,5)[OF v] in blast)+

section \<open>Changes of the count\<close>

lemma count_bump: "count_view n pc e \<Longrightarrow> count_view n pc (e + EPOCH)"
  by (simp add: count_view_def ec.cnt_bump)

lemma count_upd_pc:
  assumes "k < (n :: nat)"
  shows "(\<Sum>j<n. if active ((pc(k := pc')) j) then 1 else 0) + (if active (pc k) then 1 else 0) =
    (\<Sum>j<n. if active (pc j) then 1 else 0) + (if active pc' then 1 else (0 :: nat))"
  using sum_upd[OF assms, of "\<lambda>pc. if active pc then 1 else 0" pc pc'] by simp

lemma count_go:
  "count_view n pc e \<Longrightarrow> k < n \<Longrightarrow> active pc' = active (pc k) \<Longrightarrow> life_pc_ok n pc' \<Longrightarrow> count_view n (pc(k := pc')) e"
  using count_upd_pc[of k n pc pc'] by (auto simp: count_view_def split: if_splits)

lemma count_le_n: "(\<Sum>j<n. if active (pc j) then 1 else 0) \<le> (n :: nat)"
  using sum_mono[of "{..<n}" "\<lambda>j. if active (pc j) then 1 else 0" "\<lambda>_. 1 :: nat"] by simp

lemma count_dec:
  assumes "count_view n pc e" "k < n" "active (pc k)" "\<not> active pc'" "life_pc_ok n pc'"
  shows "0 < unat (active_count e)" "count_view n (pc(k := pc')) (e - 1)"
    "n = 1 \<Longrightarrow> active_count (e - 1) = 0"
proof -
  show pos: "0 < unat (active_count e)"
    using assms(1,3,4) count_upd_pc[OF assms(2), of pc pc'] by (simp add: count_view_def)
  then show "count_view n (pc(k := pc')) (e - 1)"
    using assms count_upd_pc[of k n pc pc'] ec.cnt_dec[OF pos] by (auto simp: count_view_def)
  show "active_count (e - 1) = 0" if "n = 1"
  proof -
    have "unat (active_count e) \<le> 1" using assms(1) count_le_n[of pc n] that by (simp add: count_view_def)
    then have "unat (active_count (e - 1)) = 0" using ec.cnt_dec[OF pos] pos by simp
    then show ?thesis by (simp add: word_unat_eq_iff)
  qed
qed

lemma count_inc:
  assumes "count_view n pc e" "k < n" "\<not> active (pc k)" "active pc'" "life_pc_ok n pc'"
  shows "unat (active_count e) < 511" "count_view n (pc(k := pc')) (e + 1)"
proof -
  have "(\<Sum>j<n. if active ((pc(k := pc')) j) then 1 else 0) = Suc (\<Sum>j<n. if active (pc j) then 1 else (0 :: nat))"
    using count_upd_pc[OF assms(2), of pc pc'] assms(3,4) by simp
  with count_le_n[of "pc(k := pc')" n] show lt: "unat (active_count e) < 511"
    using assms(1) by (simp add: count_view_def)
  then show "count_view n (pc(k := pc')) (e + 1)"
    using assms count_upd_pc[of k n pc pc'] ec.cnt_inc[OF lt] by (auto simp: count_view_def)
qed

lemma count_alone:
  assumes "count_view n pc e" "k < n" "\<not> active (pc k)" "n = 1"
  shows "active_count e = 0"
  using assms by (simp add: count_view_def word_unat_eq_iff)

section \<open>Tasks outside the queues\<close>

text \<open>The block of one task that is in no queue and no batch changes, or is freed.\<close>

lemma runtime_other:
  assumes rt: "runtime s ep e wps qs" and t: "is_task s t" "t \<notin> set (concat qs)"
    and s': "\<And>a. a \<noteq> t \<Longrightarrow> mem s' a = mem s a" "GLOBAL s' = GLOBAL s"
  shows "runtime s' ep e wps qs"
proof -
  have "worker_at s' ep wps qs k" if k: "k < length wps" for k
  proof -
    obtain w where w: "mem s (wps ! k) = Some (Init (Obj_worker w))" "worker_ok ep wps k w" "queue_at s (task_list w) (qs ! k)"
      "wps ! k \<noteq> null" using runtime_worker[OF rt k] by blast
    have "wps ! k \<noteq> t" using w(1) t(1) by auto
    moreover have "mem s' x = mem s x" if "x \<in> set (qs ! k)" for x
      using s'(1)[of x] that runtime_nth(1)[OF rt k] t(2) by blast
    then have "queue_at s' (task_list w) (qs ! k)" using w(3) queue_at_cong[of "qs ! k" s' s] by blast
    ultimately show ?thesis using w s'(1) by (auto simp: worker_at_def)
  qed
  moreover have "GLOBAL s \<noteq> t" "ep \<noteq> t" using rt t(1) by (auto simp: runtime_def)
  ultimately show ?thesis using rt s' unfolding runtime_def by metis
qed

lemma runtime_no_task:
  assumes "runtime s ep e wps qs" "is_task s t"
  shows "t \<noteq> GLOBAL s" "t \<noteq> ep" "t \<notin> set wps"
proof -
  show "t \<noteq> GLOBAL s" "t \<noteq> ep" using assms by (auto simp: runtime_def)
  show "t \<notin> set wps"
  proof
    assume "t \<in> set wps"
    then obtain k where "k < length wps" "t = wps ! k" by (auto simp: in_set_conv_nth)
    then show False using runtime_worker[OF assms(1)] assms(2) not_task(1) by metis
  qed
qed

lemma other_mem_view:
  assumes v: "mem_view n base W s ep wps bs K" and t: "K t \<noteq> Absent" "\<And>i. t \<notin> set (concat (bs i))"
    and rt: "runtime s ep e wps qs"
    and s': "\<And>a. a \<noteq> t \<Longrightarrow> mem s' a = mem s a" "GLOBAL s' = GLOBAL s" "LOCAL s' = LOCAL s"
    and W: "\<And>a. a \<noteq> t \<Longrightarrow> refs W' a = refs W a"
    and k: "kind_ok n (refs W' t) (tview s' t) k" "k = Absent \<longleftrightarrow> mem s' t = None"
  shows "mem_view n base W' s' ep wps bs (K(t := k))"
proof -
  note ok = mem_viewD(3)[OF v]
  note tk = kind_task[OF ok t(1)]
  have "tasks_ok n s' W' (K(t := k))"
    by (rule tasks_ok_upd[OF ok _ k(1)]) (use s'(1) W tk in \<open>auto simp: tview_def is_task_def\<close>)
  moreover have "batches n s' bs"
  proof (rule batches_cong[OF mem_viewD(2)[OF v] s'(3)])
    fix i b assume b: "batch s i b (bs i)"
    show "batch s' i b (bs i)"
    proof (rule batch_cong[OF b])
      show "mem s' b = mem s b" if "mem s b = Some (Init (Obj_local d))" for d using s'(1)[of b] that tk not_task(4) by metis
      show "queue_at s' l xs" if "xs \<in> set (bs i)" "queue_at s l xs" for l xs
      proof -
        have "mem s' x = mem s x" if "x \<in> set xs" for x using s'(1)[of x] t(2)[of i] that \<open>xs \<in> set (bs i)\<close> by auto
        then show ?thesis using that(2) queue_at_cong[of xs s' s l] by blast
      qed
    qed (simp add: s'(3))
  qed
  moreover have "own n s' ep wps (K(t := k)) = own n s ep wps K - (if k = Absent then {t} else {})"
  proof -
    note runtime_no_task[OF rt tk]
    moreover have "t \<noteq> LOCAL s i" if "n \<le> i" "LOCAL s i \<noteq> null" for i
    proof -
      have "batch s i (LOCAL s i) (bs i)" using mem_viewD(2)[OF v] that unfolding batches_def by (metis (full_types))
      then show ?thesis using tk by (auto simp: batch_def)
    qed
    ultimately show ?thesis using t(1) s'(2,3) by (auto simp: own_def)
  qed
  moreover have "base t = None" using mem_viewD(5)[OF v, of t] t(1) by (simp add: own_def)
  moreover have "mem s' a \<noteq> None" if "a \<in> own n s ep wps K" "a = t \<longrightarrow> k \<noteq> Absent" for a
    using that s'(1)[of a] mem_viewD(6)[OF v that(1)] k(2) by (cases "a = t") auto
  moreover have "mem s' a = base a" if "a \<notin> own n s ep wps K - (if k = Absent then {t} else {})" for a
    using that s'(1)[of a] mem_viewD(4)[OF v, of a] k(2) \<open>base t = None\<close> t(1) by (cases "a = t") (auto simp: own_def)
  ultimately show ?thesis using mem_viewD[OF v] s'(3) by (intro mem_viewI) (auto split: if_splits)
qed

text \<open>A scheduled task can be taken.\<close>

lemma take_mem_view:
  assumes v: "mem_view n base W s ep wps bs K" and t: "K t = Sched"
  shows "mem_view n base W s ep wps bs (K(t := Held))"
proof -
  have "kind_ok n (refs W t) (tview s t) (K t)" "t \<noteq> null" using tasks_okD[OF mem_viewD(3)[OF v], of t] t by simp_all
  then have "kind_ok n (refs W t) (tview s t) Held" using t by auto
  then have "tasks_ok n s W (K(t := Held))" using mem_viewD(3)[OF v] \<open>t \<noteq> null\<close> by (auto simp: tasks_ok_def)
  moreover have "own n s ep wps (K(t := Held)) = own n s ep wps K" using t by (auto simp: own_def)
  ultimately show ?thesis using mem_viewD[OF v] by (intro mem_viewI) auto
qed

text \<open>Changes of one field of a header.\<close>

lemma tview_hdr:
  "tview (with_hdr t (\<lambda>h. h\<lparr>t_status := F (t_status h)\<rparr>) s) t = map_option (\<lambda>(l, st, c, w). (l, F st, c, w)) (tview s t)"
  "tview (with_hdr t (\<lambda>h. h\<lparr>t_rc := G (t_rc h)\<rparr>) s) t = map_option (\<lambda>(l, st, c, w). (l, st, G c, w)) (tview s t)"
  "tview (with_hdr t (\<lambda>h. h\<lparr>t_worker_id := w'\<rparr>) s) t = map_option (\<lambda>(l, st, c, w). (l, st, c, w')) (tview s t)"
  by (auto simp: tview_def with_hdr_def split: option.splits block.splits obj.splits)

end
