(* ===== verification/Lifecycle_Workers.thy ===== *)
theory Lifecycle_Workers
  imports Lifecycle_Invariant
begin

text \<open>
  Every step of a worker thread keeps the invariant of the running runtime and does not fault.
\<close>

section \<open>Worker steps in general\<close>

lemma up_viewD:
  assumes "up_view n base L ep e wps qs bs K"
  shows "runtime (l_rt L) ep e wps qs" "length wps = n" "mem_view n base (l_wakers L) (l_rt L) ep wps bs K"
    "sched_view n (l_pcs L) qs bs K" "count_view n (l_pcs L) e"
  using assms by (simp_all add: up_view_def)

text \<open>What a step of worker \<open>k\<close> keeps.\<close>

definition work_ok :: "nat \<Rightarrow> 'u fut obj heap \<Rightarrow> nat \<Rightarrow> 'u life \<Rightarrow> 'u life \<Rightarrow> bool" where
  "work_ok n base k L M \<longleftrightarrow> life_up n base M \<and> l_fault M = l_fault L \<and> l_main M = l_main L \<and>
     LOCAL (l_rt M) = LOCAL (l_rt L) \<and> (\<exists>pc. l_pcs M = (l_pcs L)(k := pc)) \<and>
     (l_wakers M = l_wakers L \<or> (\<exists>w t. fresh_waker L w \<and> l_wakers M = (l_wakers L)(w \<mapsto> t)))"

lemma work_okI:
  assumes "up_view n base L ep e wps qs bs K"
    and "runtime s' ep e' wps qs'" "mem_view n base (l_wakers L) s' ep wps bs' K'" "LOCAL s' = LOCAL (l_rt L)"
    and "sched_view n ((l_pcs L)(k := pc)) qs' bs' K'" "count_view n ((l_pcs L)(k := pc)) e'"
  shows "work_ok n base k L (l_go k pc (L\<lparr>l_rt := s'\<rparr>))"
proof -
  have "up_view n base (l_go k pc (L\<lparr>l_rt := s'\<rparr>)) ep e' wps qs' bs' K'"
    using assms by (simp add: up_view_def l_go_def)
  then have "life_up n base (l_go k pc (L\<lparr>l_rt := s'\<rparr>))" unfolding life_up_def by blast
  then show ?thesis using assms(4) by (auto simp: work_ok_def l_go_def)
qed

text \<open>A worker that only moves on.\<close>

lemma work_go:
  assumes v: "up_view n base L ep e wps qs bs K" and k: "k < n" "life_held pc = life_held (l_pcs L k)" "active pc = active (l_pcs L k)" "life_pc_ok n pc"
  shows "work_ok n base k L (l_go k pc L)"
proof -
  have "work_ok n base k L (l_go k pc (L\<lparr>l_rt := l_rt L\<rparr>))"
    using up_viewD[OF v] k by (intro work_okI[OF v]) (auto intro: sched_go count_go)
  then show ?thesis by simp
qed

text \<open>A call of the running future: the worker stays where it is.\<close>

lemma work_stay:
  assumes v: "up_view n base L ep e wps qs bs K"
    and "runtime s' ep e' wps qs'" "mem_view n base (l_wakers L) s' ep wps bs K'" "LOCAL s' = LOCAL (l_rt L)"
    and "sched_view n (l_pcs L) qs' bs K'" "count_view n (l_pcs L) e'"
  shows "work_ok n base k L (L\<lparr>l_rt := s'\<rparr>)"
  using work_okI[OF v assms(2-4), of k "l_pcs L k"] assms(5,6) by (simp add: l_go_def)

lemma worker_of:
  assumes "up_view n base L ep e wps qs bs K" "k < n"
  shows "\<exists>w. Worker_get k (l_rt L) = Inr (wps ! k, w) \<and> worker_ok ep wps k w \<and>
    mem (l_rt L) (wps ! k) = Some (Init (Obj_worker w))"
  using runtime_worker[OF up_viewD(1)[OF assms(1)], of k] mem_viewD(1)[OF up_viewD(3)[OF assms(1)] assms(2)]
    up_viewD(2)[OF assms(1)] assms(2) by (auto simp: Worker_get_def get_local_def Let_def)

lemma touches_LOCAL: "touches A U s s' \<Longrightarrow> LOCAL s' = LOCAL s"
  by (simp add: touches_def)

text \<open>Taking a task out of queue \<open>j\<close>.\<close>

lemma take_sets:
  assumes "runtime s ep e wps qs" "j < length wps" "qs ! j = t # ts"
  shows "set (concat qs) = insert t (set (concat (qs[j := ts])))" "t \<notin> set (concat (qs[j := ts]))"
proof -
  have j: "j < length qs" using assms(1,2) by (simp add: runtime_def)
  have split: "qs = take j qs @ (t # ts) # drop (Suc j) qs" using j assms(3) by (metis id_take_nth_drop)
  have "distinct (concat qs)" using assms(1) by (simp add: runtime_def)
  then have "distinct (concat (take j qs @ (t # ts) # drop (Suc j) qs))" by (subst (asm) split)
  then show "t \<notin> set (concat (qs[j := ts]))" using j by (auto simp: upd_conv_take_nth_drop)
  show "set (concat qs) = insert t (set (concat (qs[j := ts])))"
    by (subst split) (use j in \<open>auto simp: upd_conv_take_nth_drop\<close>)
qed

lemma pop_own_ok:
  assumes v: "up_view n base L ep e wps qs bs K" and k: "k < n" "life_held (l_pcs L k) = None"
    and none: "life_held none = None" "active none = active (l_pcs L k)" "life_pc_ok n none"
    and some: "\<And>t. life_held (some t) = Some t" "\<And>t. active (some t) = active (l_pcs L k)" "\<And>t. life_pc_ok n (some t)"
  shows "work_ok n base k L (pop_own_task k none some L)"
proof -
  note d = up_viewD[OF v]
  have kl: "k < length wps" using k(1) d(2) by simp
  obtain w where w: "Worker_get k (l_rt L) = Inr (wps ! k, w)" using worker_of[OF v k(1)] by blast
  have sub: "{wps ! k} \<subseteq> insert ep (set wps)" using kl by auto
  show ?thesis
  proof (cases "qs ! k")
    case Nil
    from pop_queue_empty[OF d(1) kl Nil] obtain s' where
      s': "pop_queue (wps ! k) (l_rt L) = Inr (None, s')" "runtime s' ep e wps qs" "touches {} {wps ! k} (l_rt L) s'" by blast
    have "work_ok n base k L (l_go k none (L\<lparr>l_rt := s'\<rparr>))"
      using d k none s'(2) touches_mem_view[OF d(3) s'(3) sub] touches_LOCAL[OF s'(3)]
      by (intro work_okI[OF v]) (auto intro!: sched_go count_go)
    then show ?thesis using w s'(1) by (simp add: pop_own_task_def l_do_def)
  next
    case (Cons t ts)
    from pop_queue_ok[OF d(1) kl Cons] obtain s' where
      s': "pop_queue (wps ! k) (l_rt L) = Inr (Some t, s')" "runtime s' ep e wps (qs[k := ts])" "touches {} {wps ! k} (l_rt L) s'" by blast
    note q = take_sets[OF d(1) kl Cons]
    have t: "K t = Sched" using sched_viewD(1)[OF d(4), of t] q(1) by (simp del: set_concat)
    have "mem_view n base (l_wakers L) s' ep wps bs (K(t := Held))"
      by (rule take_mem_view[OF touches_mem_view[OF d(3) s'(3) sub] t]) auto
    then have "work_ok n base k L (l_go k (some t) (L\<lparr>l_rt := s'\<rparr>))"
      using s'(2) touches_LOCAL[OF s'(3)] sched_take[OF d(4) k(1) k(2) some(1) q] count_go[OF d(5) k(1) some(2,3)]
      by (intro work_okI[OF v])
    then show ?thesis using w s'(1) by (simp add: pop_own_task_def l_do_def)
  qed
qed

lemma steal_ok:
  assumes v: "up_view n base L ep e wps qs bs K" and k: "k < n" "l_pcs L k = W_steal j st"
  shows "\<exists>r s'. bind_r (Worker_get k (l_rt L)) (\<lambda>(a, w). try_steal a (l_rt L)) = Inr (r, s') \<and>
    work_ok n base k L (l_go k (case r of None \<Rightarrow> W_steal (j - 1) st | Some t \<Rightarrow> W_active t) (L\<lparr>l_rt := s'\<rparr>))"
proof -
  note d = up_viewD[OF v]
  let ?s = "l_rt L"
  have kl: "k < length wps" using k(1) d(2) by simp
  have pk: "life_pc_ok n (l_pcs L k)" "life_held (l_pcs L k) = None" "\<not> active (l_pcs L k)" "0 < n"
    using d(5) k by (auto simp: count_view_def life_held_def active_def)
  have n: "2 \<le> length wps" using pk(1,4) k(2) d(2) by (auto simp: life_pc_ok_def)
  obtain w0 where w0: "Worker_get k ?s = Inr (wps ! k, w0)" using worker_of[OF v k(1)] by blast
  define vic where "vic = steal_victim (length wps) k (seed_of ?s (wps ! k))"
  have vl: "vic < length wps" using steal_victim_less[OF kl n] vic_def by simp
  obtain w where w: "worker_ok ep wps k w" and steal: "try_steal (wps ! k) ?s =
    bind_r (if qs ! vic = [] then Inr (None, ?s) else pop_queue (wps ! vic) ?s) (\<lambda>(task, s').
       case task of
         Some t \<Rightarrow> bind_r (set_worker_id t (worker_id w) s') (\<lambda>s'. Inr (Some t, s'))
       | None \<Rightarrow> bind_r (set_seed (wps ! k) (next_seed (seed_of ?s (wps ! k))) s') (\<lambda>s'. Inr (None, s')))"
    using try_steal_victim[OF d(1) kl n vic_def] by blast
  show ?thesis
  proof (cases "qs ! vic")
    case Nil
    from set_seed_ok[OF d(1) kl, of "next_seed (seed_of ?s (wps ! k))"] obtain s' where
      s': "set_seed (wps ! k) (next_seed (seed_of ?s (wps ! k))) ?s = Inr s'" "runtime s' ep e wps qs" "touches {} {wps ! k} ?s s'" by blast
    have "{wps ! k} \<subseteq> insert ep (set wps)" using kl by auto
    then have "work_ok n base k L (l_go k (W_steal (j - 1) st) (L\<lparr>l_rt := s'\<rparr>))"
      using d k pk s'(2) touches_mem_view[OF d(3) s'(3)] touches_LOCAL[OF s'(3)]
      by (intro work_okI[OF v]) (auto intro!: sched_go count_go simp: life_held_def active_def life_pc_ok_def)
    then show ?thesis using w0 steal Nil s'(1) by simp
  next
    case (Cons t ts)
    from pop_queue_ok[OF d(1) vl Cons] obtain s1 where
      s1: "pop_queue (wps ! vic) ?s = Inr (Some t, s1)" "runtime s1 ep e wps (qs[vic := ts])" "touches {} {wps ! vic} ?s s1" by blast
    note q = take_sets[OF d(1) vl Cons]
    have t: "K t = Sched" using sched_viewD(1)[OF d(4), of t] q(1) by (simp del: set_concat)
    have sub: "{wps ! vic} \<subseteq> insert ep (set wps)" using vl by auto
    have v1: "mem_view n base (l_wakers L) s1 ep wps bs (K(t := Held))"
      by (rule take_mem_view[OF touches_mem_view[OF d(3) s1(3) sub] t]) auto
    let ?s2 = "with_hdr t (\<lambda>h. h\<lparr>t_worker_id := worker_id w\<rparr>) s1"
    have tk: "is_task s1 t" by (rule kind_task[OF mem_viewD(3)[OF v1]]) simp
    obtain sb c x where "tview s1 t = Some (True, sb, c, x)" "sb \<in> {1, 3}" "unat c = Suc (refs (l_wakers L) t)"
      by (rule kind_live[OF mem_viewD(3)[OF v1], of t]) simp_all
    then have "kind_ok n (refs (l_wakers L) t) (tview ?s2 t) Held" using w k(1) by (simp add: tview_hdr(3) worker_ok_def)
    from hdr_mem_view[OF v1 _ _ _ _ this] have v2: "mem_view n base (l_wakers L) ?s2 ep wps bs (K(t := Held))" by simp
    have "work_ok n base k L (l_go k (W_active t) (L\<lparr>l_rt := ?s2\<rparr>))"
    proof (rule work_okI[OF v _ v2])
      show "runtime ?s2 ep e wps (qs[vic := ts])" using s1(2) tk by (simp add: with_hdr_runtime)
      show "LOCAL ?s2 = LOCAL (l_rt L)" using touches_LOCAL[OF s1(3)] by simp
      show "sched_view n ((l_pcs L)(k := W_active t)) (qs[vic := ts]) bs (K(t := Held))"
        by (rule sched_take[OF d(4) k(1) pk(2) _ q]) (simp add: life_held_def)
      show "count_view n ((l_pcs L)(k := W_active t)) e"
        using pk by (intro count_go[OF d(5) k(1)]) (auto simp: active_def life_pc_ok_def)
    qed
    moreover have "try_steal (wps ! k) ?s = Inr (Some t, ?s2)"
      using steal Cons s1(1) tk by (simp add: set_worker_id_def modify_task_with_hdr)
    ultimately show ?thesis using w0 by simp
  qed
qed

section \<open>The epoch word\<close>

lemma store_epoch_view:
  assumes v: "up_view n base L ep e wps qs bs K"
  shows "runtime (store ep (Obj_epoch e') (l_rt L)) ep e' wps qs"
    "mem_view n base (l_wakers L) (store ep (Obj_epoch e') (l_rt L)) ep wps bs K"
    "LOCAL (store ep (Obj_epoch e') (l_rt L)) = LOCAL (l_rt L)" "deref_epoch ep (l_rt L) = Inr e"
proof -
  note d = up_viewD[OF v]
  have m: "mem (l_rt L) ep = Some (Init (Obj_epoch e))" "ep \<noteq> null" using d(1) by (simp_all add: runtime_def)
  show "runtime (store ep (Obj_epoch e') (l_rt L)) ep e' wps qs" using store_epoch_ok[OF d(1)] by blast
  show "mem_view n base (l_wakers L) (store ep (Obj_epoch e') (l_rt L)) ep wps bs K"
    by (rule touches_mem_view[OF d(3) store_touches(2)[OF m(1)]]) auto
  show "deref_epoch ep (l_rt L) = Inr e" using m by (simp add: deref_epoch_Inr)
qed (simp add: store_def)

lemma inactive_ok:
  assumes v: "up_view n base L ep e wps qs bs K" and k: "k < n" "l_pcs L k = W_inactive"
  shows "\<exists>st s'. bind_r (Worker_get k (l_rt L)) (\<lambda>(a, w). set_inactive_at (w_epoch w) (l_rt L)) = Inr (st, s') \<and>
    work_ok n base k L (l_go k (W_head st) (L\<lparr>l_rt := s'\<rparr>))"
proof -
  note d = up_viewD[OF v] and st = store_epoch_view[OF v]
  obtain w where w: "Worker_get k (l_rt L) = Inr (wps ! k, w)" "worker_ok ep wps k w" using worker_of[OF v k(1)] by blast
  have a: "active (l_pcs L k)" "life_held (l_pcs L k) = None" using k(2) by (simp_all add: active_def life_held_def)
  have c: "0 < unat (active_count e)" "n = 1 \<Longrightarrow> active_count (e - 1) = 0"
    using count_dec[OF d(5) k(1) a(1), of "W_wait 0"] by (simp_all add: active_def life_pc_ok_def)
  then have cv: "count_view n ((l_pcs L)(k := W_head (e - 1))) (e - 1)"
    using count_dec(2)[OF d(5) k(1) a(1)] by (simp add: active_def life_pc_ok_def)
  have "work_ok n base k L (l_go k (W_head (e - 1)) (L\<lparr>l_rt := store ep (Obj_epoch (e - 1)) (l_rt L)\<rparr>))"
    by (rule work_okI[OF v st(1-3) _ cv]) (use d(4) a in \<open>auto intro: sched_go simp: life_held_def\<close>)
  then show ?thesis using w st(4) c(1) sub_checked_1[OF c(1)]
    by (auto simp: set_inactive_at_def set_inactive_def worker_ok_def)
qed

lemma active_ok:
  assumes v: "up_view n base L ep e wps qs bs K" and k: "k < n" "l_pcs L k = W_active t"
  shows "\<exists>s'. bind_r (Worker_get k (l_rt L)) (\<lambda>(a, w). set_active_at (w_epoch w) (l_rt L)) = Inr s' \<and>
    work_ok n base k L (l_go k (W_poll t) (L\<lparr>l_rt := s'\<rparr>))"
proof -
  note d = up_viewD[OF v] and st = store_epoch_view[OF v]
  obtain w where w: "Worker_get k (l_rt L) = Inr (wps ! k, w)" "worker_ok ep wps k w" using worker_of[OF v k(1)] by blast
  have a: "\<not> active (l_pcs L k)" "life_held (l_pcs L k) = Some t" using k(2) by (simp_all add: active_def life_held_def)
  have c: "unat (active_count e) < 511" "count_view n ((l_pcs L)(k := W_poll t)) (e + 1)"
    using count_inc[OF d(5) k(1) a(1), of "W_poll t"] by (simp_all add: active_def life_pc_ok_def)
  let ?s = "store ep (Obj_epoch (e + 1)) (l_rt L)"
  have ev: "mem_view n base (l_wakers L) (?s\<lparr>events := x\<rparr>) ep wps bs K" for x
    by (rule touches_mem_view[OF st(2)[of "e + 1"], of "{}" "{}"]) (auto simp: touches_def)
  have "work_ok n base k L (l_go k (W_poll t) (L\<lparr>l_rt := ?s\<lparr>events := x\<rparr>\<rparr>))" for x
    by (rule work_okI[OF v _ ev _ _ c(2)]) (use d(4) a st(1,3) in \<open>auto intro: sched_go simp: life_held_def\<close>)
  from this[of "events ?s"] this have "work_ok n base k L (l_go k (W_poll t) (L\<lparr>l_rt := if active_count e = 0
      then ?s\<lparr>events := events ?s @ [Unpark_all ep]\<rparr> else ?s\<rparr>))" by simp
  then show ?thesis using w st(4) add_checked_1[OF c(1)]
    by (auto simp: set_active_at_def set_active_def worker_ok_def Let_def)
qed

lemma reload_ok:
  assumes v: "up_view n base L ep e wps qs bs K" and k: "k < n" "l_pcs L k = W_reload st"
  shows "\<exists>new. bind_r (Worker_get k (l_rt L)) (\<lambda>(a, w). get_status_at (w_epoch w) (l_rt L)) = Inr new \<and>
    work_ok n base k L (l_go k (if epoch new > epoch st then W_local new else W_head new) L)"
proof -
  note d = up_viewD[OF v]
  obtain w where w: "Worker_get k (l_rt L) = Inr (wps ! k, w)" "worker_ok ep wps k w" using worker_of[OF v k(1)] by blast
  have a: "\<not> active (l_pcs L k)" using k(2) by (simp add: active_def)
  have "work_ok n base k L (l_go k (if epoch e > epoch st then W_local e else W_head e) L)"
    by (rule work_go[OF v k(1)]) (use k count_alone[OF d(5) k(1) a] in \<open>auto simp: life_held_def active_def life_pc_ok_def\<close>)
  then show ?thesis using w store_epoch_view(4)[OF v] by (auto simp: get_status_at_def get_status_def worker_ok_def)
qed

section \<open>Polling\<close>

text \<open>The task a worker holds.\<close>

lemma life_held_task:
  assumes v: "up_view n base L ep e wps qs bs K" and k: "k < n" "life_held (l_pcs L k) = Some t"
  obtains st c w where "K t = Held" "tview (l_rt L) t = Some (True, st, c, w)" "st = 1 \<or> st = 3"
    "unat c = Suc (refs (l_wakers L) t)" "unat w < n" "is_task (l_rt L) t" "t \<notin> set (concat qs)" "\<forall>i. t \<notin> set (concat (bs i))"
proof -
  note d = up_viewD[OF v]
  have K: "K t = Held" using sched_viewD(4)[OF d(4), of t] k by blast
  then have nq: "t \<notin> set (concat qs)" "\<forall>i. t \<notin> set (concat (bs i))" using sched_viewD(1)[OF d(4), of t] by auto
  have tk: "is_task (l_rt L) t" by (rule kind_task[OF mem_viewD(3)[OF d(3)]]) (simp add: K)
  obtain st c w where "tview (l_rt L) t = Some (True, st, c, w)" "st \<in> kind_status (K t)" "unat c = Suc (refs (l_wakers L) t)" "unat w < n"
    by (rule kind_live[OF mem_viewD(3)[OF d(3)], of t]) (simp_all add: K)
  then show thesis using that[OF K _ _ _ _ tk nq] K by simp
qed

text \<open>Changing the header of the life_held task.\<close>

lemma life_held_hdr:
  assumes v: "up_view n base L ep e wps qs bs K" and k: "k < n" "life_held (l_pcs L k) = Some t" and g: "\<And>h. t_next (g h) = t_next h"
    and kd: "kd \<noteq> Absent" "kind_ok n (refs (l_wakers L) t) (tview (with_hdr t g (l_rt L)) t) kd"
  shows "runtime (with_hdr t g (l_rt L)) ep e wps qs" "mem_view n base (l_wakers L) (with_hdr t g (l_rt L)) ep wps bs (K(t := kd))"
    "modify_task t g (l_rt L) = Inr (with_hdr t g (l_rt L))"
proof -
  note d = up_viewD[OF v]
  obtain st c w where t: "K t = Held" "is_task (l_rt L) t" by (rule life_held_task[OF v k])
  show "runtime (with_hdr t g (l_rt L)) ep e wps qs" using d(1) t(2) g by (simp add: with_hdr_runtime)
  show "mem_view n base (l_wakers L) (with_hdr t g (l_rt L)) ep wps bs (K(t := kd))"
    by (rule hdr_mem_view[OF d(3) _ kd(1) g _ kd(2)]) (simp_all add: t(1))
  show "modify_task t g (l_rt L) = Inr (with_hdr t g (l_rt L))" by (rule modify_task_with_hdr[OF t(2)])
qed

lemma tview_with:
  assumes "tview s t = Some (l, st, c, w)"
  shows "tview (with_hdr t (\<lambda>h. h\<lparr>t_status := F (t_status h)\<rparr>) s) t = Some (l, F st, c, w)"
    "tview (with_hdr t (\<lambda>h. h\<lparr>t_rc := G (t_rc h)\<rparr>) s) t = Some (l, st, G c, w)"
  using assms by (simp_all add: tview_hdr)

lemma Held_id: "K t = Held \<Longrightarrow> K(t := Held) = K"
  by auto

lemma poll_begin_ok:
  assumes v: "up_view n base L ep e wps qs bs K" and k: "k < n" "l_pcs L k = W_poll t"
  shows "\<exists>s'. poll_begin t (l_rt L) = Inr s' \<and> work_ok n base k L (l_go k (W_run t) (L\<lparr>l_rt := s'\<rparr>))"
proof -
  note d = up_viewD[OF v]
  have h: "life_held (l_pcs L k) = Some t" using k(2) by (simp add: life_held_def)
  obtain st c w where t: "K t = Held" "tview (l_rt L) t = Some (True, st, c, w)" "st = 1 \<or> st = 3"
    "unat c = Suc (refs (l_wakers L) t)" "unat w < n" by (rule life_held_task[OF v k(1) h])
  let ?g = "\<lambda>t. t\<lparr>t_status := t_status t AND NOT NOTIFIED\<rparr>"
  have "kind_ok n (refs (l_wakers L) t) (tview (with_hdr t ?g (l_rt L)) t) Held"
    unfolding tview_with(1)[OF t(2), where F = "\<lambda>st. st AND NOT NOTIFIED"] using t by (auto simp: status_bits)
  note hd = life_held_hdr[OF v k(1) h _ _ this, simplified Held_id[of K, OF t(1)]]
  have "work_ok n base k L (l_go k (W_run t) (L\<lparr>l_rt := with_hdr t ?g (l_rt L)\<rparr>))"
    by (rule work_okI[OF v]) (use hd d k in \<open>auto intro!: sched_go count_go simp: life_held_def active_def life_pc_ok_def\<close>)
  then show ?thesis using hd(3) by (simp add: poll_begin_def)
qed

lemma poll_pending_ok:
  assumes v: "up_view n base L ep e wps qs bs K" and k: "k < n" "l_pcs L k = W_pending t"
  shows "\<exists>ret s'. poll_pending t (l_rt L) = Inr (ret, s') \<and> work_ok n base k L (l_go k (if ret then W_chk else W_run t) (L\<lparr>l_rt := s'\<rparr>))"
proof -
  note d = up_viewD[OF v]
  have h: "life_held (l_pcs L k) = Some t" using k(2) by (simp add: life_held_def)
  obtain st c w where t: "K t = Held" "tview (l_rt L) t = Some (True, st, c, w)" "st = 1 \<or> st = 3"
    "unat c = Suc (refs (l_wakers L) t)" "unat w < n" "is_task (l_rt L) t" by (rule life_held_task[OF v k(1) h])
  have st: "deref_task t (l_rt L) = Inr (task_at (l_rt L) t)" "t_status (task_at (l_rt L) t) = st"
    using is_task_deref[OF t(6)] tview_task_at[OF t(2)] by simp_all
  let ?g = "\<lambda>x t. t\<lparr>t_status := x\<rparr>"
  have tv: "tview (with_hdr t (?g x) (l_rt L)) t = Some (True, x, c, w)" for x
    by (rule tview_with(1)[OF t(2), where F = "\<lambda>_. x"])
  show ?thesis
  proof (cases "st = MUTED")
    case True
    have "kind_ok n (refs (l_wakers L) t) (tview (with_hdr t (?g 0) (l_rt L)) t) Idle" using t by (simp add: tv)
    note hd = life_held_hdr[OF v k(1) h _ _ this]
    have "work_ok n base k L (l_go k W_chk (L\<lparr>l_rt := with_hdr t (?g 0) (l_rt L)\<rparr>))"
      by (rule work_okI[OF v, where K' = "K(t := Idle)"])
        (use hd d k sched_release[OF d(4) k(1) h] in \<open>auto intro!: count_go simp: life_held_def active_def life_pc_ok_def\<close>)
    then show ?thesis using hd(3) st True by (auto simp: poll_pending_def)
  next
    case False
    have "kind_ok n (refs (l_wakers L) t) (tview (with_hdr t (?g MUTED) (l_rt L)) t) Held" using t by (simp add: tv status_bits)
    note hd = life_held_hdr[OF v k(1) h _ _ this, simplified Held_id[of K, OF t(1)]]
    have "work_ok n base k L (l_go k (W_run t) (L\<lparr>l_rt := with_hdr t (?g MUTED) (l_rt L)\<rparr>))"
      by (rule work_okI[OF v]) (use hd d k in \<open>auto intro!: sched_go count_go simp: life_held_def active_def life_pc_ok_def\<close>)
    then show ?thesis using hd(3) st False by (auto simp: poll_pending_def)
  qed
qed

lemma poll_ready_eq:
  assumes "t \<noteq> null" "mem s t = Some (Init (TaskInner h f))"
  shows "poll_ready t s = Inr (s\<lparr>mem := (mem s)(t := if t_rc h = 1 then None
    else Some (Dropped (TaskInner (h\<lparr>t_status := t_status h OR DROPPED, t_rc := t_rc h - 1\<rparr>) f)))\<rparr>)"
proof -
  let ?s = "s\<lparr>mem := (mem s)(t \<mapsto> Dropped (TaskInner (h\<lparr>t_status := t_status h OR DROPPED\<rparr>) f))\<rparr>"
  have "poll_ready t s = rc_dec t ?s"
    using assms by (simp add: poll_ready_def modify_task_def deref_task_def deref_def fn_drop_in_place_def on_mem_def do_drop_in_place_def)
  also have "\<dots> = Inr (s\<lparr>mem := (mem s)(t := if t_rc h = 1 then None
    else Some (Dropped (TaskInner (h\<lparr>t_status := t_status h OR DROPPED, t_rc := t_rc h - 1\<rparr>) f)))\<rparr>)"
    using rc_dec_dropped[OF assms(1), of ?s "h\<lparr>t_status := t_status h OR DROPPED\<rparr>" f] by simp
  finally show ?thesis .
qed

text \<open>Giving up the runtime's reference: the kind of the task afterwards.\<close>

definition after_drop :: "nat \<Rightarrow> kind" where
  "after_drop r = (if r = 0 then Absent else Done)"

lemma after_drop_ok:
  assumes "unat c = Suc r" "mem s' t = (if c = 1 then None
    else Some (Dropped (TaskInner (h\<lparr>t_status := st OR DROPPED, t_rc := c - 1\<rparr>) f)))"
  shows "kind_ok n r (tview s' t) (after_drop r)" "after_drop r = Absent \<longleftrightarrow> mem s' t = None" "after_drop r \<notin> {Sched, Held}"
proof -
  have c: "c = 1 \<longleftrightarrow> r = 0" using assms(1) by (auto simp: word_unat_eq_iff)
  have "unat (c - 1) = r" using assms(1) by (metis diff_Suc_1 unat_0 unat_minus_one nat.distinct(1))
  moreover have "(st OR DROPPED) AND DROPPED \<noteq> 0" by (simp add: status_bits bit.conj_disj_distrib2)
  ultimately show "kind_ok n r (tview s' t) (after_drop r)" "after_drop r = Absent \<longleftrightarrow> mem s' t = None"
    using assms(2) c by (auto simp: after_drop_def tview_def)
qed (simp add: after_drop_def)

lemma poll_ready_ok:
  assumes v: "up_view n base L ep e wps qs bs K" and k: "k < n" "l_pcs L k = W_ready t"
  shows "\<exists>s'. poll_ready t (l_rt L) = Inr s' \<and> work_ok n base k L (l_go k W_chk (L\<lparr>l_rt := s'\<rparr>))"
proof -
  note d = up_viewD[OF v]
  have h: "life_held (l_pcs L k) = Some t" using k(2) by (simp add: life_held_def)
  obtain st c w where t: "K t = Held" "tview (l_rt L) t = Some (True, st, c, w)"
    "unat c = Suc (refs (l_wakers L) t)" "is_task (l_rt L) t" "t \<notin> set (concat qs)" "\<forall>i. t \<notin> set (concat (bs i))"
    by (rule life_held_task[OF v k(1) h])
  then obtain hd f where m: "t \<noteq> null" "mem (l_rt L) t = Some (Init (TaskInner hd f))" "t_rc hd = c"
    by (auto simp: tview_Some is_task_def)
  let ?r = "refs (l_wakers L) t"
  let ?s = "(l_rt L)\<lparr>mem := (mem (l_rt L))(t := if c = 1 then None
    else Some (Dropped (TaskInner (hd\<lparr>t_status := t_status hd OR DROPPED, t_rc := c - 1\<rparr>) f)))\<rparr>"
  note ad = after_drop_ok[OF t(3), where s' = ?s and t = t and h = hd and st = "t_status hd" and f = f]
  have "work_ok n base k L (l_go k W_chk (L\<lparr>l_rt := ?s\<rparr>))"
  proof (rule work_okI[OF v])
    show "runtime ?s ep e wps qs" by (rule runtime_other[OF d(1) t(4,5)]) auto
    show "mem_view n base (l_wakers L) ?s ep wps bs (K(t := after_drop ?r))"
      by (rule other_mem_view[OF d(3) _ t(6)[rule_format] d(1)]) (use t(1) ad(1,2) in auto)
    show "sched_view n ((l_pcs L)(k := W_chk)) qs bs (K(t := after_drop ?r))"
      using ad(3) by (intro sched_release[OF d(4) k(1) h]) (auto simp: life_held_def)
    show "count_view n ((l_pcs L)(k := W_chk)) e"
      using k by (intro count_go[OF d(5) k(1)]) (auto simp: active_def life_pc_ok_def)
  qed simp
  then show ?thesis using poll_ready_eq[OF m(1,2)] m(3) by auto
qed

section \<open>What a future does\<close>

lemma life_held_future:
  assumes v: "up_view n base L ep e wps qs bs K" and k: "k < n" "life_held (l_pcs L k) = Some t"
  obtains h f where "t \<noteq> null" "mem (l_rt L) t = Some (Init (TaskInner h f))" "fn_poll t (l_rt L) = Inr f"
proof -
  obtain st c w where t: "tview (l_rt L) t = Some (True, st, c, w)" "is_task (l_rt L) t" by (rule life_held_task[OF v k])
  then obtain h f where "t \<noteq> null" "mem (l_rt L) t = Some (Init (TaskInner h f))" by (auto simp: tview_Some is_task_def)
  then show thesis using that by (simp add: fn_poll_def deref_def)
qed

lemma update_ok:
  assumes v: "up_view n base L ep e wps qs bs K" and k: "k < n" "l_pcs L k = W_run t"
  shows "work_ok n base k L (on_rt (set_future t f') L)"
proof -
  note d = up_viewD[OF v]
  have h: "life_held (l_pcs L k) = Some t" using k(2) by (simp add: life_held_def)
  obtain st c w where t: "K t = Held" "is_task (l_rt L) t" "t \<notin> set (concat qs)" "\<forall>i. t \<notin> set (concat (bs i))"
    by (rule life_held_task[OF v k(1) h])
  obtain hd f where m: "t \<noteq> null" "mem (l_rt L) t = Some (Init (TaskInner hd f))" by (rule life_held_future[OF v k(1) h])
  let ?s = "store t (TaskInner hd f') (l_rt L)"
  have "tview ?s t = tview (l_rt L) t" using m by (simp add: tview_def store_def)
  then have "kind_ok n (refs (l_wakers L) t) (tview ?s t) Held"
    using tasks_okD(1)[OF mem_viewD(3)[OF d(3)], of t] t(1) by metis
  then have "mem_view n base (l_wakers L) ?s ep wps bs (K(t := Held))"
    by (intro other_mem_view[OF d(3) _ t(4)[rule_format] d(1)]) (auto simp: store_def t(1))
  then have "work_ok n base k L (L\<lparr>l_rt := ?s\<rparr>)"
    using d(4,5) by (intro work_stay[OF v runtime_other[OF d(1) t(2,3)]]) (auto simp: store_def Held_id[of K, OF t(1)])
  then show ?thesis using m by (simp add: on_rt_def l_do_def set_future_def deref_def)
qed

text \<open>A new task is pushed.\<close>

lemma new_task_view:
  assumes rt: "runtime s ep e wps qs" and v: "mem_view n base W s ep wps bs K" and p: "fresh_for s p" "0 < n"
  shows "\<exists>s1. Task_new p f s = Inr (p, s1) \<and> runtime s1 ep e wps qs \<and> is_task s1 p \<and> p \<notin> set (concat qs) \<and>
    LOCAL s1 = LOCAL s \<and> mem_view n base W s1 ep wps bs (K(p := Sched)) \<and> K p = Absent \<and> dom (mem s1) = insert p (dom (mem s))"
proof -
  have p': "p \<noteq> null" "alloc_ok p (mem s)" using p by (simp_all add: fresh_for_def)
  from Task_new_ok[OF rt p', of f] obtain s1 where
    s1: "Task_new p f s = Inr (p, s1)" "runtime s1 ep e wps qs" "p \<notin> set (concat qs)"
      "mem s1 p = Some (Init (TaskInner fresh_task f))" "is_task s1 p" "\<forall>a. a \<noteq> p \<longrightarrow> mem s1 a = mem s a"
      "GLOBAL s1 = GLOBAL s" "LOCAL s1 = LOCAL s" by blast
  have "mem s1 = (mem s)(p \<mapsto> Init (TaskInner fresh_task f))" using s1(4,6) by auto
  then show ?thesis using s1 alloc_mem_view[OF v p _ s1(4,7,8)] by auto
qed

lemma push_view:
  assumes "mem_view n base W s1 ep wps bs (K(p := Sched))" "K p = Absent" "sched_view n pc qs bs K" "touches A U s1 s2"
    and "U \<subseteq> insert ep (set wps)" "A \<subseteq> insert p (set (concat qs))"
  shows "mem_view n base W s2 ep wps bs (K(p := Sched))"
proof (rule touches_mem_view[OF assms(1,4,5)])
  note d = sched_viewD[OF assms(3)]
  show "(K(p := Sched)) a \<noteq> Absent" if "a \<in> A" for a
    using that assms(6) d(1)[of a] by (cases "a = p") (auto simp del: set_concat)
  show "A \<inter> set (concat (bs i)) = {}" for i
    using assms(6) d(1)[of p] d(2)[of i] assms(2) by (auto simp del: set_concat)
qed

lemma spawn_view:
  assumes v: "up_view n base L ep e wps qs bs K" and k: "k < n" and p: "fresh_for (l_rt L) p"
  shows "work_ok n base k L (on_rt (MTRuntime_spawn p f k) L)"
proof -
  note d = up_viewD[OF v]
  have kl: "k < length wps" using k d(2) by simp
  have n: "0 < n" using k by simp
  from new_task_view[OF d(1,3) p n, of f] obtain s1 where
    s1: "Task_new p f (l_rt L) = Inr (p, s1)" "runtime s1 ep e wps qs" "is_task s1 p" "p \<notin> set (concat qs)"
      "LOCAL s1 = LOCAL (l_rt L)" "mem_view n base (l_wakers L) s1 ep wps bs (K(p := Sched))" "K p = Absent" by blast
  obtain w where w: "Worker_get k s1 = Inr (wps ! k, w)"
    using local_worker[OF s1(2) kl] s1(5) mem_viewD(1)[OF d(3) k] by auto
  let ?j = "spawn_target (length wps) k (seed_of s1 (wps ! k))"
  from spawn_ok[OF s1(2) kl s1(3,4) refl] obtain s2 where
    s2: "spawn_w (wps ! k) p s1 = Inr s2" "runtime s2 ep (if ?j = k then e else e + EPOCH) wps (qs[?j := qs ! ?j @ [p]])"
      "touches (set (concat qs)) (insert ep (set wps)) s1 s2" by blast
  have jl: "?j < length qs" using spawn_target_less[OF kl] d(1) by (simp add: runtime_def)
  have "mem_view n base (l_wakers L) s2 ep wps bs (K(p := Sched))"
    by (rule push_view[OF s1(6,7) d(4) s2(3)]) (auto simp del: set_concat)
  moreover have "sched_view n (l_pcs L) (qs[?j := qs ! ?j @ [p]]) bs (K(p := Sched))"
    by (rule sched_push[OF d(4) _ _ set_concat_upd_append[OF jl]]) (simp_all add: s1(7))
  ultimately have "work_ok n base k L (L\<lparr>l_rt := s2\<rparr>)"
    using touches_LOCAL[OF s2(3)] s1(5) d(5) count_bump[OF d(5)] by (intro work_stay[OF v s2(2)]) auto
  then show ?thesis using s1(1) w s2(1) by (simp add: on_rt_def l_do_def MTRuntime_spawn_def)
qed

text \<open>
  A new task at the front of a queue, once and in a loop over workers: \<open>pushed\<close> is what such a loop keeps.
\<close>

definition pushed :: "nat \<Rightarrow> 'f obj heap \<Rightarrow> (nat \<rightharpoonup> addr) \<Rightarrow> (nat \<Rightarrow> life_pc) \<Rightarrow> 'f rt \<Rightarrow> addr \<Rightarrow> u32 \<Rightarrow> addr list \<Rightarrow>
    (tid \<Rightarrow> addr list list) \<Rightarrow> 'f rt \<Rightarrow> bool" where
  "pushed n base W pc s0 ep e wps bs s \<longleftrightarrow> LOCAL s = LOCAL s0 \<and>
     (\<exists>qs K. runtime s ep e wps qs \<and> mem_view n base W s ep wps bs K \<and> sched_view n pc qs bs K)"

lemma push_one:
  assumes s: "pushed n base W pc s0 ep e wps bs s" and j: "j < n" "length wps = n" and p: "fresh_for s p"
  shows "\<exists>s1 s2. Task_new p f s = Inr (p, s1) \<and> LOCAL s1 = LOCAL s \<and> (\<exists>qs. runtime s1 ep e wps qs) \<and>
    on_queue (wps ! j) (\<lambda>l. push_front l p) s1 = Inr s2 \<and> pushed n base W pc s0 ep e wps bs s2 \<and> dom (mem s2) = insert p (dom (mem s))"
proof -
  obtain qs K where d: "runtime s ep e wps qs" "mem_view n base W s ep wps bs K" "sched_view n pc qs bs K" "LOCAL s = LOCAL s0"
    using s by (auto simp: pushed_def)
  have n: "0 < n" and jl: "j < length wps" using j by simp_all
  from new_task_view[OF d(1,2) p n, of f] obtain s1 where
    s1: "Task_new p f s = Inr (p, s1)" "runtime s1 ep e wps qs" "is_task s1 p" "p \<notin> set (concat qs)"
      "LOCAL s1 = LOCAL s" "mem_view n base W s1 ep wps bs (K(p := Sched))" "K p = Absent" "dom (mem s1) = insert p (dom (mem s))" by blast
  from on_queue_push_front[OF s1(2) jl s1(3,4)] obtain s2 where
    s2: "on_queue (wps ! j) (\<lambda>l. push_front l p) s1 = Inr s2" "runtime s2 ep e wps (qs[j := p # qs ! j])"
      "touches {p} {wps ! j} s1 s2" by blast
  note jq = runtime_nth(3)[OF d(1) jl]
  have "mem_view n base W s2 ep wps bs (K(p := Sched))" by (rule push_view[OF s1(6,7) d(3) s2(3)]) (use jl in auto)
  moreover have "set (concat (qs[j := p # qs ! j])) = insert p (set (concat qs))"
    using concat_update_Cons[OF jq, of "p # qs ! j"] concat_update_Cons[OF jq, of "qs ! j"] by auto
  then have "sched_view n pc (qs[j := p # qs ! j]) bs (K(p := Sched))"
    by (rule sched_push[OF d(3), rotated 2]) (simp_all add: s1(7))
  ultimately have "pushed n base W pc s0 ep e wps bs s2"
    using s2(2) touches_LOCAL[OF s2(3)] s1(5) d(4) unfolding pushed_def by auto
  then show ?thesis using s1 s2(1) touches_dom[OF s2(3)] by auto
qed

lemma up_pushed: "up_view n base L ep e wps qs bs K \<Longrightarrow> pushed n base (l_wakers L) (l_pcs L) (l_rt L) ep e wps bs (l_rt L)"
  unfolding pushed_def up_view_def by blast

lemma pushed_work:
  assumes "up_view n base L ep e wps qs bs K" "pushed n base (l_wakers L) (l_pcs L) (l_rt L) ep e' wps bs s'" "count_view n (l_pcs L) e'"
  shows "work_ok n base k L (L\<lparr>l_rt := s'\<rparr>)"
  using assms(2,3) work_stay[OF assms(1)] unfolding pushed_def by blast

lemma pushed_epoch:
  assumes "pushed n base W pc s0 ep e wps bs s"
  shows "\<exists>s'. next_epoch_at ep s = Inr s' \<and> pushed n base W pc s0 ep (e + EPOCH) wps bs s'"
proof -
  obtain qs K where d: "runtime s ep e wps qs" "mem_view n base W s ep wps bs K" "sched_view n pc qs bs K" "LOCAL s = LOCAL s0"
    using assms by (auto simp: pushed_def)
  from next_epoch_at_ok[OF d(1)] obtain s' where
    s': "next_epoch_at ep s = Inr s'" "runtime s' ep (e + EPOCH) wps qs" "touches {} {ep} s s'" by blast
  have "mem_view n base W s' ep wps bs K" by (rule touches_mem_view[OF d(2) s'(3)]) auto
  then show ?thesis using s' d(3,4) touches_LOCAL[OF s'(3)] unfolding pushed_def by auto
qed

lemma defer_view:
  assumes v: "up_view n base L ep e wps qs bs K" and k: "k < n" and p: "fresh_for (l_rt L) p"
  shows "work_ok n base k L (on_rt (MTRuntime_defer p f k) L)"
proof -
  note d = up_viewD[OF v]
  from push_one[OF up_pushed[OF v] k d(2) p, of f] obtain s1 s2 qs1 where
    s1: "Task_new p f (l_rt L) = Inr (p, s1)" "LOCAL s1 = LOCAL (l_rt L)" "runtime s1 ep e wps qs1"
      "on_queue (wps ! k) (\<lambda>l. push_front l p) s1 = Inr s2" "pushed n base (l_wakers L) (l_pcs L) (l_rt L) ep e wps bs s2" by blast
  obtain w where "Worker_get k s1 = Inr (wps ! k, w)"
    using local_worker[OF s1(3), of k k] k d(2) s1(2) mem_viewD(1)[OF d(3) k] by auto
  then show ?thesis using s1(1,4) pushed_work[OF v s1(5) d(5)] by (simp add: on_rt_def l_do_def MTRuntime_defer_def defer_w_def)
qed

lemma rng_view:
  assumes v: "up_view n base L ep e wps qs bs K" and k: "k < n"
  shows "work_ok n base k L (l_do (MTRuntime_rng_gen k (l_rt L)) (\<lambda>(x, s). L\<lparr>l_rt := s\<rparr>) L)"
proof -
  note d = up_viewD[OF v]
  have kl: "k < length wps" using k d(2) by simp
  obtain w where w: "Worker_get k (l_rt L) = Inr (wps ! k, w)" "mem (l_rt L) (wps ! k) = Some (Init (Obj_worker w))"
    using worker_of[OF v k] by blast
  obtain w' where "deref_worker (wps ! k) (l_rt L) = Inr w'" using runtime_worker[OF d(1) kl] by blast
  moreover from set_seed_ok[OF d(1) kl, of "next_seed (w_seed w')"] obtain s' where
    s': "set_seed (wps ! k) (next_seed (w_seed w')) (l_rt L) = Inr s'" "runtime s' ep e wps qs" "touches {} {wps ! k} (l_rt L) s'" by blast
  moreover have "mem_view n base (l_wakers L) s' ep wps bs K" by (rule touches_mem_view[OF d(3) s'(3)]) (use kl in auto)
  then have "work_ok n base k L (L\<lparr>l_rt := s'\<rparr>)"
    using s'(2) touches_LOCAL[OF s'(3)] d(4,5) by (intro work_stay[OF v]) auto
  ultimately show ?thesis using w(1) by (simp add: MTRuntime_rng_gen_def rng_gen_w_def l_do_def Let_def)
qed

text \<open>Cloning a waker of a task of any kind.\<close>

abbreviation rc_up :: "Task \<Rightarrow> Task" where
  "rc_up \<equiv> \<lambda>h. h\<lparr>t_rc := t_rc h + 1\<rparr>"

lemma clone_kind:
  assumes "kind_ok n r (tview s t) kd" "kd \<noteq> Absent" "r + 2 < 2 ^ 64"
  shows "kind_ok n (Suc r) (tview (with_hdr t rc_up s) t) kd"
proof -
  have inc: "unat (c + 1) = Suc (unat c)" if "unat (c :: usize) \<le> Suc r" for c
    using that assms(3) unat_word_ariths(1)[of c 1] by simp
  obtain l st c w where tv: "tview s t = Some (l, st, c, w)" "unat c \<le> Suc r" using assms(1,2) by (cases kd) auto
  note tview_with(2)[OF tv(1), where G = "\<lambda>c. c + 1"]
  then show ?thesis using assms(1,2) tv inc[OF tv(2)] by (cases kd) auto
qed

lemma clone_view:
  assumes v: "mem_view n base W s ep wps bs K" and t: "K t \<noteq> Absent"
    and W: "W w = None" "finite (dom W)" "card (dom W) + 2 < 2 ^ 64"
  shows "mem_view n base (W(w \<mapsto> t)) (with_hdr t rc_up s) ep wps bs K"
proof -
  have "refs W t + 2 < 2 ^ 64" using refs_le[OF W(2), of t] W(3) by linarith
  from clone_kind[OF tasks_okD(1)[OF mem_viewD(3)[OF v]] t this]
  have "kind_ok n (refs (W(w \<mapsto> t)) t) (tview (with_hdr t rc_up s) t) (K t)" using refs_upd(1)[of W w t t, OF W(2,1)] by simp
  from hdr_mem_view[OF v t t _ _ this] show ?thesis using refs_upd(1)[of W w t, OF W(2,1)] by simp
qed

lemma fn_clone_eq: "is_task s t \<Longrightarrow> fn_clone t s = Inr (with_hdr t rc_up s)"
  by (simp add: fn_clone_def rc_inc_def modify_task_with_hdr)

lemma clone_ok:
  assumes v: "up_view n base L ep e wps qs bs K" and t: "K t \<noteq> Absent"
    and w: "fresh_waker L w" "finite (dom (l_wakers L))"
  shows "work_ok n base k L (l_do (fn_clone t (l_rt L)) (\<lambda>s. L\<lparr>l_rt := s, l_wakers := (l_wakers L)(w \<mapsto> t)\<rparr>) L)"
proof -
  note d = up_viewD[OF v]
  note tk = kind_task[OF mem_viewD(3)[OF d(3)] t]
  let ?s = "with_hdr t rc_up (l_rt L)"
  have "mem_view n base ((l_wakers L)(w \<mapsto> t)) ?s ep wps bs K"
    using w by (intro clone_view[OF d(3) t]) (simp_all add: fresh_waker_def)
  moreover have "runtime ?s ep e wps qs" using d(1) tk by (simp add: with_hdr_runtime)
  ultimately have "up_view n base (L\<lparr>l_rt := ?s, l_wakers := (l_wakers L)(w \<mapsto> t)\<rparr>) ep e wps qs bs K"
    using d by (simp add: up_view_def)
  then have "life_up n base (L\<lparr>l_rt := ?s, l_wakers := (l_wakers L)(w \<mapsto> t)\<rparr>)" unfolding life_up_def by blast
  then show ?thesis using w(1) fn_clone_eq[OF tk] by (auto simp: work_ok_def l_do_def intro: exI[of _ "l_pcs L k"])
qed

text \<open>Waking a task that is not idle only changes its status.\<close>

abbreviation st_woken :: "Task \<Rightarrow> Task" where
  "st_woken \<equiv> \<lambda>h. h\<lparr>t_status := t_status h OR (MUTED OR NOTIFIED)\<rparr>"

lemma dropped_busy: "(st :: u8) AND DROPPED \<noteq> 0 \<Longrightarrow> st AND (MUTED OR DROPPED) \<noteq> 0"
proof -
  have "(st AND (MUTED OR DROPPED)) AND DROPPED = st AND DROPPED" by (simp add: and.assoc status_bits)
  then show "st AND DROPPED \<noteq> 0 \<Longrightarrow> st AND (MUTED OR DROPPED) \<noteq> 0" by auto
qed

lemma wake_busy:
  assumes ok: "tasks_ok n s W K" and t: "K t \<in> {Sched, Held, Done}"
  shows "wake i t s = Inr (with_hdr t st_woken s)" "kind_ok n (refs W t) (tview (with_hdr t st_woken s) t) (K t)"
proof -
  have tk: "is_task s t" by (rule kind_task[OF ok]) (use t in auto)
  obtain l st c w where tv: "tview s t = Some (l, st, c, w)" using tk by (auto simp: tview_task)
  have st: "st AND (MUTED OR DROPPED) \<noteq> 0" "K t = Done \<Longrightarrow> (st OR (MUTED OR NOTIFIED)) AND DROPPED \<noteq> 0"
  proof -
    show "st AND (MUTED OR DROPPED) \<noteq> 0"
    proof (cases "K t = Done")
      case True
      then show ?thesis using tasks_okD(1)[OF ok, of t] tv by (intro dropped_busy) simp
    next
      case False
      then show ?thesis using tasks_okD(1)[OF ok, of t] t tv by (auto simp: status_bits)
    qed
    show "(st OR (MUTED OR NOTIFIED)) AND DROPPED \<noteq> 0" if "K t = Done"
      using tasks_okD(1)[OF ok, of t] tv that by (auto simp: status_bits bit.conj_disj_distrib2)
  qed
  then show "wake i t s = Inr (with_hdr t st_woken s)"
    using tk tview_task_at[OF tv] by (simp add: wake_def is_task_deref modify_task_with_hdr Let_def)
  show "kind_ok n (refs W t) (tview (with_hdr t st_woken s) t) (K t)"
    unfolding tview_with(1)[OF tv, where F = "\<lambda>st. st OR (MUTED OR NOTIFIED)"]
    using tasks_okD(1)[OF ok, of t] t tv st(2) by (auto simp: status_bits)
qed

lemma wake_busy_ok:
  assumes v: "up_view n base L ep e wps qs bs K" and t: "K t \<in> {Sched, Held, Done}"
  shows "work_ok n base k L (on_rt (fn_wake_by_ref i t) L)"
proof -
  note d = up_viewD[OF v]
  note wk = wake_busy[OF mem_viewD(3)[OF d(3)] t]
  have t': "K t \<noteq> Absent" using t by auto
  note tk = kind_task[OF mem_viewD(3)[OF d(3)] t']
  from hdr_mem_view[OF d(3) t' t' _ _ wk(2)]
  have "mem_view n base (l_wakers L) (with_hdr t st_woken (l_rt L)) ep wps bs K" by simp
  then have "work_ok n base k L (L\<lparr>l_rt := with_hdr t st_woken (l_rt L)\<rparr>)"
    using d tk by (intro work_stay[OF v]) (auto simp: with_hdr_runtime)
  then show ?thesis using wk(1) by (simp add: on_rt_def l_do_def fn_wake_by_ref_def)
qed

section \<open>Shutting down\<close>

text \<open>The allocator's answers that are still unused.\<close>

definition fresh_all :: "'f rt \<Rightarrow> addr list \<Rightarrow> bool" where
  "fresh_all s ps \<longleftrightarrow> distinct ps \<and> (\<forall>p\<in>set ps. fresh_for s p)"

lemma fresh_all_dom: "dom (mem s') = dom (mem s) \<Longrightarrow> fresh_all s ps \<Longrightarrow> fresh_all s' ps"
  unfolding fresh_all_def fresh_for_def alloc_ok_def by (metis domIff)

lemma fresh_all_Cons:
  assumes "fresh_all s (p # ps)" "dom (mem s') = insert p (dom (mem s))"
  shows "fresh_all s' ps"
proof -
  have "q \<notin> dom (mem s')" "q \<noteq> null" if "q \<in> set ps" for q
    using assms that unfolding assms(2) by (auto simp: fresh_all_def fresh_for_def alloc_ok_def)
  then show ?thesis using assms(1) by (auto simp: fresh_all_def fresh_for_def alloc_ok_def)
qed

lemma push_all_view:
  assumes "pushed n base W pc s0 ep e wps bs s" "length wps = n" "set xs \<subseteq> set wps" "length xs \<le> length ps" "fresh_all s ps"
  shows "\<exists>s'. push_all_front f xs ps s = Inr s' \<and> pushed n base W pc s0 ep e wps bs s'"
  using assms
proof (induction xs arbitrary: ps s)
  case (Cons x xs)
  then obtain p ps' j where ps: "ps = p # ps'" "fresh_for s p" and j: "x = wps ! j" "j < n"
    by (cases ps) (auto simp: fresh_all_def in_set_conv_nth)
  from push_one[OF Cons.prems(1) j(2) Cons.prems(2) ps(2), of f] obtain s1 s2 where
    s1: "Task_new p f s = Inr (p, s1)" "on_queue (wps ! j) (\<lambda>l. push_front l p) s1 = Inr s2"
      "pushed n base W pc s0 ep e wps bs s2" "dom (mem s2) = insert p (dom (mem s))" by blast
  have "\<exists>s'. push_all_front f xs ps' s2 = Inr s' \<and> pushed n base W pc s0 ep e wps bs s'"
    by (rule Cons.IH[OF s1(3)]) (use Cons.prems ps(1) fresh_all_Cons[OF _ s1(4)] in auto)
  then show ?case using s1 ps j by auto
qed auto

lemma shutdown_others_view:
  assumes "pushed n base W pc s0 ep e wps bs s" "length wps = n" "set xs \<subseteq> set wps" "length xs \<le> length ps" "fresh_all s ps"
  shows "\<exists>s'. shutdown_others f xs ps s = Inr s' \<and> pushed n base W pc s0 ep e wps bs s'"
  using assms
proof (induction xs arbitrary: ps s)
  case (Cons x xs)
  then obtain p ps' j where ps: "ps = p # ps'" "fresh_for s p" and j: "x = wps ! j" "j < n"
    by (cases ps) (auto simp: fresh_all_def in_set_conv_nth)
  obtain qs where "runtime s ep e wps qs" using Cons.prems(1) by (auto simp: pushed_def)
  then obtain w where w: "deref_worker x s = Inr w" using runtime_worker[of s ep e wps qs j] j Cons.prems(2) by auto
  show ?case
  proof (cases "w_shutdown w")
    case True
    have "\<exists>s'. shutdown_others f xs ps' s = Inr s' \<and> pushed n base W pc s0 ep e wps bs s'"
      by (rule Cons.IH[OF Cons.prems(1)]) (use Cons.prems ps(1) in \<open>auto simp: fresh_all_def\<close>)
    then show ?thesis using w True ps(1) by simp
  next
    case False
    from push_one[OF Cons.prems(1) j(2) Cons.prems(2) ps(2), of f] obtain s1 s2 where
      s1: "Task_new p f s = Inr (p, s1)" "on_queue (wps ! j) (\<lambda>l. push_front l p) s1 = Inr s2"
        "pushed n base W pc s0 ep e wps bs s2" "dom (mem s2) = insert p (dom (mem s))" by blast
    have "\<exists>s'. shutdown_others f xs ps' s2 = Inr s' \<and> pushed n base W pc s0 ep e wps bs s'"
      by (rule Cons.IH[OF s1(3)]) (use Cons.prems ps(1) fresh_all_Cons[OF _ s1(4)] in auto)
    then show ?thesis using s1 ps j w False by auto
  qed
qed auto

lemma fresh_listD: "fresh_list n s ps \<Longrightarrow> fresh_all s ps \<and> length ps = n"
  by (simp add: fresh_list_def fresh_all_def list_all_iff)

lemma shutdown_async_view:
  assumes v: "up_view n base L ep e wps qs bs K" and ps: "fresh_list n (l_rt L) ps"
  shows "work_ok n base k L (on_rt (shutdown_async f ps) L)"
proof -
  note d = up_viewD[OF v] and ps' = fresh_listD[OF ps]
  from push_all_view[OF up_pushed[OF v] d(2), of wps ps f] d(2) ps' obtain s1 where
    s1: "push_all_front f wps ps (l_rt L) = Inr s1" "pushed n base (l_wakers L) (l_pcs L) (l_rt L) ep e wps bs s1" by auto
  from pushed_epoch[OF s1(2)] obtain s2 where
    s2: "next_epoch_at ep s1 = Inr s2" "pushed n base (l_wakers L) (l_pcs L) (l_rt L) ep (e + EPOCH) wps bs s2" by blast
  show ?thesis using s1(1) s2(1) pushed_work[OF v s2(2) count_bump[OF d(5)]]
    by (simp add: on_rt_def l_do_def shutdown_async_def runtime_shared[OF d(1)])
qed

lemma shutdown_poll_ok:
  assumes v: "up_view n base L ep e wps qs bs K" and k: "k < n" "l_pcs L k = W_run t" and ps: "fresh_list n (l_rt L) ps"
  shows "\<exists>s'. Shutdown_poll f ps k (l_rt L) = Inr s' \<and> work_ok n base k L (l_go k (W_ready t) (L\<lparr>l_rt := s'\<rparr>))"
proof -
  note d = up_viewD[OF v] and ps' = fresh_listD[OF ps]
  have kl: "k < length wps" using k(1) d(2) by simp
  obtain w where w: "Worker_get k (l_rt L) = Inr (wps ! k, w)" "worker_ok ep wps k w"
    "mem (l_rt L) (wps ! k) = Some (Init (Obj_worker w))" using worker_of[OF v k(1)] by blast
  let ?s = "store (wps ! k) (Obj_worker (w\<lparr>w_shutdown := True\<rparr>)) (l_rt L)"
  have "mem_view n base (l_wakers L) ?s ep wps bs K"
    by (rule touches_mem_view[OF d(3) store_touches(1)[OF w(3)]]) (use kl in auto)
  moreover have "runtime ?s ep e wps qs"
    by (rule store_worker_ok[OF d(1) kl w(3)]) (use w(2) in \<open>simp_all add: worker_ok_def\<close>)
  ultimately have pu: "pushed n base (l_wakers L) (l_pcs L) (l_rt L) ep e wps bs ?s"
    using d(4) unfolding pushed_def by (auto simp: store_def)
  have "dom (mem ?s) = dom (mem (l_rt L))" using touches_dom[OF store_touches(1)[OF w(3)]] .
  then have fr: "fresh_all ?s ps" using ps' fresh_all_dom by blast
  have "set (other_workers w) \<subseteq> set wps" "length (other_workers w) \<le> length ps"
    using w(2) d(2) kl ps' by (auto simp: worker_ok_def dest: in_set_takeD in_set_dropD)
  from shutdown_others_view[OF pu d(2) this fr, of f] obtain s1 where
    s1: "shutdown_others f (other_workers w) ps ?s = Inr s1" "pushed n base (l_wakers L) (l_pcs L) (l_rt L) ep e wps bs s1" by blast
  from pushed_epoch[OF s1(2)] obtain s2 where
    s2: "next_epoch_at ep s1 = Inr s2" "pushed n base (l_wakers L) (l_pcs L) (l_rt L) ep (e + EPOCH) wps bs s2" by blast
  obtain qs' K' where f: "runtime s2 ep (e + EPOCH) wps qs'" "mem_view n base (l_wakers L) s2 ep wps bs K'"
    "sched_view n (l_pcs L) qs' bs K'" "LOCAL s2 = LOCAL (l_rt L)" using s2(2) by (auto simp: pushed_def)
  have "work_ok n base k L (l_go k (W_ready t) (L\<lparr>l_rt := s2\<rparr>))"
    by (rule work_okI[OF v f(1,2,4)])
      (use f(3) k count_bump[OF d(5)] in \<open>auto intro!: sched_go count_go simp: life_held_def active_def life_pc_ok_def\<close>)
  then show ?thesis using w(1,2) s1(1) s2(1) by (simp add: Shutdown_poll_def Let_def worker_ok_def)
qed

section \<open>Every step of a worker\<close>

lemma call_step_ok:
  assumes v: "up_view n base L ep e wps qs bs K" and k: "k < n" "l_pcs L k = W_run t"
    and env: "call_env n c L" "finite (dom (l_wakers L))"
  shows "work_ok n base k L (call_step k t c L)"
proof -
  have h: "life_held (l_pcs L k) = Some t" using k(2) by (simp add: life_held_def)
  obtain st cc w where K: "K t = Held" by (rule life_held_task[OF v k(1) h])
  show ?thesis
  proof (cases c)
    case (C_return ready)
    then show ?thesis using work_go[OF v k(1)] k(2) by (simp add: life_held_def active_def life_pc_ok_def)
  next
    case (C_clone w)
    then show ?thesis using clone_ok[OF v _ _ env(2), of t w k] env(1) K by simp
  qed (use env(1) update_ok[OF v k] spawn_view[OF v k(1)] defer_view[OF v k(1)] rng_view[OF v k(1)]
      shutdown_async_view[OF v] wake_busy_ok[OF v] K in simp_all)
qed

lemma life_work_ok:
  assumes v: "up_view n base L ep e wps qs bs K" and k: "k < n"
    and env: "fresh_list n (l_rt L) ps" "call_env n c L" "finite (dom (l_wakers L))" and M: "life_work k ps c L = Some M"
  shows "work_ok n base k L M \<and> l_pcs L k \<noteq> W_exited"
proof -
  obtain w where w: "Worker_get k (l_rt L) = Inr (wps ! k, w)" using worker_of[OF v k] by blast
  have pk: "life_pc_ok n (l_pcs L k)" using up_viewD(5)[OF v] k by (simp add: count_view_def)
  note defs = life_work_def Let_def life_held_def active_def life_pc_ok_def
  show ?thesis
  proof (cases "l_pcs L k")
    case W_drain
    then show ?thesis using M pop_own_ok[OF v k, of W_inactive W_poll] by (simp add: defs)
  next
    case (W_poll t)
    then show ?thesis using M poll_begin_ok[OF v k W_poll] by (auto simp: defs l_do_def)
  next
    case (W_run t)
    have "life_held (l_pcs L k) = Some t" using W_run by (simp add: life_held_def)
    from life_held_future[OF v k this] obtain f where f: "fn_poll t (l_rt L) = Inr f" by blast
    then show ?thesis using M W_run shutdown_poll_ok[OF v k W_run env(1), of Shutdown] call_step_ok[OF v k W_run env(2,3)]
      by (cases f) (auto simp: defs l_do_def)
  next
    case (W_pending t)
    then show ?thesis using M poll_pending_ok[OF v k W_pending] by (auto simp: defs l_do_def)
  next
    case (W_ready t)
    then show ?thesis using M poll_ready_ok[OF v k W_ready] by (auto simp: defs l_do_def)
  next
    case W_chk
    then show ?thesis using M w work_go[OF v k] by (auto simp: defs l_do_def)
  next
    case W_inactive
    then show ?thesis using M inactive_ok[OF v k W_inactive] by (auto simp: defs l_do_def)
  next
    case (W_head st)
    then show ?thesis using M w pk work_go[OF v k] by (auto simp: defs l_do_def)
  next
    case (W_steal j st)
    then show ?thesis using M pk steal_ok[OF v k W_steal] work_go[OF v k] by (cases "j = 0") (auto simp: defs l_do_def)
  next
    case (W_recheck st)
    then show ?thesis using M pop_own_ok[OF v k, of "W_wait st" W_active] by (simp add: defs)
  next
    case (W_wait st)
    then show ?thesis using M work_go[OF v k] by (auto simp: defs)
  next
    case (W_reload st)
    then show ?thesis using M reload_ok[OF v k W_reload] by (auto simp: defs l_do_def)
  next
    case (W_local st)
    then show ?thesis using M pk pop_own_ok[OF v k, of "W_head st" W_active] by (simp add: defs)
  next
    case (W_active t)
    then show ?thesis using M active_ok[OF v k W_active] by (auto simp: defs l_do_def)
  qed (use M in \<open>simp add: life_work_def\<close>)
qed

end
