(* ===== verification/Lifecycle_Others.thy ===== *)
theory Lifecycle_Others
  imports Lifecycle_Workers
begin

text \<open>
  The steps of the threads that are not workers: reactors that batch, owners of wakers and the main
  thread, which ends with the tear-down.  None of them faults, and all keep the invariant.
\<close>

section \<open>Waking\<close>

text \<open>A new, changed or given up batch of thread \<open>i\<close>.\<close>

lemma batchesD:
  assumes "batches n s bs"
  shows "n \<le> i \<Longrightarrow> LOCAL s i \<noteq> null \<Longrightarrow> batch s i (LOCAL s i) (bs i) \<and> length (bs i) = n"
    "\<not> (n \<le> i \<and> LOCAL s i \<noteq> null) \<Longrightarrow> bs i = []"
    "n \<le> i \<Longrightarrow> n \<le> j \<Longrightarrow> LOCAL s i = LOCAL s j \<Longrightarrow> LOCAL s i \<noteq> null \<Longrightarrow> i = j"
  using assms unfolding batches_def by (metis (full_types))+

lemma batches_upd:
  assumes v: "batches n s bs" and i: "n \<le> i" "LOCAL s' = (LOCAL s)(i := b)"
    and other: "\<And>j c. j \<noteq> i \<Longrightarrow> n \<le> j \<Longrightarrow> LOCAL s j = c \<Longrightarrow> batch s j c (bs j) \<Longrightarrow> batch s' j c (bs j)"
    and b: "if b = null then b' = [] else batch s' i b b' \<and> length b' = n \<and> (\<forall>j\<ge>n. j \<noteq> i \<longrightarrow> LOCAL s j \<noteq> b)"
  shows "batches n s' (bs(i := b'))"
  unfolding batches_def
proof (intro conjI allI impI)
  fix j show "if n \<le> j \<and> LOCAL s' j \<noteq> null then batch s' j (LOCAL s' j) ((bs(i := b')) j) \<and> length ((bs(i := b')) j) = n
    else (bs(i := b')) j = []"
    using batchesD(1,2)[OF v, of j] other[of j "LOCAL s j"] b i by (cases "j = i") auto
next
  fix j l assume "n \<le> j \<and> n \<le> l \<and> LOCAL s' j = LOCAL s' l \<and> LOCAL s' j \<noteq> null"
  then show "j = l" using batchesD(3)[OF v, of j l] b i by (auto split: if_splits)
qed

lemma batch_mem_view:
  assumes v: "mem_view n base W s ep wps bs K" and i: "n \<le> i" "LOCAL s i = b" "b \<noteq> null"
    and t: "touches A U s s1" "touches {} V (store b (Obj_local d) s1) s'" "U \<union> V \<subseteq> insert ep (set wps)"
    and A: "\<And>a. a \<in> A \<Longrightarrow> K a \<noteq> Absent" "\<And>j. j \<noteq> i \<Longrightarrow> A \<inter> set (concat (bs j)) = {}"
    and b: "batch s' i b b'" "length b' = n"
  shows "mem_view n base W s' ep wps (bs(i := b')) K"
proof -
  note bt = batchesD[OF mem_viewD(2)[OF v]]
  obtain d0 where d0: "mem s b = Some (Init (Obj_local d0))" using bt(1)[of i] i by (auto simp: batch_def)
  have g: "GLOBAL s' = GLOBAL s" "LOCAL s' = LOCAL s" using t(1,2) by (simp_all add: touches_def store_def)
  then have own: "own n s' ep wps K = own n s ep wps K" by (simp add: own_def)
  have bown: "b \<in> own n s ep wps K" using i by (auto simp: own_def)
  have same: "mem s' a = mem s a" if "a \<noteq> b" "a \<notin> A" "a \<notin> insert ep (set wps) \<or> is_task s a \<or> (\<exists>d. mem s a = Some (Init (Obj_local d)))" for a
  proof -
    have "mem s1 a = mem s a" using touches_same[OF t(1)] t(3) that by blast
    then have m: "mem (store b (Obj_local d) s1) a = mem s a" using that(1) by (simp add: store_def)
    then have "is_task (store b (Obj_local d) s1) a = is_task s a" by (simp add: is_task_def)
    then have "a \<notin> V \<or> is_task (store b (Obj_local d) s1) a \<or> (\<exists>d'. mem (store b (Obj_local d) s1) a = Some (Init (Obj_local d')))"
      unfolding m using t(3) that(3) by blast
    then show ?thesis using touches_same[OF t(2), of a] m by (metis empty_iff)
  qed
  have tv: "tview s' = tview s"
  proof
    fix a show "tview s' a = tview s a"
      unfolding touches_tview[OF t(2)] using fun_cong[OF touches_tview[OF t(1)], of a] d0
      by (cases "a = b") (auto simp: tview_def store_def)
  qed
  have dm: "mem s' a \<noteq> None \<longleftrightarrow> mem s a \<noteq> None" for a
  proof -
    have "mem s' a \<noteq> None \<longleftrightarrow> mem (store b (Obj_local d) s1) a \<noteq> None" using touches_dom[OF t(2)] by blast
    moreover have "mem s1 a \<noteq> None \<longleftrightarrow> mem s a \<noteq> None" using touches_dom[OF t(1)] by blast
    ultimately show ?thesis using d0 by (cases "a = b") (simp_all add: store_def)
  qed
  have "batches n s' (bs(i := b'))"
  proof (rule batches_upd[OF mem_viewD(2)[OF v] i(1), of _ b])
    fix j c assume j: "j \<noteq> i" "n \<le> j" "LOCAL s j = c" "batch s j c (bs j)"
    have c: "c \<noteq> b" using bt(3)[OF j(2) i(1)] j(1,3) i(2,3) by auto
    show "batch s' j c (bs j)"
    proof (rule batch_cong[OF j(4)])
      show "mem s' c = mem s c" if "mem s c = Some (Init (Obj_local dc))" for dc
      proof (rule same[OF c])
        show "c \<notin> A"
        proof
          assume "c \<in> A"
          from kind_task[OF mem_viewD(3)[OF v] A(1)[OF this]] show False using that by simp
        qed
      qed (use that in auto)
      show "queue_at s' l xs" if "xs \<in> set (bs j)" "queue_at s l xs" for l xs
      proof -
        have "mem s' x = mem s x" if "x \<in> set xs" for x
        proof (rule same)
          show "x \<notin> A" using A(2)[OF j(1)] that \<open>xs \<in> set (bs j)\<close> by auto
          show "x \<noteq> b" using queue_tasks[OF \<open>queue_at s l xs\<close> that] d0 by auto
        qed (use queue_tasks[OF \<open>queue_at s l xs\<close> that] in blast)
        then show ?thesis using that(2) queue_at_cong[of xs s' s l] by blast
      qed
    qed (simp add: g)
  qed (use g i b bt(3) in auto)
  moreover have "mem s' a = base a" if "a \<notin> own n s ep wps K" for a
  proof -
    have "a \<noteq> b" "a \<notin> A" "a \<notin> insert ep (set wps)" using that bown A(1) by (auto simp: own_def)
    then show ?thesis using same mem_viewD(4)[OF v that] by metis
  qed
  moreover have "tasks_ok n s' W K" using mem_viewD(3)[OF v] by (simp add: tasks_ok_def tv)
  ultimately show ?thesis using mem_viewD[OF v] g(2) dm by (intro mem_viewI) (simp_all add: own)
qed

text \<open>Waking an idle task.\<close>

lemma wake_kind:
  assumes ok: "tasks_ok n s W K" and t: "K t = Idle"
  shows "is_task s t" "t_status (task_at s t) = 0" "unat (t_worker_id (task_at s t)) < n"
    "kind_ok n (refs W t) (tview (with_hdr t st_woken s) t) Sched"
proof -
  show "is_task s t" by (rule kind_task[OF ok]) (simp add: t)
  obtain st c w where tv: "tview s t = Some (True, st, c, w)" "st \<in> kind_status (K t)" "unat c = Suc (refs W t)" "unat w < n"
    by (rule kind_live[OF ok, of t]) (simp_all add: t)
  then show "t_status (task_at s t) = 0" "unat (t_worker_id (task_at s t)) < n" using tview_task_at[OF tv(1)] t by auto
  show "kind_ok n (refs W t) (tview (with_hdr t st_woken s) t) Sched"
    unfolding tview_with(1)[OF tv(1), where F = "\<lambda>st. st OR (MUTED OR NOTIFIED)"] using tv t by (simp add: status_bits)
qed

lemma wake_idle_ok:
  assumes v: "up_view n base L ep e wps qs bs K" and t: "K t = Idle" and i: "n \<le> i"
  shows "work_ok n base k L (on_rt (fn_wake_by_ref i t) L)"
proof -
  note d = up_viewD[OF v]
  note wk = wake_kind[OF mem_viewD(3)[OF d(3)] t]
  let ?s = "l_rt L" and ?s1 = "with_hdr t st_woken (l_rt L)" and ?j = "unat (t_worker_id (task_at (l_rt L) t))"
  have nq: "t \<notin> set (concat qs)" "\<And>j. t \<notin> set (concat (bs j))" using sched_viewD(1)[OF d(4), of t] t by auto
  have v1: "mem_view n base (l_wakers L) ?s1 ep wps bs (K(t := Sched))"
    by (rule hdr_mem_view[OF d(3) _ _ _ _ wk(4)]) (simp_all add: t)
  have lk: "n = length wps" "?j < length wps" "?j < length qs" using wk(3) d(1,2) by (auto simp: runtime_def)
  show ?thesis
  proof (cases "LOCAL ?s i = null")
    case True
    from wake_idle_direct_ok[OF d(1) wk(1) nq(1) wk(2) True refl lk(2)] obtain s' where
      s': "wake i t ?s = Inr s'" "runtime s' ep (e + EPOCH) wps (qs[?j := qs ! ?j @ [t]])"
        "touches (set (qs ! ?j)) {ep, wps ! ?j} ?s1 s'" by blast
    have "mem_view n base (l_wakers L) s' ep wps bs (K(t := Sched))"
    proof (rule touches_mem_view[OF v1 s'(3)])
      show "(K(t := Sched)) a \<noteq> Absent" if "a \<in> set (qs ! ?j)" for a
        using that sched_viewD(1)[OF d(4), of a] nth_mem[OF lk(3)] by auto
      show "set (qs ! ?j) \<inter> set (concat (bs l)) = {}" for l using sched_viewD(2)[OF d(4), of l] nth_mem[OF lk(3)] by auto
    qed (use lk(2) in auto)
    moreover have "sched_view n (l_pcs L) (qs[?j := qs ! ?j @ [t]]) bs (K(t := Sched))"
      by (rule sched_push[OF d(4) _ _ set_concat_upd_append[OF lk(3)]]) (simp_all add: t)
    ultimately have "work_ok n base k L (L\<lparr>l_rt := s'\<rparr>)"
      using touches_LOCAL[OF s'(3)] count_bump[OF d(5)] by (intro work_stay[OF v s'(2)]) auto
    then show ?thesis using s'(1) by (simp add: on_rt_def l_do_def fn_wake_by_ref_def)
  next
    case False
    have ba: "batch ?s i (LOCAL ?s i) (bs i)" "length (bs i) = n" using batchesD(1)[OF mem_viewD(2)[OF d(3)] i False] by auto
    have jb: "?j < length (bs i)" using ba(2) wk(3) by simp
    from wake_idle_batch_ok[OF d(1) ba(1) wk(1) nq(2) wk(2) refl jb sched_viewD(2)[OF d(4)]] obtain s' dd s1 where
      s': "wake i t ?s = Inr s'" "runtime s' ep e wps qs" "batch s' i (LOCAL ?s i) ((bs i)[?j := bs i ! ?j @ [t]])"
        "s' = store (LOCAL ?s i) (Obj_local dd) s1" "touches (set (bs i ! ?j)) {} ?s1 s1" by blast
    let ?b = "(bs i)[?j := bs i ! ?j @ [t]]"
    have mv: "mem_view n base (l_wakers L) s' ep wps (bs(i := ?b)) (K(t := Sched))"
    proof (rule batch_mem_view[OF v1 i _ False s'(5) _ _ _ _ s'(3)])
      show "touches {} {} (store (LOCAL ?s i) (Obj_local dd) s1) s'" using s'(4) by simp
      show "(K(t := Sched)) a \<noteq> Absent" if "a \<in> set (bs i ! ?j)" for a
        using that sched_viewD(1)[OF d(4), of a] nth_mem[OF jb] by auto
      show "set (bs i ! ?j) \<inter> set (concat (bs l)) = {}" if "l \<noteq> i" for l
        using sched_viewD(3)[OF d(4) that] nth_mem[OF jb] by auto
    qed (use ba(2) in auto)
    have sv: "sched_view n (l_pcs L) qs (bs(i := ?b)) (K(t := Sched))"
      by (rule sched_push_batch[OF d(4) _ _ set_concat_upd_append[OF jb]]) (simp_all add: t)
    have lc: "LOCAL s' = LOCAL ?s" using s'(4) touches_LOCAL[OF s'(5)] by (simp add: store_def)
    have "work_ok n base k L (L\<lparr>l_rt := s'\<rparr>)"
      using work_okI[OF v s'(2) mv lc, of k "l_pcs L k"] sv d(5) by (simp add: l_go_def)
    then show ?thesis using s'(1) by (simp add: on_rt_def l_do_def fn_wake_by_ref_def)
  qed
qed

text \<open>A task to which a waker points is there.\<close>

lemma waker_task:
  assumes "tasks_ok n s W K" "finite (dom W)" "W w = Some t"
  shows "K t \<noteq> Absent"
  using tasks_okD(1)[OF assms(1), of t] refs_upd(3)[of W w t, OF assms(2,3)] by (cases "K t") auto

lemma wake_ok:
  assumes v: "up_view n base L ep e wps qs bs K" and w: "finite (dom (l_wakers L))" "l_wakers L w = Some t" and i: "n \<le> i"
  shows "work_ok n base k L (on_rt (fn_wake_by_ref i t) L)"
proof -
  have "K t \<noteq> Absent" by (rule waker_task[OF mem_viewD(3)[OF up_viewD(3)[OF v]] w])
  then consider "K t = Idle" | "K t \<in> {Sched, Held, Done}" by (cases "K t") auto
  then show ?thesis by cases (use wake_idle_ok[OF v _ i] wake_busy_ok[OF v] in blast)+
qed

section \<open>Dropping a waker\<close>

abbreviation rc_down :: "Task \<Rightarrow> Task" where
  "rc_down \<equiv> \<lambda>h. h\<lparr>t_rc := t_rc h - 1\<rparr>"

lemma usize_dec: "unat (c :: usize) = Suc r \<Longrightarrow> unat (c - 1) = r"
  by (metis diff_Suc_1 unat_0 unat_minus_one nat.distinct(1))

text \<open>A live task loses a reference; a finished one is freed with the last.\<close>

lemma drop_live:
  assumes ok: "tasks_ok n s W K" "finite (dom W)" "W w = Some t" and K: "K t \<in> {Sched, Held, Idle}"
  shows "fn_drop t s = Inr (with_hdr t rc_down s)" "kind_ok n (refs (W(w := None)) t) (tview (with_hdr t rc_down s) t) (K t)"
proof -
  obtain st c x where tv: "tview s t = Some (True, st, c, x)" "st \<in> kind_status (K t)" "unat c = Suc (refs W t)" "unat x < n"
    by (rule kind_live[OF ok(1) K])
  have r: "0 < refs W t" "refs (W(w := None)) t = refs W t - 1" using refs_upd(2,3)[of W w t, OF ok(2,3)] by simp_all
  have tk: "is_task s t" using kind_task[OF ok(1), of t] K by auto
  have "c \<noteq> 1" using tv(3) r(1) by auto
  then show "fn_drop t s = Inr (with_hdr t rc_down s)"
    using tview_task_at[OF tv(1)] tk by (simp add: fn_drop_def rc_dec_def rc_def is_task_deref modify_task_with_hdr)
  have "unat (c - 1) = Suc (refs W t - 1)" using usize_dec[OF tv(3)] r(1) by simp
  then show "kind_ok n (refs (W(w := None)) t) (tview (with_hdr t rc_down s) t) (K t)"
    unfolding tview_with(2)[OF tv(1), where G = "\<lambda>c. c - 1"] r(2) using tv K by auto
qed

lemma drop_done:
  assumes ok: "tasks_ok n s W K" "finite (dom W)" "W w = Some t" and K: "K t = Done"
  shows "\<exists>m k. fn_drop t s = Inr (s\<lparr>mem := (mem s)(t := m)\<rparr>) \<and> k \<in> {Absent, Done} \<and> (k = Absent \<longleftrightarrow> m = None) \<and>
    kind_ok n (refs (W(w := None)) t) (tview (s\<lparr>mem := (mem s)(t := m)\<rparr>) t) k"
proof -
  obtain st c x where tv: "tview s t = Some (False, st, c, x)" "st AND DROPPED \<noteq> 0" "unat c = refs W t" "0 < refs W t"
    using tasks_okD(1)[OF ok(1), of t] K by auto
  then obtain h f where m: "mem s t = Some (Dropped (TaskInner h f))" "t_status h = st" "t_rc h = c" by (auto simp: tview_Some)
  have tk: "t \<noteq> null" using tasks_okD(2)[OF ok(1), of t] K by simp
  have r: "refs (W(w := None)) t = refs W t - 1" using refs_upd(2)[of W w t t, OF ok(2,3)] by simp
  have c: "c = 1 \<longleftrightarrow> refs W t = 1" "unat (c - 1) = refs W t - 1"
    using tv(3,4) usize_dec[of c "refs W t - 1"] by (auto simp: word_unat_eq_iff)
  note rc_dec_dropped[OF tk m(1)]
  then show ?thesis using c m(2,3) tv(2,4) r
    by (intro exI[of _ "if c = 1 then None else Some (Dropped (TaskInner (h\<lparr>t_rc := c - 1\<rparr>) f))"]
        exI[of _ "if c = 1 then Absent else Done"]) (auto simp: fn_drop_def tview_def)
qed

lemma refs_other:
  assumes "finite (dom W)" "W w = Some t" "a \<noteq> t"
  shows "refs (W(w := None)) a = refs W a"
  using refs_upd(2)[of W w t a, OF assms(1,2)] assms(3) by simp

lemma drop_waker_up:
  assumes v: "up_view n base L ep e wps qs bs K" and w: "finite (dom (l_wakers L))" "l_wakers L w = Some t"
  shows "\<exists>s' K'. fn_drop t (l_rt L) = Inr s' \<and> LOCAL s' = LOCAL (l_rt L) \<and>
    up_view n base (L\<lparr>l_rt := s', l_wakers := (l_wakers L)(w := None)\<rparr>) ep e wps qs bs K'"
proof -
  note d = up_viewD[OF v]
  note ok = mem_viewD(3)[OF d(3)] and other = refs_other[OF w]
  have K: "K t \<noteq> Absent" by (rule waker_task[OF ok w])
  note tk = kind_task[OF ok K]
  show ?thesis
  proof (cases "K t = Done")
    case True
    from drop_done[OF ok w True] obtain m k where
      mk: "fn_drop t (l_rt L) = Inr ((l_rt L)\<lparr>mem := (mem (l_rt L))(t := m)\<rparr>)" "k \<in> {Absent, Done}" "k = Absent \<longleftrightarrow> m = None"
        "kind_ok n (refs ((l_wakers L)(w := None)) t) (tview ((l_rt L)\<lparr>mem := (mem (l_rt L))(t := m)\<rparr>) t) k" by blast
    let ?s = "(l_rt L)\<lparr>mem := (mem (l_rt L))(t := m)\<rparr>"
    have nq: "t \<notin> set (concat qs)" "\<And>i. t \<notin> set (concat (bs i))" using sched_viewD(1)[OF d(4), of t] True by auto
    have "mem_view n base ((l_wakers L)(w := None)) ?s ep wps bs (K(t := k))"
      by (rule other_mem_view[OF d(3) K nq(2) d(1) _ _ _ other mk(4)]) (use mk(3) in auto)
    moreover have "runtime ?s ep e wps qs" by (rule runtime_other[OF d(1) tk nq(1)]) auto
    moreover have "sched_view n (l_pcs L) qs bs (K(t := k))" by (rule sched_other[OF d(4)]) (use True mk(2) in auto)
    ultimately have "up_view n base (L\<lparr>l_rt := ?s, l_wakers := (l_wakers L)(w := None)\<rparr>) ep e wps qs bs (K(t := k))"
      using d(2,5) by (simp add: up_view_def)
    then show ?thesis using mk(1) by (intro exI[of _ ?s]) auto
  next
    case False
    then have live: "K t \<in> {Sched, Held, Idle}" using K by (cases "K t") auto
    note dl = drop_live[OF ok w live]
    have "mem_view n base ((l_wakers L)(w := None)) (with_hdr t rc_down (l_rt L)) ep wps bs K"
      using hdr_mem_view[OF d(3) K K _ other dl(2)] by simp
    then have "up_view n base (L\<lparr>l_rt := with_hdr t rc_down (l_rt L), l_wakers := (l_wakers L)(w := None)\<rparr>) ep e wps qs bs K"
      using d tk by (simp add: up_view_def with_hdr_runtime)
    then show ?thesis using dl(1) by (intro exI[of _ "with_hdr t rc_down (l_rt L)"]) auto
  qed
qed

section \<open>After the tear-down\<close>

lemma with_hdr_other: "a \<noteq> t \<Longrightarrow> mem (with_hdr t g s) a = mem s a"
  by (simp add: with_hdr_def)

lemma life_downI:
  assumes "GLOBAL (l_rt L) = null" "\<And>a. K a \<in> {Absent, Idle, Done}" "tasks_ok n (l_rt L) (l_wakers L) K"
    and "\<And>a. if K a = Absent then mem (l_rt L) a = base a else base a = None"
  shows "life_down n base L"
  using assms unfolding life_down_def by blast

text \<open>One task changes, and nothing else.\<close>

lemma down_upd:
  assumes d: "life_down n base L" and K: "\<And>K. tasks_ok n (l_rt L) (l_wakers L) K \<Longrightarrow> \<forall>a. K a \<in> {Absent, Idle, Done} \<Longrightarrow>
      \<exists>k. k \<in> {Absent, Idle, Done} \<and> kind_ok n (refs W' t) (tview s' t) k \<and> K t \<noteq> Absent \<and> (k = Absent \<longrightarrow> mem s' t = None)"
    and s': "\<And>a. a \<noteq> t \<Longrightarrow> mem s' a = mem (l_rt L) a" "GLOBAL s' = GLOBAL (l_rt L)"
    and W: "\<And>a. a \<noteq> t \<Longrightarrow> refs W' a = refs (l_wakers L) a"
  shows "life_down n base (L\<lparr>l_rt := s', l_wakers := W'\<rparr>)"
proof -
  obtain K where K0: "GLOBAL (l_rt L) = null" "\<forall>a. K a \<in> {Absent, Idle, Done}" "tasks_ok n (l_rt L) (l_wakers L) K"
    "\<forall>a. if K a = Absent then mem (l_rt L) a = base a else base a = None" using d by (auto simp: life_down_def)
  from K[OF K0(3,2)] obtain k where k: "k \<in> {Absent, Idle, Done}" "kind_ok n (refs W' t) (tview s' t) k" "K t \<noteq> Absent"
    "k = Absent \<longrightarrow> mem s' t = None" by blast
  have "tasks_ok n s' W' (K(t := k))"
    by (rule tasks_ok_upd[OF K0(3) _ k(2)]) (use s'(1) W tasks_okD(2)[OF K0(3) k(3)] in \<open>auto simp: tview_def\<close>)
  moreover have "if (K(t := k)) a = Absent then mem s' a = base a else base a = None" for a
    using K0(4)[rule_format, of a] k(3,4) s'(1)[of a] by (cases "a = t") auto
  moreover have "\<forall>a. (K(t := k)) a \<in> {Absent, Idle, Done}" using K0(2) k(1) by simp
  ultimately show ?thesis using K0(1) s'(2) by (intro life_downI[where K = "K(t := k)"]) (simp_all del: fun_upd_apply)
qed

lemma clone_down:
  assumes d: "life_down n base L" and w: "finite (dom (l_wakers L))" "l_wakers L w = Some t" and x: "fresh_waker L x"
  shows "\<exists>s'. fn_clone t (l_rt L) = Inr s' \<and> LOCAL s' = LOCAL (l_rt L) \<and>
    life_down n base (L\<lparr>l_rt := s', l_wakers := (l_wakers L)(x \<mapsto> t)\<rparr>)"
proof -
  let ?W = "(l_wakers L)(x \<mapsto> t)" and ?s = "with_hdr t rc_up (l_rt L)"
  have x': "l_wakers L x = None" "refs (l_wakers L) t + 2 < 2 ^ 64"
    using x refs_le[OF w(1), of t] by (auto simp: fresh_waker_def)
  note r = refs_upd(1)[of "l_wakers L" x t, OF w(1) x'(1)]
  obtain K where K: "tasks_ok n (l_rt L) (l_wakers L) K" using d by (auto simp: life_down_def)
  note tk = kind_task[OF K waker_task[OF K w]]
  have "life_down n base (L\<lparr>l_rt := ?s, l_wakers := ?W\<rparr>)"
  proof (rule down_upd[OF d])
    fix K' :: "addr \<Rightarrow> kind"
    assume K': "tasks_ok n (l_rt L) (l_wakers L) K'" "\<forall>a. K' a \<in> {Absent, Idle, Done}"
    note t = waker_task[OF K'(1) w]
    have "kind_ok n (refs ?W t) (tview ?s t) (K' t)" using clone_kind[OF tasks_okD(1)[OF K'(1)] t x'(2)] r[of t] by simp
    then show "\<exists>k. k \<in> {Absent, Idle, Done} \<and> kind_ok n (refs ?W t) (tview ?s t) k \<and> K' t \<noteq> Absent \<and> (k = Absent \<longrightarrow> mem ?s t = None)"
      using K'(2) t by blast
  qed (use r in \<open>auto simp: with_hdr_other\<close>)
  then show ?thesis using fn_clone_eq[OF tk] by auto
qed

lemma drop_waker_down:
  assumes d: "life_down n base L" and w: "finite (dom (l_wakers L))" "l_wakers L w = Some t"
  shows "\<exists>s'. fn_drop t (l_rt L) = Inr s' \<and> LOCAL s' = LOCAL (l_rt L) \<and>
    life_down n base (L\<lparr>l_rt := s', l_wakers := (l_wakers L)(w := None)\<rparr>)"
proof -
  let ?W = "(l_wakers L)(w := None)" and ?s = "l_rt L"
  obtain K where K: "tasks_ok n ?s (l_wakers L) K" "\<forall>a. K a \<in> {Absent, Idle, Done}" using d by (auto simp: life_down_def)
  have "K t = Idle \<or> K t = Done" using K(2) waker_task[OF K(1) w] by auto
  then show ?thesis
  proof
    assume I: "K t = Idle"
    then have live: "K t \<in> {Sched, Held, Idle}" by simp
    have "life_down n base (L\<lparr>l_rt := with_hdr t rc_down ?s, l_wakers := ?W\<rparr>)"
    proof (rule down_upd[OF d])
      show "\<exists>k. k \<in> {Absent, Idle, Done} \<and> kind_ok n (refs ?W t) (tview (with_hdr t rc_down ?s) t) k \<and> K' t \<noteq> Absent \<and>
          (k = Absent \<longrightarrow> mem (with_hdr t rc_down ?s) t = None)"
        if "tasks_ok n ?s (l_wakers L) K'" for K'
        using waker_task[OF that w] drop_live(2)[OF K(1) w live] unfolding I by blast
    qed (use refs_other[OF w] in \<open>simp_all add: with_hdr_other\<close>)
    then show ?thesis using drop_live(1)[OF K(1) w live] by auto
  next
    assume D: "K t = Done"
    from drop_done[OF K(1) w D] obtain m k where mk: "fn_drop t ?s = Inr (?s\<lparr>mem := (mem ?s)(t := m)\<rparr>)"
      "k \<in> {Absent, Done}" "k = Absent \<longleftrightarrow> m = None" "kind_ok n (refs ?W t) (tview (?s\<lparr>mem := (mem ?s)(t := m)\<rparr>) t) k" by blast
    have "life_down n base (L\<lparr>l_rt := ?s\<lparr>mem := (mem ?s)(t := m)\<rparr>, l_wakers := ?W\<rparr>)"
    proof (rule down_upd[OF d])
      show "\<exists>k. k \<in> {Absent, Idle, Done} \<and> kind_ok n (refs ?W t) (tview (?s\<lparr>mem := (mem ?s)(t := m)\<rparr>) t) k \<and> K' t \<noteq> Absent \<and>
          (k = Absent \<longrightarrow> mem (?s\<lparr>mem := (mem ?s)(t := m)\<rparr>) t = None)"
        if "tasks_ok n ?s (l_wakers L) K'" for K' using waker_task[OF that w] mk(2-4) by (intro exI[of _ k]) auto
    qed (use refs_other[OF w] in auto)
    then show ?thesis using mk(1) by auto
  qed
qed

section \<open>Batches\<close>

text \<open>What a step of a thread on its own batches keeps.\<close>

definition batch_ok :: "nat \<Rightarrow> 'u fut obj heap \<Rightarrow> nat \<Rightarrow> 'u life \<Rightarrow> 'u life \<Rightarrow> bool" where
  "batch_ok n base i L M \<longleftrightarrow> life_up n base M \<and> l_fault M = l_fault L \<and> l_main M = l_main L \<and> l_pcs M = l_pcs L \<and>
     l_wakers M = l_wakers L \<and> (\<forall>j. j \<noteq> i \<longrightarrow> LOCAL (l_rt M) j = LOCAL (l_rt L) j)"

lemma batch_okI:
  assumes "runtime s' ep e' wps qs'" "length wps = n" "mem_view n base (l_wakers L) s' ep wps bs' K"
    and "sched_view n (l_pcs L) qs' bs' K" "count_view n (l_pcs L) e'" "\<And>j. j \<noteq> i \<Longrightarrow> LOCAL s' j = LOCAL (l_rt L) j"
  shows "batch_ok n base i L (L\<lparr>l_rt := s'\<rparr>)"
proof -
  have "up_view n base (L\<lparr>l_rt := s'\<rparr>) ep e' wps qs' bs' K" using assms(1-5) by (simp add: up_view_def)
  then have "life_up n base (L\<lparr>l_rt := s'\<rparr>)" unfolding life_up_def by blast
  then show ?thesis using assms(6) by (simp add: batch_ok_def)
qed

lemma runtime_LOCAL [simp]: "runtime (s\<lparr>LOCAL := l\<rparr>) ep e wps qs = runtime s ep e wps qs"
proof -
  have "queue_at (s\<lparr>LOCAL := l\<rparr>) li xs = queue_at s li xs" for li xs by (rule queue_at_cong) simp
  then show ?thesis by (simp add: runtime_def worker_at_def)
qed

text \<open>One block that is no task, no worker and not the epoch word is added or removed, and \<open>LOCAL i\<close> set.\<close>

lemma swap_local_view:
  assumes v: "mem_view n base W s ep wps bs K" and i: "n \<le> i" "\<And>k. k < n \<Longrightarrow> i \<noteq> k"
    and b: "\<not> is_task s p" "\<And>j d. j \<noteq> i \<Longrightarrow> n \<le> j \<Longrightarrow> LOCAL s j \<noteq> null \<Longrightarrow> LOCAL s j \<noteq> p" "tview s' p = None" "K p = Absent" "base p = None"
    and s': "s' = s\<lparr>mem := (mem s)(p := m), LOCAL := (LOCAL s)(i := q)\<rparr>"
    and q: "if q = null then b' = [] else batch s' i q b' \<and> length b' = n \<and> q = p"
    and own: "own n s' ep wps K = (if q = null then own n s ep wps K - {p} else insert p (own n s ep wps K))" "m = None \<longleftrightarrow> q = null"
  shows "mem_view n base W s' ep wps (bs(i := b')) K"
proof -
  have same: "mem s' a = mem s a" if "a \<noteq> p" for a using that s' by simp
  have "batches n s' (bs(i := b'))"
  proof (rule batches_upd[OF mem_viewD(2)[OF v] i(1), of _ q])
    fix j c assume j: "j \<noteq> i" "n \<le> j" "LOCAL s j = c" "batch s j c (bs j)"
    then have c: "c \<noteq> p" using b(2)[of j] by (auto simp: batch_def)
    show "batch s' j c (bs j)"
    proof (rule batch_cong[OF j(4)])
      show "queue_at s' l xs" if "queue_at s l xs" for l xs
      proof -
        have "mem s' x = mem s x" if "x \<in> set xs" for x using same[of x] queue_tasks[OF \<open>queue_at s l xs\<close> that] b(1) by auto
        then show ?thesis using that queue_at_cong[of xs s' s l] by blast
      qed
    qed (use same[OF c] s' j(1) in auto)
  qed (use q b(2) s' in \<open>auto split: if_splits\<close>)
  moreover have "tasks_ok n s' W K"
  proof -
    have "tview s' a = tview s a" if "a \<noteq> p" for a using same[OF that] by (simp add: tview_def)
    moreover have "kind_ok n (refs W p) None Absent" using tasks_okD(1)[OF mem_viewD(3)[OF v], of p] b(4) by simp
    ultimately show ?thesis using mem_viewD(3)[OF v] b(3,4) unfolding tasks_ok_def by (metis kind_ok.simps(1))
  qed
  moreover have "mem s' a = base a" if "a \<notin> own n s' ep wps K" for a
    using that same[of a] mem_viewD(4)[OF v, of a] own b(5) s' by (cases "a = p") (auto split: if_splits)
  moreover have "base a = None \<and> mem s' a \<noteq> None" if "a \<in> own n s' ep wps K" for a
    using that same[of a] mem_viewD(5,6)[OF v, of a] own b(5) s' by (cases "a = p") (auto split: if_splits)
  ultimately show ?thesis using mem_viewD(1)[OF v] i(2) s' by (intro mem_viewI) auto
qed

lemma own_iff:
  "a \<in> own n s ep wps K \<longleftrightarrow> a = GLOBAL s \<or> a = ep \<or> a \<in> set wps \<or> K a \<noteq> Absent \<or> a \<noteq> null \<and> (\<exists>j\<ge>n. LOCAL s j = a)"
  by (auto simp: own_def)

lemma batch_new_ok:
  assumes v: "up_view n base L ep e wps qs bs K" and i: "n \<le> i" "LOCAL (l_rt L) i = null" and p: "fresh_for (l_rt L) p"
  shows "batch_ok n base i L (on_rt (BatchGuard_new p i) L)"
proof -
  note d = up_viewD[OF v]
  let ?d = "\<lparr>task_lists = replicate n TaskList_new\<rparr>"
  let ?s = "l_rt L" and ?s' = "(l_rt L)\<lparr>mem := (mem (l_rt L))(p \<mapsto> Init (Obj_local ?d)), LOCAL := (LOCAL (l_rt L))(i := p)\<rparr>"
  have m: "p \<noteq> null" "mem ?s p = None" using p by (auto simp: fresh_for_def alloc_ok_def)
  have no: "p \<notin> own n ?s ep wps K" using mem_viewD(6)[OF d(3), of p] m(2) by auto
  then have K: "K p = Absent" "base p = None" "\<And>j. n \<le> j \<Longrightarrow> LOCAL ?s j \<noteq> null \<Longrightarrow> LOCAL ?s j \<noteq> p"
    using mem_viewD(4)[OF d(3) no] m(2) by (auto simp: own_def)
  have "mem_view n base (l_wakers L) ?s' ep wps (bs(i := replicate n [])) K"
  proof (rule swap_local_view[OF d(3) i(1) _ _ K(3) _ K(1,2) refl])
    show "own n ?s' ep wps K = (if p = null then own n ?s ep wps K - {p} else insert p (own n ?s ep wps K))"
    proof (rule set_eqI)
      fix a
      have "(\<exists>j\<ge>n. ((LOCAL ?s)(i := p)) j = a) \<longleftrightarrow> a = p \<or> (\<exists>j\<ge>n. LOCAL ?s j = a)" if "a \<noteq> null"
        using that i m(1) by (metis fun_upd_apply)
      then show "a \<in> own n ?s' ep wps K \<longleftrightarrow> a \<in> (if p = null then own n ?s ep wps K - {p} else insert p (own n ?s ep wps K))"
        using m(1) by (auto simp: own_iff simp del: fun_upd_apply)
    qed
    have "list_all2 (queue_at ?s') (replicate n TaskList_new) (replicate n [])" by (rule list_all2_new)
    then show "if p = null then replicate n [] = [] else batch ?s' i p (replicate n []) \<and> length (replicate n [] :: addr list list) = n \<and> p = p"
      using m(1) by (simp add: batch_def)
  qed (use i m in \<open>auto simp: tview_def\<close>)
  moreover have "sched_view n (l_pcs L) qs (bs(i := replicate n [])) K"
    using sched_flush[OF d(4), of qs i "replicate n []"] batchesD(2)[OF mem_viewD(2)[OF d(3)], of i] i by simp
  moreover have "runtime ?s' ep e wps qs" using runtime_alloc[OF d(1) m(2)] by simp
  ultimately have "batch_ok n base i L (L\<lparr>l_rt := ?s'\<rparr>)" using d by (intro batch_okI) auto
  moreover have "BatchGuard_new p i ?s = Inr ?s'"
    using m i(2) d(2) by (simp add: BatchGuard_new_def RuntimeLocalData_new_def runtime_shared[OF d(1)] new_obj_def do_new_eq
        get_local_def set_local_def)
  ultimately show ?thesis by (simp add: on_rt_def l_do_def)
qed

lemma set_concat_map2: "length xs = length ys \<Longrightarrow> set (concat (map2 (@) xs ys)) = set (concat xs) \<union> set (concat ys)"
  by (induction xs ys rule: list_induct2) auto

lemma push_batch_view:
  assumes v: "up_view n base L ep e wps qs bs K" and i: "n \<le> i" "LOCAL (l_rt L) i \<noteq> null"
  shows "\<exists>s' e' qs'. push_batch i (l_rt L) = Inr s' \<and> runtime s' ep e' wps qs' \<and> LOCAL s' = LOCAL (l_rt L) \<and>
    mem_view n base (l_wakers L) s' ep wps (bs(i := replicate n [])) K \<and>
    sched_view n (l_pcs L) qs' (bs(i := replicate n [])) K \<and> count_view n (l_pcs L) e'"
proof -
  note d = up_viewD[OF v]
  let ?s = "l_rt L" and ?b = "LOCAL (l_rt L) i"
  have ba: "batch ?s i ?b (bs i)" "length (bs i) = n" using batchesD(1)[OF mem_viewD(2)[OF d(3)] i] by auto
  have len: "length (bs i) = length wps" using ba(2) d(2) by simp
  let ?e = "if concat (bs i) = [] then e else e + EPOCH" and ?q = "map2 (@) qs (bs i)"
  from push_batch_ok[OF d(1) ba(1) len sched_viewD(2)[OF d(4)]] d(2) obtain s' dd s1 where
    s': "push_batch i ?s = Inr s'" "batch s' i ?b (replicate n [])" "runtime s' ep ?e wps ?q"
      "touches (set (concat qs) \<union> set (concat (bs i))) (set wps) ?s s1" "touches {} {ep} (store ?b (Obj_local dd) s1) s'" by auto
  have mv: "mem_view n base (l_wakers L) s' ep wps (bs(i := replicate n [])) K"
  proof (rule batch_mem_view[OF d(3) i(1) refl i(2) s'(4,5) _ _ _ s'(2)])
    show "K a \<noteq> Absent" if "a \<in> set (concat qs) \<union> set (concat (bs i))" for a
      using that sched_viewD(1)[OF d(4), of a] by auto
    show "(set (concat qs) \<union> set (concat (bs i))) \<inter> set (concat (bs j)) = {}" if "j \<noteq> i" for j
      using sched_viewD(2)[OF d(4), of j] sched_viewD(3)[OF d(4), of i j] that by blast
  qed auto
  have "length qs = length (bs i)" using d(1) len by (simp add: runtime_def)
  from sched_flush[OF d(4) set_concat_map2[OF this]] have "sched_view n (l_pcs L) ?q (bs(i := replicate n [])) K" by simp
  moreover have "LOCAL s' = LOCAL ?s" using touches_LOCAL[OF s'(4)] touches_LOCAL[OF s'(5)] by (simp add: store_def)
  moreover have "count_view n (l_pcs L) ?e" using d(5) count_bump by simp
  ultimately show ?thesis using s'(1,3) mv by blast
qed

lemma batch_push_ok:
  assumes v: "up_view n base L ep e wps qs bs K" and i: "n \<le> i" "LOCAL (l_rt L) i \<noteq> null"
  shows "batch_ok n base i L (on_rt (push_batch i) L)"
proof -
  from push_batch_view[OF assms] obtain s' e' qs' where
    s': "push_batch i (l_rt L) = Inr s'" "runtime s' ep e' wps qs'" "LOCAL s' = LOCAL (l_rt L)"
      "mem_view n base (l_wakers L) s' ep wps (bs(i := replicate n [])) K"
      "sched_view n (l_pcs L) qs' (bs(i := replicate n [])) K" "count_view n (l_pcs L) e'" by blast
  have "batch_ok n base i L (L\<lparr>l_rt := s'\<rparr>)"
    by (rule batch_okI[OF s'(2) up_viewD(2)[OF v] s'(4-6)]) (simp add: s'(3))
  then show ?thesis using s'(1) by (simp add: on_rt_def l_do_def)
qed

lemma batch_drop_ok:
  assumes v: "up_view n base L ep e wps qs bs K" and i: "n \<le> i" "LOCAL (l_rt L) i \<noteq> null"
  shows "batch_ok n base i L (on_rt (BatchGuard_drop i) L)"
proof -
  from push_batch_view[OF assms] obtain s1 e1 qs1 where
    s1: "push_batch i (l_rt L) = Inr s1" "runtime s1 ep e1 wps qs1" "LOCAL s1 = LOCAL (l_rt L)"
      "mem_view n base (l_wakers L) s1 ep wps (bs(i := replicate n [])) K"
      "sched_view n (l_pcs L) qs1 (bs(i := replicate n [])) K" "count_view n (l_pcs L) e1" by blast
  let ?b = "LOCAL s1 i" and ?bs = "bs(i := replicate n [])"
  have nn: "?b \<noteq> null" using i(2) s1(3) by simp
  note bt = batchesD[OF mem_viewD(2)[OF s1(4)]]
  obtain d where m: "mem s1 ?b = Some (Init (Obj_local d))" using bt(1)[OF i(1) nn] by (auto simp: batch_def)
  let ?s' = "s1\<lparr>mem := (mem s1)(?b := None), LOCAL := (LOCAL s1)(i := null)\<rparr>"
  have K: "K ?b = Absent" "base ?b = None"
  proof -
    show "K ?b = Absent" using kind_task[OF mem_viewD(3)[OF s1(4)], of ?b] m not_task(4) by blast
    show "base ?b = None" by (rule mem_viewD(5)[OF s1(4)]) (use i(1) nn in \<open>auto simp: own_iff\<close>)
  qed
  have no: "?b \<noteq> GLOBAL s1" "?b \<noteq> ep" "?b \<notin> set wps"
  proof -
    show "?b \<noteq> GLOBAL s1" "?b \<noteq> ep" using s1(2) m by (auto simp: runtime_def)
    show "?b \<notin> set wps" using m runtime_worker[OF s1(2)] by (fastforce simp: in_set_conv_nth)
  qed
  have other: "LOCAL s1 j \<noteq> ?b" if "j \<noteq> i" "n \<le> j" "LOCAL s1 j \<noteq> null" for j using bt(3)[OF that(2) i(1)] that by blast
  have "mem_view n base (l_wakers L) ?s' ep wps (?bs(i := [])) K"
  proof (rule swap_local_view[OF s1(4) i(1) _ _ other _ K refl])
    show "own n ?s' ep wps K = (if null = null then own n s1 ep wps K - {?b} else insert ?b (own n s1 ep wps K))"
    proof (rule set_eqI)
      fix a
      have "(\<exists>j\<ge>n. ((LOCAL s1)(i := null)) j = a) \<longleftrightarrow> a \<noteq> ?b \<and> (\<exists>j\<ge>n. LOCAL s1 j = a)" if "a \<noteq> null"
        using that i nn other by (metis fun_upd_apply)
      moreover have "a \<in> own n ?s' ep wps K \<longleftrightarrow> a = GLOBAL s1 \<or> a = ep \<or> a \<in> set wps \<or> K a \<noteq> Absent \<or>
          a \<noteq> null \<and> (\<exists>j\<ge>n. ((LOCAL s1)(i := null)) j = a)" unfolding own_iff by (simp del: fun_upd_apply)
      ultimately show "a \<in> own n ?s' ep wps K \<longleftrightarrow> a \<in> (if null = null then own n s1 ep wps K - {?b} else insert ?b (own n s1 ep wps K))"
        using no K(1) own_iff[of a n s1 ep wps K] by (simp only: if_True simp_thms Diff_iff singleton_iff) metis
    qed
  qed (use i m in \<open>auto simp: tview_def\<close>)
  moreover have "sched_view n (l_pcs L) qs1 (?bs(i := [])) K" using sched_flush[OF s1(5), of qs1 i "[]"] by simp
  moreover have "runtime ?s' ep e1 wps qs1"
  proof -
    have q: "queue_at (s1\<lparr>mem := (mem s1)(?b := None)\<rparr>) l xs" if "queue_at s1 l xs" for l xs
      using that queue_tasks[OF that] not_task(4)[OF m] by (subst queue_at_cong[of _ _ s1]) auto
    have "worker_at (s1\<lparr>mem := (mem s1)(?b := None)\<rparr>) ep wps qs1 j" if j: "j < length wps" for j
    proof -
      have "wps ! j \<noteq> ?b" using no(3) j by (metis nth_mem)
      moreover obtain w where "mem s1 (wps ! j) = Some (Init (Obj_worker w))" "worker_ok ep wps j w"
        "queue_at s1 (task_list w) (qs1 ! j)" "wps ! j \<noteq> null" using runtime_worker[OF s1(2) j] by blast
      ultimately show ?thesis using q unfolding worker_at_def by auto
    qed
    then have "runtime (s1\<lparr>mem := (mem s1)(?b := None)\<rparr>) ep e1 wps qs1"
      using s1(2) no(1,2) by (auto simp: runtime_def)
    then show ?thesis by simp
  qed
  ultimately have "batch_ok n base i L (L\<lparr>l_rt := ?s'\<rparr>)" using up_viewD(2)[OF v] s1(3,6) by (intro batch_okI) auto
  moreover have "BatchGuard_drop i (l_rt L) = Inr ?s'"
    using s1(1) nn m by (simp add: BatchGuard_drop_def get_local_def set_local_def on_mem_def do_drop_eq Let_def)
  ultimately show ?thesis by (simp add: on_rt_def l_do_def)
qed

section \<open>The main thread\<close>

lemma run_main_ok:
  assumes v: "up_view n base L ep e wps qs bs K" and p: "fresh_for (l_rt L) p"
  shows "\<exists>s'. WorkerGuard_run p f (l_rt L) = Inr s' \<and> work_ok n base k L (L\<lparr>l_rt := s'\<rparr>)"
proof -
  note d = up_viewD[OF v]
  have n: "0 < n" using d(5) by (simp add: count_view_def)
  have l: "0 < length wps" "0 < length qs" using n d(1,2) by (auto simp: runtime_def)
  from new_task_view[OF d(1,3) p n, of f] obtain s1 where
    s1: "Task_new p f (l_rt L) = Inr (p, s1)" "runtime s1 ep e wps qs" "is_task s1 p" "p \<notin> set (concat qs)"
      "LOCAL s1 = LOCAL (l_rt L)" "mem_view n base (l_wakers L) s1 ep wps bs (K(p := Sched))" "K p = Absent" by blast
  from on_queue_push_back[OF s1(2) l(1) s1(3,4)] obtain s2 where
    s2: "on_queue (wps ! 0) (\<lambda>l. push_back l p) s1 = Inr s2" "runtime s2 ep e wps (qs[0 := qs ! 0 @ [p]])"
      "touches (set (qs ! 0)) {wps ! 0} s1 s2" by blast
  from next_epoch_at_ok[OF s2(2)] obtain s3 where
    s3: "next_epoch_at ep s2 = Inr s3" "runtime s3 ep (e + EPOCH) wps (qs[0 := qs ! 0 @ [p]])" "touches {} {ep} s2 s3" by blast
  note t = touches_trans[OF s2(3) s3(3)]
  have "mem_view n base (l_wakers L) s3 ep wps bs (K(p := Sched))"
    by (rule push_view[OF s1(6,7) d(4) t]) (use l nth_mem[OF l(2)] in auto)
  moreover have "sched_view n (l_pcs L) (qs[0 := qs ! 0 @ [p]]) bs (K(p := Sched))"
    by (rule sched_push[OF d(4) _ _ set_concat_upd_append[OF l(2)]]) (simp_all add: s1(7))
  ultimately have "work_ok n base k L (L\<lparr>l_rt := s3\<rparr>)"
    using touches_LOCAL[OF t] s1(5) count_bump[OF d(5)] by (intro work_stay[OF v s3(2)]) auto
  moreover have "deref_shared (get_global s1) s1 = Inr \<lparr>s_epoch = ep, worker_ptrs = wps\<rparr>"
    using runtime_shared[OF s1(2)] by (simp add: RuntimeSharedData_get_def)
  then have "WorkerGuard_run p f (l_rt L) = Inr s3"
    using s1(1) s2(1) s3(1) l(1) by (simp add: WorkerGuard_run_def index_checked_def)
  ultimately show ?thesis by blast
qed

text \<open>The tear-down: of the scheduled tasks only those remain to which wakers point.\<close>

lemma teardown_ok:
  assumes v: "up_view n base L ep e wps qs bs K" and ex: "\<forall>k<n. l_pcs L k = W_exited" and nb: "\<forall>i\<ge>n. LOCAL (l_rt L) i = null"
  shows "\<exists>s'. WorkerGuard_drop no_wakers (l_rt L) = Some (Inr s') \<and> LOCAL s' = LOCAL (l_rt L) \<and> life_down n base (L\<lparr>l_rt := s', l_main := pc\<rparr>)"
proof -
  note d = up_viewD[OF v]
  note ok = mem_viewD(3)[OF d(3)]
  let ?s = "l_rt L" and ?W = "l_wakers L"
  have bs: "bs i = []" for i using batchesD(2)[OF mem_viewD(2)[OF d(3)], of i] nb by (cases "n \<le> i") auto
  have K: "K a = Sched \<longleftrightarrow> a \<in> set (concat qs)" "K a \<noteq> Held" for a
    using sched_viewD(1,4)[OF d(4), of a] bs ex by (auto simp: life_held_def)
  have sch: "\<exists>h f. t \<noteq> null \<and> mem ?s t = Some (Init (TaskInner h f)) \<and> t_status h = 3 \<and> unat (t_rc h) = Suc (refs ?W t)" if "K t = Sched" for t
  proof -
    have k: "kind_ok n (refs ?W t) (tview ?s t) Sched" "t \<noteq> null" using tasks_okD[OF ok, of t] that by simp_all
    then obtain st c w where "tview ?s t = Some (True, st, c, w)" "st = 3" "unat c = Suc (refs ?W t)" by auto
    then show ?thesis using k(2) by (auto simp: tview_Some)
  qed
  have "\<forall>t\<in>set (concat qs). droppable ?s t"
  proof
    fix t assume "t \<in> set (concat qs)"
    then obtain h f where "t \<noteq> null" "mem ?s t = Some (Init (TaskInner h f))" "t_status h = 3" "unat (t_rc h) = Suc (refs ?W t)"
      using K(1) sch by blast
    then show "droppable ?s t" by (auto simp: droppable_def status_bits)
  qed
  from WorkerGuard_drop_ok[OF d(1) this] obtain s' where
    s': "WorkerGuard_drop no_wakers ?s = Some (Inr s')" "GLOBAL s' = null" "LOCAL s' = LOCAL ?s"
      and fr: "\<forall>a \<in> set wps \<union> {ep, GLOBAL ?s}. mem s' a = None"
      and q: "\<forall>t h f. t \<in> set (concat qs) \<longrightarrow> mem ?s t = Some (Init (TaskInner h f)) \<longrightarrow>
       (if t_rc h = 1 then mem s' t = None
        else \<exists>nx. mem s' t = Some (Dropped (TaskInner (h\<lparr>t_next := nx, t_status := t_status h OR DROPPED, t_rc := t_rc h - 1\<rparr>) f)))"
      and oth: "\<forall>a. a \<notin> set wps \<union> {ep, GLOBAL ?s} \<union> set (concat qs) \<longrightarrow> mem s' a = mem ?s a" by blast
  let ?K = "\<lambda>a. if K a = Sched then after_drop (refs ?W a) else K a"
  have own: "a \<in> own n ?s ep wps K \<longleftrightarrow> a \<in> set wps \<union> {ep, GLOBAL ?s} \<or> K a \<noteq> Absent" for a using nb by (auto simp: own_iff)
  have nown: "K a = Absent" if "a \<in> set wps \<union> {ep, GLOBAL ?s}" for a
    using kind_task[OF ok, of a] runtime_no_task[OF d(1), of a] that by blast
  have ad: "kind_ok n (refs ?W t) (tview s' t) (after_drop (refs ?W t))" "after_drop (refs ?W t) = Absent \<longleftrightarrow> mem s' t = None"
    if t: "K t = Sched" for t
  proof -
    obtain h f where h: "mem ?s t = Some (Init (TaskInner h f))" "unat (t_rc h) = Suc (refs ?W t)" using sch[OF t] by blast
    with q[rule_format, OF K(1)[THEN iffD1, OF t] h(1)] obtain nx where "mem s' t = (if t_rc h = 1 then None
      else Some (Dropped (TaskInner ((h\<lparr>t_next := nx\<rparr>)\<lparr>t_status := t_status h OR DROPPED, t_rc := t_rc h - 1\<rparr>) f)))"
      by (cases "t_rc h = 1") auto
    from after_drop_ok(1,2)[OF h(2) this]
    show "kind_ok n (refs ?W t) (tview s' t) (after_drop (refs ?W t))" "after_drop (refs ?W t) = Absent \<longleftrightarrow> mem s' t = None" by auto
  qed
  have same: "mem s' a = mem ?s a" if "K a \<noteq> Sched" "a \<notin> set wps \<union> {ep, GLOBAL ?s}" for a using oth that K(1) by blast
  have "life_down n base (L\<lparr>l_rt := s', l_main := pc\<rparr>)"
  proof (rule life_downI[where K = ?K])
    show "?K a \<in> {Absent, Idle, Done}" for a using K(2)[of a] by (cases "K a") (auto simp: after_drop_def)
    show "tasks_ok n (l_rt (L\<lparr>l_rt := s', l_main := pc\<rparr>)) (l_wakers (L\<lparr>l_rt := s', l_main := pc\<rparr>)) ?K"
      unfolding tasks_ok_def
    proof (intro allI conjI)
      fix a show "kind_ok n (refs (l_wakers (L\<lparr>l_rt := s', l_main := pc\<rparr>)) a) (tview (l_rt (L\<lparr>l_rt := s', l_main := pc\<rparr>)) a) (?K a)"
      proof (cases "K a = Sched")
        case False
        have "kind_ok n (refs ?W a) (tview s' a) (K a)"
          using tasks_okD(1)[OF ok, of a] same[OF False] nown[of a]
          by (cases "a \<in> set wps \<union> {ep, GLOBAL ?s}") (simp, simp add: tview_def)
        then show ?thesis using False by simp
      qed (use ad(1) in simp)
      show "?K a \<noteq> Absent \<longrightarrow> a \<noteq> null" using tasks_okD(2)[OF ok, of a] by (cases "K a") auto
    qed
    show "if ?K a = Absent then mem (l_rt (L\<lparr>l_rt := s', l_main := pc\<rparr>)) a = base a else base a = None" for a
    proof (cases "a \<in> own n ?s ep wps K")
      case True
      then show ?thesis using mem_viewD(5)[OF d(3) True] own[of a] ad(2)[of a] fr nown[of a] by (auto split: if_splits)
    next
      case False
      then show ?thesis using mem_viewD(4)[OF d(3) False] own[of a] same[of a] by (auto split: if_splits)
    qed
  qed (simp add: s'(2))
  then show ?thesis using s'(1,3) by blast
qed

end
