(* ===== verification/Lifecycle_Safety.thy ===== *)
theory Lifecycle_Safety
  imports Lifecycle_Others
begin

text \<open>
  The invariant holds from the end of the start to the end of \<open>run_with\<close>, and what it says of a
  runtime's whole life.
\<close>

section \<open>Every step keeps the invariant\<close>

lemma life_invD:
  assumes "life_inv n base L"
  shows "l_fault L = None" "finite (dom (l_wakers L))" "card (dom (l_wakers L)) + 1 < 2 ^ 64" "life_main_ok n L"
    "\<not> torn_down (l_main L) \<Longrightarrow> life_up n base L" "torn_down (l_main L) \<Longrightarrow> life_down n base L"
  using assms by (simp_all add: life_inv_def)

lemma life_invI:
  assumes "l_fault L = None" "finite (dom (l_wakers L))" "card (dom (l_wakers L)) + 1 < 2 ^ 64" "life_main_ok n L"
    "\<not> torn_down (l_main L) \<Longrightarrow> life_up n base L" "torn_down (l_main L) \<Longrightarrow> life_down n base L"
  shows "life_inv n base L"
  using assms by (simp add: life_inv_def)

lemma life_upI: "up_view n base L ep e wps qs bs K \<Longrightarrow> life_up n base L"
  unfolding life_up_def by blast

text \<open>The main thread's part of the invariant: workers that have returned stay so, and nobody starts a batch late.\<close>

lemma main_ok_keep:
  assumes "life_main_ok n L" "l_main M = l_main L" "\<And>k. k < n \<Longrightarrow> l_pcs L k = W_exited \<Longrightarrow> l_pcs M k = W_exited"
    and "\<And>i. n \<le> i \<Longrightarrow> LOCAL (l_rt M) i \<noteq> null \<Longrightarrow> LOCAL (l_rt L) i \<noteq> null \<or> l_main L \<noteq> M_drop \<and> \<not> torn_down (l_main L)"
  shows "life_main_ok n M"
  using assms by (cases "l_main L") (auto simp: life_main_ok_def torn_down_def)

lemma waker_upd:
  assumes "finite (dom W)" "card (dom W) + 1 < (2 :: nat) ^ 64"
  shows "finite (dom (W(w := None)))" "card (dom (W(w := None))) + 1 < 2 ^ 64"
    "W x = None \<Longrightarrow> card (dom W) + 2 < 2 ^ 64 \<Longrightarrow> card (dom (W(x \<mapsto> t))) + 1 < 2 ^ 64"
  using assms card_Diff1_le[of "dom W" w] by (auto simp: card_insert_if domIff)

lemma work_ok_inv:
  assumes inv: "life_inv n base L" and M: "work_ok n base k L M" and k: "\<not> torn_down (l_main L)"
    "k < n \<Longrightarrow> l_pcs L k = W_exited \<Longrightarrow> l_pcs M k = W_exited"
  shows "life_inv n base M"
proof (rule life_invI)
  note d = life_invD[OF inv] and m = M[unfolded work_ok_def]
  show "l_fault M = None" using m d(1) by simp
  show "life_up n base M" if "\<not> torn_down (l_main M)" using m by simp
  show "life_down n base M" if "torn_down (l_main M)" using m k that by simp
  obtain pc where pc: "l_pcs M = (l_pcs L)(k := pc)" using m by blast
  show "life_main_ok n M"
  proof (rule main_ok_keep[OF d(4)])
    fix j assume "j < n" "l_pcs L j = W_exited"
    then show "l_pcs M j = W_exited" using k(2) pc by (cases "j = k") auto
  qed (use m in simp_all)
  show "finite (dom (l_wakers M))" using m d(2) by auto
  show "card (dom (l_wakers M)) + 1 < 2 ^ 64"
    using m d(2,3) waker_upd(3)[of "l_wakers L"] by (auto simp: fresh_waker_def)
qed

lemma batch_ok_inv:
  assumes inv: "life_inv n base L" and M: "batch_ok n base i L M" and k: "\<not> torn_down (l_main L)"
    "LOCAL (l_rt L) i \<noteq> null \<or> l_main L \<noteq> M_drop"
  shows "life_inv n base M"
proof (rule life_invI)
  note d = life_invD[OF inv] and m = M[unfolded batch_ok_def]
  show "life_main_ok n M"
  proof (rule main_ok_keep[OF d(4)])
    fix j assume j: "n \<le> j" "LOCAL (l_rt M) j \<noteq> null"
    then show "LOCAL (l_rt L) j \<noteq> null \<or> l_main L \<noteq> M_drop \<and> \<not> torn_down (l_main L)"
      using m k by (cases "j = i") auto
  qed (use m in simp_all)
qed (use life_invD[OF inv] M k in \<open>auto simp: batch_ok_def\<close>)

text \<open>A waker is dropped, before or after the tear-down.\<close>

lemma drop_waker_inv:
  assumes inv: "life_inv n base L" and w: "l_wakers L w = Some t"
  shows "life_inv n base (l_do (fn_drop t (l_rt L)) (\<lambda>s. L\<lparr>l_rt := s, l_wakers := (l_wakers L)(w := None)\<rparr>) L)"
proof -
  note d = life_invD[OF inv]
  have "\<exists>s'. fn_drop t (l_rt L) = Inr s' \<and> LOCAL s' = LOCAL (l_rt L) \<and>
    (if torn_down (l_main L) then life_down n base (L\<lparr>l_rt := s', l_wakers := (l_wakers L)(w := None)\<rparr>)
     else life_up n base (L\<lparr>l_rt := s', l_wakers := (l_wakers L)(w := None)\<rparr>))"
  proof (cases "torn_down (l_main L)")
    case True
    then show ?thesis using drop_waker_down[OF d(6)[OF True] d(2) w] by auto
  next
    case False
    then obtain ep e wps qs bs K where "up_view n base L ep e wps qs bs K" using d(5) by (auto simp: life_up_def)
    from drop_waker_up[OF this d(2) w] show ?thesis using False by (auto intro: life_upI)
  qed
  then obtain s' where s': "fn_drop t (l_rt L) = Inr s'" "LOCAL s' = LOCAL (l_rt L)"
    "if torn_down (l_main L) then life_down n base (L\<lparr>l_rt := s', l_wakers := (l_wakers L)(w := None)\<rparr>)
     else life_up n base (L\<lparr>l_rt := s', l_wakers := (l_wakers L)(w := None)\<rparr>)" by blast
  have "life_main_ok n (L\<lparr>l_rt := s', l_wakers := (l_wakers L)(w := None)\<rparr>)"
    by (rule main_ok_keep[OF d(4)]) (simp_all add: s'(2))
  then have "life_inv n base (L\<lparr>l_rt := s', l_wakers := (l_wakers L)(w := None)\<rparr>)"
    using s'(3) d(1) waker_upd(1,2)[OF d(2,3), of w] by (intro life_invI) (auto split: if_splits)
  then show ?thesis using s'(1) by (simp add: l_do_def)
qed

lemma life_clone_inv:
  assumes inv: "life_inv n base L" and w: "l_wakers L w = Some t" "fresh_waker L x"
  shows "life_inv n base (l_do (fn_clone t (l_rt L)) (\<lambda>s. L\<lparr>l_rt := s, l_wakers := (l_wakers L)(x \<mapsto> t)\<rparr>) L)"
proof (cases "torn_down (l_main L)")
  case True
  note d = life_invD[OF inv]
  from clone_down[OF d(6)[OF True] d(2) w] obtain s' where s': "fn_clone t (l_rt L) = Inr s'" "LOCAL s' = LOCAL (l_rt L)"
    "life_down n base (L\<lparr>l_rt := s', l_wakers := (l_wakers L)(x \<mapsto> t)\<rparr>)" by blast
  have "life_main_ok n (L\<lparr>l_rt := s', l_wakers := (l_wakers L)(x \<mapsto> t)\<rparr>)"
    by (rule main_ok_keep[OF d(4)]) (simp_all add: s'(2))
  then have "life_inv n base (L\<lparr>l_rt := s', l_wakers := (l_wakers L)(x \<mapsto> t)\<rparr>)"
    using s'(3) d(1,2) waker_upd(3)[OF d(2,3)] w(2) True by (intro life_invI) (auto simp: fresh_waker_def)
  then show ?thesis using s'(1) by (simp add: l_do_def)
next
  case False
  note d = life_invD[OF inv]
  obtain ep e wps qs bs K where v: "up_view n base L ep e wps qs bs K" using d(5)[OF False] by (auto simp: life_up_def)
  have "K t \<noteq> Absent" by (rule waker_task[OF mem_viewD(3)[OF up_viewD(3)[OF v]] d(2) w(1)])
  from clone_ok[OF v this w(2) d(2), of n] show ?thesis by (rule work_ok_inv[OF inv _ False]) simp
qed

text \<open>A step of the main thread.\<close>

lemma main_go_inv:
  assumes inv: "life_inv n base L" and pc: "torn_down pc = torn_down (l_main L)" "life_main_ok n (L\<lparr>l_main := pc\<rparr>)"
  shows "life_inv n base (L\<lparr>l_main := pc\<rparr>)"
  using life_invD[OF inv] pc by (intro life_invI) (auto simp: life_up_def up_view_def life_down_def)

lemma main_run_inv:
  assumes inv: "life_inv n base L" and at: "l_main L = M_run" and p: "fresh_for (l_rt L) p"
  shows "life_inv n base (l_do (WorkerGuard_run p f (l_rt L)) (\<lambda>s. L\<lparr>l_rt := s, l_main := M_join 0\<rparr>) L)"
proof -
  have nt: "\<not> torn_down (l_main L)" using at by (simp add: torn_down_def)
  obtain ep e wps qs bs K where v: "up_view n base L ep e wps qs bs K" using life_invD(5)[OF inv nt] by (auto simp: life_up_def)
  from run_main_ok[OF v p, of f n] obtain s' where
    s': "WorkerGuard_run p f (l_rt L) = Inr s'" "work_ok n base n L (L\<lparr>l_rt := s'\<rparr>)" by blast
  from work_ok_inv[OF inv s'(2) nt] have "life_inv n base (L\<lparr>l_rt := s'\<rparr>)" by simp
  from main_go_inv[OF this, of "M_join 0"] show ?thesis using s'(1) at by (simp add: l_do_def torn_down_def life_main_ok_def)
qed

lemma main_drop_inv:
  assumes inv: "life_inv n base L" and at: "l_main L = M_drop"
    and M: "map_option (\<lambda>r. l_do r (\<lambda>s. L\<lparr>l_rt := s, l_main := M_on_exit\<rparr>) L) (WorkerGuard_drop no_wakers (l_rt L)) = Some M"
  shows "life_inv n base M"
proof -
  note d = life_invD[OF inv]
  have nt: "\<not> torn_down (l_main L)" using at by (simp add: torn_down_def)
  obtain ep e wps qs bs K where v: "up_view n base L ep e wps qs bs K" using d(5)[OF nt] by (auto simp: life_up_def)
  have ex: "\<forall>k<n. l_pcs L k = W_exited" "\<forall>i\<ge>n. LOCAL (l_rt L) i = null" using d(4) at by (auto simp: life_main_ok_def)
  from teardown_ok[OF v ex, of M_on_exit] obtain s' where
    s': "WorkerGuard_drop no_wakers (l_rt L) = Some (Inr s')" "LOCAL s' = LOCAL (l_rt L)" "life_down n base (L\<lparr>l_rt := s', l_main := M_on_exit\<rparr>)" by blast
  have "life_inv n base (L\<lparr>l_rt := s', l_main := M_on_exit\<rparr>)"
    using d(1-3) s'(2,3) ex by (intro life_invI) (auto simp: torn_down_def life_main_ok_def)
  then show ?thesis using M s'(1) by (simp add: l_do_def)
qed

lemma main_inv:
  assumes inv: "life_inv n base L" and env: "life_env n (Main_thread p u) L" and M: "life_main n p u L = Some M"
  shows "life_inv n base M"
proof -
  note go = main_go_inv[OF inv] and ok = life_invD(4)[OF inv]
  note defs = life_main_def Let_def torn_down_def life_main_ok_def
  show ?thesis
  proof (cases "l_main L")
    case M_on_start
    then show ?thesis using M go[of M_run] by (auto simp: defs)
  next
    case M_run
    then show ?thesis using M main_run_inv[OF inv M_run, of p "User u"] env by (simp add: life_main_def Let_def)
  next
    case (M_join k)
    show ?thesis
    proof (cases "k = n")
      case True
      then show ?thesis using M go[of M_on_shutdown] M_join ok by (auto simp: defs)
    next
      case False
      then have "l_pcs L k = W_exited" "M = L\<lparr>l_main := M_join (Suc k)\<rparr>" using M M_join by (auto simp: life_main_def Let_def split: if_splits)
      then show ?thesis using go[of "M_join (Suc k)"] M_join ok False by (auto simp: torn_down_def life_main_ok_def less_Suc_eq)
    qed
  next
    case M_on_shutdown
    then show ?thesis using M go[of M_drop] ok env by (auto simp: defs)
  next
    case M_drop
    then show ?thesis using M main_drop_inv[OF inv M_drop] by (simp add: life_main_def Let_def)
  next
    case M_on_exit
    then show ?thesis using M go[of M_end] ok by (auto simp: defs)
  qed (use M in \<open>simp add: life_main_def\<close>)
qed

lemma life_step_inv:
  assumes inv: "life_inv n base L" and step: "life_step n L M"
  shows "life_inv n base M"
proof -
  note d = life_invD[OF inv]
  obtain a where a: "life_env n a L" "life_act n a L = Some M" using step by (auto simp: life_step_def)
  have exited: "\<forall>k<n. l_pcs L k = W_exited" "\<forall>i\<ge>n. LOCAL (l_rt L) i = null" if "torn_down (l_main L)"
    using that d(4) by (auto simp: torn_down_def life_main_ok_def)
  have late: "\<not> torn_down (l_main L)" if "n \<le> i" "LOCAL (l_rt L) i \<noteq> null" for i
    using exited(2)[rule_format, OF _ that(1)] that(2) by blast
  have view: "\<exists>ep e wps qs bs K. up_view n base L ep e wps qs bs K" if "\<not> torn_down (l_main L)"
    using d(5)[OF that] by (simp add: life_up_def)
  show ?thesis
  proof (cases a)
    case (Work k ps c)
    have k: "k < n" "fresh_list n (l_rt L) ps" "call_env n c L" "life_work k ps c L = Some M" using a Work by auto
    have nt: "\<not> torn_down (l_main L)" using exited(1) k(1,4) by (auto simp: life_work_def)
    with view obtain ep e wps qs bs K where "up_view n base L ep e wps qs bs K" by blast
    from life_work_ok[OF this k(1-3) d(2) k(4)] show ?thesis using work_ok_inv[OF inv _ nt] by blast
  next
    case (Main_thread p u)
    show ?thesis by (rule main_inv[OF inv a(1)[unfolded Main_thread]]) (use a(2) Main_thread in simp)
  next
    case (Wake i w)
    then obtain t where t: "l_wakers L w = Some t" "M = on_rt (fn_wake_by_ref i t) L" "n \<le> i" "\<not> torn_down (l_main L)"
      using a by auto
    then obtain ep e wps qs bs K where "up_view n base L ep e wps qs bs K" using view by blast
    from wake_ok[OF this d(2) t(1,3), of n] show ?thesis using work_ok_inv[OF inv _ t(4), of n] t(2) by simp
  next
    case (Clone w v)
    then obtain t where "l_wakers L w = Some t"
      "M = l_do (fn_clone t (l_rt L)) (\<lambda>s. L\<lparr>l_rt := s, l_wakers := (l_wakers L)(v \<mapsto> t)\<rparr>) L" "fresh_waker L v" using a by auto
    then show ?thesis by (simp only: life_clone_inv[OF inv])
  next
    case (Drop_waker w)
    then obtain t where t: "l_wakers L w = Some t"
      "M = l_do (fn_drop t (l_rt L)) (\<lambda>s. L\<lparr>l_rt := s, l_wakers := (l_wakers L)(w := None)\<rparr>) L" using a by auto
    show ?thesis unfolding t(2) by (rule drop_waker_inv[OF inv t(1)])
  next
    case (Batch_new i p)
    then have i: "n \<le> i" "LOCAL (l_rt L) i = null" "fresh_for (l_rt L) p" "l_main L \<noteq> M_drop" "\<not> torn_down (l_main L)"
      "M = on_rt (BatchGuard_new p i) L" using a by auto
    then obtain ep e wps qs bs K where "up_view n base L ep e wps qs bs K" using view by blast
    from batch_new_ok[OF this i(1-3)] show ?thesis using batch_ok_inv[OF inv _ i(5)] i(4,6) by blast
  next
    case (Batch_push i)
    then have i: "n \<le> i" "LOCAL (l_rt L) i \<noteq> null" "M = on_rt (push_batch i) L" using a by auto
    note nt = late[OF i(1,2)]
    obtain ep e wps qs bs K where "up_view n base L ep e wps qs bs K" using view[OF nt] by blast
    from batch_push_ok[OF this i(1,2)] show ?thesis using batch_ok_inv[OF inv _ nt] i(2,3) by blast
  next
    case (Batch_drop i)
    then have i: "n \<le> i" "LOCAL (l_rt L) i \<noteq> null" "M = on_rt (BatchGuard_drop i) L" using a by auto
    note nt = late[OF i(1,2)]
    obtain ep e wps qs bs K where "up_view n base L ep e wps qs bs K" using view[OF nt] by blast
    from batch_drop_ok[OF this i(1,2)] show ?thesis using batch_ok_inv[OF inv _ nt] i(2,3) by blast
  qed
qed

section \<open>The start\<close>

text \<open>The memory of the published runtime.\<close>

definition runtime_blocks :: "'f rt \<Rightarrow> addr set" where
  "runtime_blocks s = insert (GLOBAL s)
     (case mem s (GLOBAL s) of
        Some (Init (Obj_shared d)) \<Rightarrow> insert (s_epoch d) (set (worker_ptrs d))
      | _ \<Rightarrow> {})"

definition outside :: "'f rt \<Rightarrow> 'f obj heap" where
  "outside s = (\<lambda>a. if a \<in> runtime_blocks s then None else mem s a)"

lemma runtime_blocks_eq: "runtime s ep e wps qs \<Longrightarrow> runtime_blocks s = {GLOBAL s, ep} \<union> set wps"
  by (auto simp: runtime_def runtime_blocks_def)

text \<open>More workers than the epoch word can count are refused.\<close>

lemma start_reach_bound: "start_reach P n s \<Longrightarrow> unat n < 512"
proof (induction rule: reach.induct)
  case (reach_init s)
  then have "n < EPOCH" by (auto simp: start_init_def WorkerManager_new_def bind_r_Inr_iff Epoch_new_def split: if_splits)
  then show ?case by (simp add: EPOCH_eq word_less_nat_alt)
qed

lemma life_init_inv:
  fixes P :: "'l parking_lot" and L :: "'u life"
  assumes P: "parking_lot_ops P" and init: "life_init P n L"
  shows "life_inv (unat n) (outside (l_rt L)) L"
proof -
  obtain st :: "('u fut, 'l) startup" where st: "start_reach P n st" "m_at st = M_ready" "l_rt L = st_rt st"
    using init by (auto simp: life_init_def)
  have L: "0 < n" "\<forall>i\<ge>unat n. LOCAL (l_rt L) i = null" "l_pcs L = (\<lambda>_. W_drain)" "l_main L = M_on_start"
    "l_wakers L = Map.empty" "l_fault L = None" using init by (auto simp: life_init_def)
  let ?n = "unat n" and ?K = "\<lambda>_ :: addr. Absent" and ?bs = "\<lambda>_ :: tid. [] :: addr list list"
  have inv: "start_inv P n st" by (rule parking_lot_ops.start_reach_inv[OF P st(1)])
  have rt: "runtime (l_rt L) (m_epoch st) n (m_ptrs st) (replicate ?n [])"
    unfolding st(3) by (rule parking_lot_ops.start_runtime[OF P inv st(2)])
  have arr: "b.arrived ?n 9 (b_at st)" "length (m_ptrs st) = ?n"
    using inv st(2) data_okD(2)[of n st] by (auto simp: start_inv_def sync_built_def)
  have loc: "LOCAL (l_rt L) k = m_ptrs st ! k" if "k < ?n" for k
    unfolding st(3) by (rule parking_lot_ops.start_workers(3)[OF P inv arr(1) that])
  have own: "own ?n (l_rt L) (m_epoch st) (m_ptrs st) ?K = runtime_blocks (l_rt L)"
    using L(2) by (auto simp: own_def runtime_blocks_eq[OF rt])
  have "mem (l_rt L) a \<noteq> None" if "a \<in> runtime_blocks (l_rt L)" for a
    using that rt runtime_worker[OF rt] unfolding runtime_blocks_eq[OF rt] by (auto simp: runtime_def in_set_conv_nth)
  then have "mem_view ?n (outside (l_rt L)) (l_wakers L) (l_rt L) (m_epoch st) (m_ptrs st) ?bs ?K"
    using L(2) loc by (intro mem_viewI) (auto simp: own batches_def tasks_ok_def refs_def L(5) outside_def)
  moreover have "sched_view ?n (l_pcs L) (replicate ?n []) ?bs ?K" by (auto simp: sched_view_def L(3) life_held_def)
  moreover have "count_view ?n (l_pcs L) n"
  proof -
    have lt: "?n < 512" by (rule start_reach_bound[OF st(1)])
    then have "unat (active_count n) = ?n" by (simp add: unat_active_count)
    then show ?thesis using lt L(1,3) by (simp add: count_view_def active_def life_pc_ok_def word_gt_0 unat_gt_0)
  qed
  ultimately have "life_up ?n (outside (l_rt L)) L" using rt arr(2) by (intro life_upI) (simp add: up_view_def)
  then show ?thesis using L by (intro life_invI) (auto simp: life_main_ok_def torn_down_def)
qed

interpretation life: inductive_invariant "life_inv n base" "life_step n" "life_inv n base" for n base
  by unfold_locales (auto intro: life_step_inv)

lemma life_steps_inv:
  assumes "parking_lot_ops P" "life_init P n L0" "(life_step (unat n))\<^sup>*\<^sup>* L0 L"
  shows "life_inv (unat n) (outside (l_rt L0)) L"
  by (rule life.steps_inv[OF assms(3) life_init_inv[OF assms(1,2)]])

section \<open>Properties\<close>

lemma live_count:
  assumes "tasks_ok n s W K" "finite (dom W)" "W w = Some t"
  shows "\<exists>live st c x. tview s t = Some (live, st, c, x) \<and> unat c = refs W t + (if live then 1 else 0)"
  using tasks_okD(1)[OF assms(1), of t] waker_task[OF assms] by (cases "K t") auto

lemma wakers_counted:
  assumes inv: "life_inv n base L" and w: "l_wakers L w = Some t"
  shows "is_task (l_rt L) t \<and>
    (\<exists>live st c x. tview (l_rt L) t = Some (live, st, c, x) \<and> unat c = refs (l_wakers L) t + (if live then 1 else 0))"
proof -
  note d = life_invD[OF inv]
  obtain K where "tasks_ok n (l_rt L) (l_wakers L) K"
    using d(5,6) mem_viewD(3)[OF up_viewD(3)] by (cases "torn_down (l_main L)") (fastforce simp: life_down_def life_up_def)+
  from live_count[OF this d(2) w] kind_task[OF this waker_task[OF this d(2) w]] show ?thesis by blast
qed

text \<open>
  C5: in a life in which the user keeps the rules, the memory stays well typed.  The workers, the futures, the reactor
  threads and the owners of wakers act in any order, every operation in one atomic step, and the rules are: a future
  wakes only its own task while a worker runs it, wakers of other tasks are invoked on other threads and none after the
  tear-down, \<open>spawn\<close> and \<open>defer\<close> are called by futures, and \<open>on_shutdown\<close> ends all batches.  Then no operation
  faults: no null or dangling pointer, no block of the wrong type, no failed assertion, no arithmetic overflow.  Until the
  tear-down the shared data, the epoch word and the \<open>n\<close> workers with their queues are in place, and every
  worker thread finds its own \<open>Worker\<close>; before and after it, every waker points to a task whose count is
  the number of its wakers, and one more while its future lives.
\<close>

theorem run_with_well_typed:
  assumes "parking_lot_ops P" and "life_init P n L0" and "(life_step (unat n))\<^sup>*\<^sup>* L0 L"
  shows "l_fault L = None \<and>
    (\<not> torn_down (l_main L) \<longrightarrow> (\<exists>ep e wps qs. runtime (l_rt L) ep e wps qs \<and> length wps = unat n \<and>
      (\<forall>k<unat n. LOCAL (l_rt L) k = wps ! k))) \<and>
    (\<forall>w t. l_wakers L w = Some t \<longrightarrow> is_task (l_rt L) t \<and>
      (\<exists>live st c x. tview (l_rt L) t = Some (live, st, c, x) \<and> unat c = refs (l_wakers L) t + (if live then 1 else 0)))"
proof -
  note inv = life_steps_inv[OF assms]
  note d = life_invD[OF inv]
  have "\<exists>ep e wps qs. runtime (l_rt L) ep e wps qs \<and> length wps = unat n \<and> (\<forall>k<unat n. LOCAL (l_rt L) k = wps ! k)"
    if up: "\<not> torn_down (l_main L)"
  proof -
    obtain ep e wps qs bs K where v: "up_view (unat n) (outside (l_rt L0)) L ep e wps qs bs K"
      using d(5)[OF up] by (auto simp: life_up_def)
    show ?thesis using up_viewD(1,2)[OF v] mem_viewD(1)[OF up_viewD(3)[OF v]] by blast
  qed
  then show ?thesis using d(1) wakers_counted[OF inv] by blast
qed

text \<open>
  A task is polled by one worker at a time, and while a worker holds it, it is in no queue: a task is in
  at most one place of at most one queue.
\<close>

lemma run_with_exclusive:
  assumes "parking_lot_ops P" and "life_init P n L0" and "(life_step (unat n))\<^sup>*\<^sup>* L0 L" and "\<not> torn_down (l_main L)"
  shows "\<exists>ep e wps qs. runtime (l_rt L) ep e wps qs \<and> distinct (concat qs) \<and>
    (\<forall>k<unat n. \<forall>t. life_held (l_pcs L k) = Some t \<longrightarrow> is_task (l_rt L) t \<and> t \<notin> set (concat qs) \<and>
      (\<forall>j<unat n. life_held (l_pcs L j) = Some t \<longrightarrow> j = k))"
proof -
  note d = life_invD[OF life_steps_inv[OF assms(1-3)]]
  obtain ep e wps qs bs K where v: "up_view (unat n) (outside (l_rt L0)) L ep e wps qs bs K"
    using d(5)[OF assms(4)] by (auto simp: life_up_def)
  have "is_task (l_rt L) t \<and> t \<notin> set (concat qs) \<and> (\<forall>j<unat n. life_held (l_pcs L j) = Some t \<longrightarrow> j = k)"
    if "k < unat n" "life_held (l_pcs L k) = Some t" for k t
    using life_held_task[OF v that] sched_viewD(5)[OF up_viewD(4)[OF v]] that by metis
  moreover have "distinct (concat qs)" using up_viewD(1)[OF v] by (simp add: runtime_def)
  ultimately show ?thesis using up_viewD(1)[OF v] by blast
qed

text \<open>What can be left of a runtime's tasks: a task that waits for a wake-up, or one that is kept by wakers.\<close>

definition leftover :: "'u life \<Rightarrow> addr \<Rightarrow> bool" where
  "leftover L a \<longleftrightarrow>
     (case tview (l_rt L) a of
        Some (True, st, c, x) \<Rightarrow> st = 0 \<and> unat c = Suc (refs (l_wakers L) a)
      | Some (False, st, c, x) \<Rightarrow> st AND DROPPED \<noteq> 0 \<and> unat c = refs (l_wakers L) a \<and> 0 < refs (l_wakers L) a
      | None \<Rightarrow> False)"

text \<open>
  C6: what \<open>run_with\<close> leaves behind.  When it has ended, \<open>GLOBAL\<close> is null, and the memory is the memory from
  before the start apart from tasks of two sorts: tasks whose future is gone and that only live on for
  the wakers that point to them, and tasks that were waiting for a wake-up, with their future.
\<close>

theorem run_with_frees:
  assumes "parking_lot_ops P" and "life_init P n L0" and "(life_step (unat n))\<^sup>*\<^sup>* L0 L" and "l_main L = M_end"
  shows "GLOBAL (l_rt L) = null \<and>
    (\<forall>a. leftover L a \<or> mem (l_rt L) a = (if a \<in> runtime_blocks (l_rt L0) then None else mem (l_rt L0) a))"
proof -
  note d = life_invD[OF life_steps_inv[OF assms(1-3)]]
  have "torn_down (l_main L)" using assms(4) by (simp add: torn_down_def)
  from d(6)[OF this] obtain K where K: "GLOBAL (l_rt L) = null" "\<forall>a. K a \<in> {Absent, Idle, Done}" "tasks_ok (unat n) (l_rt L) (l_wakers L) K"
    "\<forall>a. if K a = Absent then mem (l_rt L) a = outside (l_rt L0) a else outside (l_rt L0) a = None" by (auto simp: life_down_def)
  have "leftover L a \<or> mem (l_rt L) a = outside (l_rt L0) a" for a
    using K(2)[rule_format, of a] K(4)[rule_format, of a] tasks_okD(1)[OF K(3), of a] by (cases "K a") (auto simp: leftover_def)
  then show ?thesis using K(1) by (simp add: outside_def)
qed

section \<open>A run\<close>

text \<open>
  One worker.  The main task keeps a clone of its waker (on a thread that is not modelled here), asks for
  the shutdown and then returns \<open>Pending\<close>; the waker is dropped at the end.
\<close>

definition life_do :: "nat \<Rightarrow> 'u llabel \<Rightarrow> 'u life \<Rightarrow> 'u life option" where
  "life_do n a L = (if l_fault L = None \<and> life_env n a L then life_act n a L else None)"

definition start_do :: "'l parking_lot \<Rightarrow> u32 \<Rightarrow> start_label \<Rightarrow> ('f, 'l) startup \<Rightarrow> ('f, 'l) startup option" where
  "start_do P n a s = (if env_ok a s then start_act P n a s else None)"

lemma enabled_do: "enabled (life_do n) = life_step n" "enabled (start_do P m) = start_step P m"
  by (auto simp: enabled_def life_do_def life_step_def start_do_def start_step_def fun_eq_iff split: if_splits)

lemma run_life: "run (life_do n) as L = Some M \<Longrightarrow> (life_step n)\<^sup>*\<^sup>* L M"
  using run_steps[of "life_do n" as L M] unfolding enabled_do .

lemma run_start: "start_init P n s \<Longrightarrow> run (start_do P n) as s = Some t \<Longrightarrow> start_reach P n t"
  using reach_run[of "start_init P n" s "start_do P n" as t] unfolding enabled_do .

definition leak_worker :: Worker where
  "leak_worker = \<lparr>task_list = TaskList_new, w_seed = 1, n_workers = 1, w_epoch = 7, other_workers = [], w_shutdown = False, worker_id = 0\<rparr>"

definition leak_rt :: "unit fut rt" where
  "leak_rt = \<lparr>mem = [7 \<mapsto> Init (Obj_epoch 1), 2 \<mapsto> Init (Obj_worker leak_worker),
     3 \<mapsto> Init (Obj_shared \<lparr>s_epoch = 7, worker_ptrs = [2]\<rparr>)], GLOBAL = 3, LOCAL = (\<lambda>_. null)(0 := 2), events = []\<rparr>"

definition leak_life :: "unit life" where
  "leak_life = \<lparr>l_rt = leak_rt, l_pcs = (\<lambda>_. W_drain), l_main = M_on_start, l_wakers = Map.empty, l_fault = None\<rparr>"

definition leak_begin :: "unit llabel list" where
  "leak_begin = [Main_thread 9 (), Main_thread 4 (), Work 0 [9] C_rng, Work 0 [9] C_rng, Work 0 [9] (C_clone 0)]"

definition leak_end :: "unit llabel list" where
  "leak_end = [Work 0 [9] (C_shutdown_async [5]), Work 0 [9] (C_return False), Work 0 [9] C_rng, Work 0 [9] C_rng, Work 0 [9] C_rng,
     Work 0 [9] C_rng, Work 0 [9] C_rng, Work 0 [9] C_rng, Work 0 [9] C_rng, Main_thread 9 (), Main_thread 9 (), Main_thread 9 (),
     Main_thread 9 (), Main_thread 9 (), Drop_waker 0]"

definition leak_start :: "(unit fut, nat list) startup" where
  "leak_start = \<lparr>st_rt = \<lparr>mem = [7 \<mapsto> Init (Obj_epoch 1)], GLOBAL = null, LOCAL = (\<lambda>_. null), events = []\<rparr>, m_epoch = 7,
     m_ptrs = [null], m_ptrs_cond = [], m_built = 0, m_built_cond = [], next_worker_id = 0, b_at = (\<lambda>_. B_unborn),
     b_ptr = (\<lambda>_. null), b_others = (\<lambda>_. []), m_at = M_spawn 0, st_fault = None\<rparr>"

lemma leak_start_init: "start_init fifo_lot 1 leak_start"
proof -
  have "WorkerManager_new 1 7 [] \<lparr>mem = Map.empty, GLOBAL = null, LOCAL = (\<lambda>_. null), events = []\<rparr> = Inr leak_start"
    by (simp add: WorkerManager_new_def Epoch_new_def EPOCH_eq new_obj_def do_new_eq leak_start_def)
  moreover have "pl_parked fifo_lot [] = {}" by (simp add: fifo_lot_def)
  moreover have "alloc_ok 7 (mem \<lparr>mem = Map.empty, GLOBAL = null, LOCAL = (\<lambda>_. null), events = []\<rparr>)" by (simp add: alloc_ok_def)
  moreover have "finite (dom (mem \<lparr>mem = Map.empty, GLOBAL = null, LOCAL = (\<lambda>_. null), events = []\<rparr>))" by simp
  ultimately show ?thesis unfolding start_init_def by blast
qed

lemma leak_init: "life_init fifo_lot 1 leak_life"
proof -
  have "\<exists>t. run (start_do fifo_lot 1) [Main 9, Build 0 2 1, Build 0 9 1, Build 0 9 1, Build 0 9 1, Build 0 9 1, Build 0 9 1,
      Build 0 9 1, Main 9, Main 9, Main 3] leak_start = Some t \<and> m_at t = M_ready \<and> st_rt t = leak_rt"
    by (simp add: leak_start_def start_do_def main_step_def builder_step_def alloc_ok_def add_checked_def or_fail_def b_go_def
        do_alloc_def Worker_set_def set_local_def index_checked_def all_set_def collect_others_def Let_def Worker_new_def
        write_ptr_def on_mem_def m_check_built_def manager_publish_def new_obj_def do_new_eq set_global_def fifo_lot_def
        seed_from_system_time_def leak_rt_def leak_worker_def)
  then obtain t where t: "start_reach fifo_lot 1 t" "m_at t = M_ready" "st_rt t = leak_rt"
    using run_start[OF leak_start_init] by blast
  have "\<forall>i\<ge>unat (1 :: u32). LOCAL leak_rt i = null" by (simp add: leak_rt_def)
  then show ?thesis unfolding life_init_def using t by (simp add: leak_life_def) metis
qed

lemmas leak_eval = life_do_def fresh_for_def fresh_list_def fresh_waker_def life_main_def l_do_def alloc_ok_def WorkerGuard_run_def
  Task_new_def new_obj_def do_new_eq get_global_def deref_shared_def deref_def index_checked_def on_queue_def deref_worker_def
  deref_task_def deref_epoch_def push_back_def next_epoch_at_def push_back_batch_def push_front_def push_front_batch_def
  TaskList_new_def store_def next_epoch_def EPOCH_eq life_work_def pop_own_task_def l_go_def pop_queue_def pop_front_def
  Worker_get_def get_local_def poll_begin_def modify_task_def status_bits fn_poll_def on_rt_def shutdown_async_def
  RuntimeSharedData_get_def poll_pending_def Shutdown_poll_def poll_ready_def fn_drop_in_place_def do_drop_in_place_def on_mem_def
  rc_dec_def rc_def fn_dealloc_def do_dealloc_def WorkerGuard_drop_def is_empty_def do_drop_eq set_global_def active_count_def
  ACTIVE_COUNT_MASK_eq fn_clone_def rc_inc_def fn_drop_def Let_def

lemma for_each_none: "for_each_task f \<lparr>head = null, tail = null\<rparr> s = Some (Inr s)"
  by (simp add: for_each_task.simps pop_front_def)

lemma leak_run:
  "\<exists>L. run (life_do 1) leak_begin leak_life = Some L \<and> l_main L = M_join 0 \<and> l_pcs L 0 = W_run 4 \<and> l_wakers L = [0 \<mapsto> 4] \<and>
    (\<exists>M. run (life_do 1) leak_end L = Some M \<and> l_main M = M_end \<and> l_wakers M = Map.empty \<and>
       (\<exists>t. mem (l_rt M) 4 = Some (Init (TaskInner t (User ())))))"
  by (simp add: leak_begin_def leak_end_def leak_life_def leak_rt_def leak_worker_def leak_eval for_each_none)

lemma leak_reach:
  "\<exists>L M. (life_step (unat (1 :: u32)))\<^sup>*\<^sup>* leak_life L \<and> l_main L = M_join 0 \<and> l_pcs L 0 = W_run 4 \<and> l_wakers L 0 = Some 4 \<and>
    (life_step (unat (1 :: u32)))\<^sup>*\<^sup>* leak_life M \<and> l_main M = M_end \<and> l_wakers M = Map.empty \<and>
    (\<exists>t. mem (l_rt M) 4 = Some (Init (TaskInner t (User ()))))"
proof -
  obtain L M t where r: "run (life_do 1) leak_begin leak_life = Some L" "l_main L = M_join 0" "l_pcs L 0 = W_run 4" "l_wakers L = [0 \<mapsto> 4]"
    "run (life_do 1) leak_end L = Some M" "l_main M = M_end" "l_wakers M = Map.empty" "mem (l_rt M) 4 = Some (Init (TaskInner t (User ())))"
    using leak_run by blast
  have "(life_step 1)\<^sup>*\<^sup>* leak_life M" using run_life[OF r(1)] run_life[OF r(5)] by (rule rtranclp_trans)
  then show ?thesis using r(2-4,6-) run_life[OF r(1)] by (intro exI[of _ L] exI[of _ M]) auto
qed

text \<open>
  C24: a task that waits for a wake-up when the runtime shuts down is leaked, with its future, although the
  documentation of \<open>Task\<close> says that tasks are dropped when the runtime is shut down.  There is a whole
  life of a runtime, from the start to the end of \<open>run_with\<close>, after which no waker is left and nothing can
  run any more, and a block that did not exist before this life still holds a task with a user future that was never
  dropped.
\<close>

theorem idle_task_leaks:
  "\<exists>L0 L :: unit life. life_init fifo_lot 1 L0 \<and> (life_step 1)\<^sup>*\<^sup>* L0 L \<and> l_main L = M_end \<and> l_wakers L = Map.empty \<and>
    (\<nexists>M. life_step 1 L M) \<and> (\<exists>a t f. mem (l_rt L0) a = None \<and> mem (l_rt L) a = Some (Init (TaskInner t (User f))))"
proof -
  obtain M t where M: "(life_step 1)\<^sup>*\<^sup>* leak_life M" "l_main M = M_end" "l_wakers M = Map.empty"
    "mem (l_rt M) 4 = Some (Init (TaskInner t (User ())))" using leak_reach by auto
  have inv: "life_inv 1 (outside (l_rt leak_life)) M"
    using life_steps_inv[OF fifo.parking_lot_ops_axioms leak_init, of M] M(1) by simp
  then have "\<forall>k<1. l_pcs M k = W_exited" "\<forall>i\<ge>1. LOCAL (l_rt M) i = null"
    using life_invD(4)[OF inv] M(2) by (auto simp: life_main_ok_def)
  then have "\<not> life_step 1 M N" for N
  proof -
    have "life_act 1 a M = None" if "life_env 1 a M" for a
      using that \<open>\<forall>k<1. l_pcs M k = W_exited\<close> \<open>\<forall>i\<ge>1. LOCAL (l_rt M) i = null\<close> M(2,3)
      by (cases a) (auto simp: life_work_def life_main_def torn_down_def)
    then show ?thesis by (auto simp: life_step_def)
  qed
  moreover have "mem (l_rt leak_life) 4 = None" by (simp add: leak_life_def leak_rt_def)
  ultimately show ?thesis using leak_init M by blast
qed

section \<open>Witnesses\<close>

theorem run_with_well_typed_witness:
  "\<exists>L :: unit life. (life_step (unat (1 :: u32)))\<^sup>*\<^sup>* leak_life L \<and> l_wakers L 0 = Some 4 \<and> l_fault L = None \<and> is_task (l_rt L) 4 \<and>
     (\<exists>ep e wps qs. runtime (l_rt L) ep e wps qs \<and> length wps = unat (1 :: u32))"
proof -
  obtain L where L: "(life_step (unat (1 :: u32)))\<^sup>*\<^sup>* leak_life L" "l_main L = M_join 0" "l_wakers L 0 = Some 4" using leak_reach by blast
  then have "\<not> torn_down (l_main L)" by (simp add: torn_down_def)
  then show ?thesis using run_with_well_typed[OF fifo.parking_lot_ops_axioms leak_init L(1)] L by blast
qed

lemma run_with_exclusive_example:
  "\<exists>L :: unit life. (life_step (unat (1 :: u32)))\<^sup>*\<^sup>* leak_life L \<and> life_held (l_pcs L 0) = Some 4 \<and> is_task (l_rt L) 4"
proof -
  obtain L where L: "(life_step (unat (1 :: u32)))\<^sup>*\<^sup>* leak_life L" "l_main L = M_join 0" "l_pcs L 0 = W_run 4" using leak_reach by blast
  then have "\<not> torn_down (l_main L)" and h: "life_held (l_pcs L 0) = Some 4" by (simp_all add: torn_down_def life_held_def)
  from run_with_exclusive[OF fifo.parking_lot_ops_axioms leak_init L(1) this(1)] obtain qs where
    "\<forall>k<unat (1 :: u32). \<forall>t. life_held (l_pcs L k) = Some t \<longrightarrow> is_task (l_rt L) t \<and> t \<notin> set (concat qs)" by blast
  then have "is_task (l_rt L) 4" using h by auto
  then show ?thesis using L(1) h by blast
qed

theorem run_with_frees_witness:
  "\<exists>L :: unit life. (life_step (unat (1 :: u32)))\<^sup>*\<^sup>* leak_life L \<and> l_main L = M_end \<and> GLOBAL (l_rt L) = null \<and> mem (l_rt L) 4 \<noteq> None \<and>
     (leftover L 2 \<or> mem (l_rt L) 2 = None)"
proof -
  obtain L t where L: "(life_step (unat (1 :: u32)))\<^sup>*\<^sup>* leak_life L" "l_main L = M_end" "mem (l_rt L) 4 = Some (Init (TaskInner t (User ())))"
    using leak_reach by blast
  have "2 \<in> runtime_blocks (l_rt leak_life)" by (simp add: runtime_blocks_def leak_life_def leak_rt_def)
  then have "GLOBAL (l_rt L) = null" "leftover L 2 \<or> mem (l_rt L) 2 = None"
    using run_with_frees[OF fifo.parking_lot_ops_axioms leak_init L(1,2)] by presburger+
  then show ?thesis using L by (intro exI[of _ L]) simp
qed

end
