(* ===== verification/Concurrent_Wakeup.thy ===== *)
theory Concurrent_Wakeup
  imports Task_Protocol
begin

text \<open>
  The test \<open>yaay-tests/src/concurrent_wakeup.rs\<close> as a program on top of the task protocol.  Its main
  task starts four threads that call \<open>wake_by_ref\<close> on the task over and over, and its later polls toggle
  \<open>BOOL\<close> and assert in between that nobody else does.

  One step is one atomic access: of the task's own state (the steps of \<open>Task_Protocol\<close>), of \<open>BOOL\<close> or of
  \<open>N\<close>.  The number of iterations of a thread, \<open>100000000\<close> in the test, is the parameter \<open>m\<close>.  The
  workers that pop and poll the task are all worker threads of the runtime.
\<close>

section \<open>Definitions\<close>

text \<open>The position of a worker inside the future \<open>async_main\<close>.\<close>

datatype fut_pc =
    F_out
  | F_clone nat      \<comment> \<open>line 29, iteration of the loop in line 28\<close>
  | F_spawn nat      \<comment> \<open>lines 30-33\<close>
  | F_assert_true    \<comment> \<open>line 45\<close>
  | F_store_false    \<comment> \<open>line 46\<close>
  | F_assert_false   \<comment> \<open>line 47\<close>
  | F_store_true     \<comment> \<open>line 48\<close>
  | F_load           \<comment> \<open>line 49\<close>
  | F_pending        \<comment> \<open>line 52\<close>
  | F_shutdown       \<comment> \<open>line 60\<close>
  | F_ready          \<comment> \<open>line 62\<close>

datatype thread_pc =
    T_none
  | T_loop nat       \<comment> \<open>line 31, iterations left\<close>
  | T_call nat       \<comment> \<open>inside \<open>wake_by_ref\<close>\<close>
  | T_drop           \<comment> \<open>line 33: the closure's waker is dropped\<close>
  | T_free
  | T_end

record cw =
  cw_task :: tstate
  BOOL :: bool
  cw_N :: u32
  cw_started :: bool
  cw_fut :: "nat \<Rightarrow> fut_pc"
  cw_thr :: "nat \<Rightarrow> thread_pc"
  cw_shut :: bool
  cw_panic :: bool

definition cw_init :: cw where
  "cw_init = \<lparr>cw_task = ts_new, BOOL = True, cw_N = 4, cw_started = False, cw_fut = (\<lambda>_. F_out), cw_thr = (\<lambda>_. T_none),
     cw_shut = False, cw_panic = False\<rparr>"

text \<open>The steps of the task protocol as a function; \<open>v\<close> is the worker that uses the waker \<open>Cx\<close>.\<close>

fun tdo :: "label \<Rightarrow> nat \<Rightarrow> tstate \<Rightarrow> tstate option" where
  "tdo (L_pop w) v s = (if 0 < ts_queued s \<and> ts_poll s w = Not_polling
     then Some ((touch s)\<lparr>ts_queued := ts_queued s - 1, ts_poll := (ts_poll s)(w := P_clear)\<rparr>) else None)"
| "tdo (L_guard_pop w) v s = (if 0 < ts_queued s \<and> ts_poll s w = Not_polling
     then Some ((touch s)\<lparr>ts_queued := ts_queued s - 1, ts_poll := (ts_poll s)(w := G_or)\<rparr>) else None)"
| "tdo (L_poll w weak) v s = poll_step w weak s"
| "tdo (L_return w ready) v s = (if ts_poll s w = P_run \<and> calls_through s Cx = {}
     then Some (s\<lparr>ts_poll := (ts_poll s)(w := if ready then P_or_dropped else P_cas MUTED)\<rparr>) else None)"
| "tdo (L_clone h i) v s = (if handle_ok s h v \<and> i \<notin> ts_alive s \<and> card (ts_alive s) < max_wakers
     then Some ((touch s)\<lparr>ts_rc := ts_rc s + 1, ts_alive := insert i (ts_alive s)\<rparr>) else None)"
| "tdo (L_call u h) v s = (if handle_ok s h v \<and> ts_use s u = No_call
     then Some (s\<lparr>ts_use := (ts_use s)(u := U_or h)\<rparr>) else None)"
| "tdo (L_use u) v s = use_step u s"
| "tdo (L_drop u i) v s = (if i \<in> ts_alive s \<and> calls_through s (Hd i) = {} \<and> ts_use s u = No_call
     then Some ((touch s)\<lparr>ts_alive := ts_alive s - {i}, ts_rc := ts_rc s - 1,
       ts_use := (ts_use s)(u := if ts_rc s = 1 then U_dealloc else No_call)\<rparr>) else None)"

definition fut_go :: "nat \<Rightarrow> fut_pc \<Rightarrow> cw \<Rightarrow> cw" where
  "fut_go w pc s = s\<lparr>cw_fut := (cw_fut s)(w := pc)\<rparr>"

definition thr_go :: "nat \<Rightarrow> thread_pc \<Rightarrow> cw \<Rightarrow> cw" where
  "thr_go i pc s = s\<lparr>cw_thr := (cw_thr s)(i := pc)\<rparr>"

definition on_task :: "label \<Rightarrow> nat \<Rightarrow> cw \<Rightarrow> (tstate \<Rightarrow> cw \<Rightarrow> cw) \<Rightarrow> cw option" where
  "on_task l v s f = map_option (\<lambda>t. f t (s\<lparr>cw_task := t\<rparr>)) (tdo l v (cw_task s))"

text \<open>Worker \<open>w\<close> pops the task, or takes a step in \<open>Task::poll\<close>; the future starts or goes on when it is polled.\<close>

definition cw_worker :: "nat \<Rightarrow> bool \<Rightarrow> cw \<Rightarrow> cw option" where
  "cw_worker w weak s =
     (if ts_poll (cw_task s) w = Not_polling then on_task (L_pop w) w s (\<lambda>t s. s)
      else on_task (L_poll w weak) w s (\<lambda>t s.
        if ts_poll t w = P_run then fut_go w (if cw_started s then F_assert_true else F_clone 0) s else s))"

text \<open>The body of the future on worker \<open>w\<close>: \<open>Dummy::poll\<close>, \<open>Test::poll\<close>, the end of \<open>async_main\<close>.\<close>

definition cw_body :: "nat \<Rightarrow> nat \<Rightarrow> cw \<Rightarrow> cw option" where
  "cw_body m w s =
     (case cw_fut s w of
        F_out \<Rightarrow> None
      | F_clone i \<Rightarrow> (if i < 4 then on_task (L_clone Cx i) w s (\<lambda>t. fut_go w (F_spawn i))
                     else Some (fut_go w F_assert_true (s\<lparr>cw_started := True\<rparr>)))
      | F_spawn i \<Rightarrow> Some (fut_go w (F_clone (Suc i)) (thr_go i (T_loop m) s))
      | F_assert_true \<Rightarrow> Some (if BOOL s then fut_go w F_store_false s else s\<lparr>cw_panic := True\<rparr>)
      | F_store_false \<Rightarrow> Some (fut_go w F_assert_false (s\<lparr>BOOL := False\<rparr>))
      | F_assert_false \<Rightarrow> Some (if \<not> BOOL s then fut_go w F_store_true s else s\<lparr>cw_panic := True\<rparr>)
      | F_store_true \<Rightarrow> Some (fut_go w F_load (s\<lparr>BOOL := True\<rparr>))
      | F_load \<Rightarrow> Some (fut_go w (if cw_N s = 0 then F_shutdown else F_pending) s)
      | F_pending \<Rightarrow> on_task (L_return w False) w s (\<lambda>t. fut_go w F_out)
      | F_shutdown \<Rightarrow> Some (fut_go w F_ready (s\<lparr>cw_shut := True\<rparr>))
      | F_ready \<Rightarrow> on_task (L_return w True) w s (\<lambda>t. fut_go w F_out))"

text \<open>Thread \<open>i\<close>, with its clone \<open>Hd i\<close> of the waker.\<close>

definition cw_thread :: "nat \<Rightarrow> cw \<Rightarrow> cw option" where
  "cw_thread i s =
     (case cw_thr s i of
        T_none \<Rightarrow> None
      | T_loop (Suc k) \<Rightarrow> on_task (L_call i (Hd i)) 0 s (\<lambda>t. thr_go i (T_call k))
      | T_loop 0 \<Rightarrow> Some (thr_go i T_drop (s\<lparr>cw_N := cw_N s - 1\<rparr>))
      | T_call k \<Rightarrow> on_task (L_use i) 0 s (\<lambda>t. if ts_use t i = No_call then thr_go i (T_loop k) else (\<lambda>s. s))
      | T_drop \<Rightarrow> on_task (L_drop i i) 0 s (\<lambda>t. thr_go i (if ts_use t i = No_call then T_end else T_free))
      | T_free \<Rightarrow> on_task (L_use i) 0 s (\<lambda>t. thr_go i T_end)
      | T_end \<Rightarrow> None)"

datatype cw_label = Worker_step nat bool | Body nat | Thread nat

fun cw_do :: "nat \<Rightarrow> cw_label \<Rightarrow> cw \<Rightarrow> cw option" where
  "cw_do m (Worker_step w weak) s = cw_worker w weak s"
| "cw_do m (Body w) s = cw_body m w s"
| "cw_do m (Thread i) s = cw_thread i s"

abbreviation cw_reach :: "nat \<Rightarrow> cw \<Rightarrow> bool" where
  "cw_reach m \<equiv> reach (\<lambda>s. s = cw_init) (enabled (cw_do m))"

section \<open>The invariant\<close>

lemma tdo_tstep: "tdo l v s = Some t \<Longrightarrow> tstep l s t"
  by (cases l) (auto simp: tstep.simps split: if_splits)

lemma tdo_inv: "task_inv s \<Longrightarrow> tdo l v s = Some t \<Longrightarrow> task_inv t"
  using task_step_inv[of s t] tdo_tstep[of l v s t] by (auto simp: task_step_def)

lemma polled_once: "task_inv s \<Longrightarrow> ts_poll s w \<noteq> Not_polling \<Longrightarrow> ts_poll s v \<noteq> Not_polling \<Longrightarrow> v = w"
  unfolding task_inv_def own_inv_def by (metis owner.inject(2))

lemma tdo_poll:
  assumes "tdo l v s = Some t"
  shows "l \<in> {L_clone h i, L_call u h, L_use u, L_drop u i} \<Longrightarrow> ts_poll t = ts_poll s"
    "l = L_poll w weak \<Longrightarrow> ts_poll s w \<noteq> P_run \<and> ts_poll s w \<noteq> Not_polling \<and> (\<exists>pc. ts_poll t = (ts_poll s)(w := pc))"
    "l = L_pop w \<Longrightarrow> ts_poll t = (ts_poll s)(w := P_clear) \<and> ts_poll s w = Not_polling"
    "l = L_return w ready \<Longrightarrow> ts_poll t = (ts_poll s)(w := if ready then P_or_dropped else P_cas MUTED) \<and> ts_poll s w = P_run"
  using assms
  by (auto simp: touch_def use_step_def poll_step_def Let_def split: if_splits use_pc.splits poll_pc.splits)

text \<open>A thread that has left its loop and counted itself in \<open>N\<close>.\<close>

definition counted :: "thread_pc \<Rightarrow> bool" where
  "counted pc \<longleftrightarrow> pc \<in> {T_drop, T_free, T_end}"

text \<open>How many threads the future has started so far.\<close>

fun begun :: "bool \<Rightarrow> fut_pc \<Rightarrow> nat" where
  "begun st (F_clone i) = i"
| "begun st (F_spawn i) = i"
| "begun st _ = (if st then 4 else 0)"

fun phase_ok :: "bool \<Rightarrow> fut_pc \<Rightarrow> bool" where
  "phase_ok st F_out = True"
| "phase_ok st (F_clone i) = (\<not> st \<and> i \<le> 4)"
| "phase_ok st (F_spawn i) = (\<not> st \<and> i < 4)"
| "phase_ok st _ = st"

text \<open>The future is polled by one worker \<open>w\<close> at most, which is at \<open>pc\<close>.\<close>

definition cw_ctl :: "cw \<Rightarrow> nat \<Rightarrow> fut_pc \<Rightarrow> bool" where
  "cw_ctl s w pc \<longleftrightarrow> task_inv (cw_task s) \<and> cw_fut s = (\<lambda>_. F_out)(w := pc) \<and>
     (\<forall>v. ts_poll (cw_task s) v = P_run \<longleftrightarrow> v = w \<and> pc \<noteq> F_out)"

definition cw_data :: "cw \<Rightarrow> fut_pc \<Rightarrow> bool" where
  "cw_data s pc \<longleftrightarrow> \<not> cw_panic s \<and> (BOOL s \<longleftrightarrow> pc \<noteq> F_assert_false \<and> pc \<noteq> F_store_true) \<and> phase_ok (cw_started s) pc \<and>
     (\<forall>i\<ge>begun (cw_started s) pc. cw_thr s i = T_none) \<and> unat (cw_N s) = card {i. i < 4 \<and> \<not> counted (cw_thr s i)} \<and>
     (pc = F_shutdown \<or> pc = F_ready \<or> cw_shut s \<longrightarrow> (\<forall>i<4. counted (cw_thr s i)))"

definition cw_inv :: "cw \<Rightarrow> bool" where
  "cw_inv s \<longleftrightarrow> (\<exists>w pc. cw_ctl s w pc \<and> cw_data s pc)"

lemma cw_invI: "cw_ctl s w pc \<Longrightarrow> cw_data s pc \<Longrightarrow> cw_inv s"
  unfolding cw_inv_def by blast

lemma on_task_Some:
  "on_task l v s f = Some t \<longleftrightarrow> (\<exists>u. tdo l v (cw_task s) = Some u \<and> t = f u (s\<lparr>cw_task := u\<rparr>))"
  by (auto simp: on_task_def)

lemma cw_init_inv: "cw_inv cw_init"
proof -
  have "{i. i < (4 :: nat)} = {..<4}" by auto
  then have "cw_data cw_init F_out" by (simp add: cw_data_def cw_init_def counted_def)
  moreover have "cw_ctl cw_init 0 F_out" using task_inv_new by (simp add: cw_ctl_def cw_init_def ts_new_def fun_eq_iff)
  ultimately show ?thesis by (rule cw_invI[rotated])
qed

text \<open>The pieces of the invariant under the changes of a step.\<close>

lemma data_pc:
  assumes "cw_data s F_out" "pc = (if cw_started s then F_assert_true else F_clone 0)"
  shows "cw_data s pc"
  using assms by (auto simp: cw_data_def)

lemma ctl_fut_go:
  assumes "cw_ctl s w pc" "pc \<noteq> F_out" "pc' \<noteq> F_out"
  shows "cw_ctl (fut_go w pc' s) w pc'"
  using assms by (auto simp: cw_ctl_def fut_go_def)

lemma worker_inv:
  assumes inv: "cw_inv s" and t: "cw_worker w' weak s = Some t"
  shows "cw_inv t"
proof -
  obtain w pc where c: "cw_ctl s w pc" "cw_data s pc" using inv by (auto simp: cw_inv_def)
  show ?thesis
  proof (cases "ts_poll (cw_task s) w' = Not_polling")
    case True
    then obtain u where u: "tdo (L_pop w') w' (cw_task s) = Some u" "t = s\<lparr>cw_task := u\<rparr>"
      using t by (auto simp: cw_worker_def on_task_Some)
    have "ts_poll u v = P_run \<longleftrightarrow> ts_poll (cw_task s) v = P_run" for v using tdo_poll(3)[OF u(1) refl] by auto
    then have "cw_ctl t w pc" using c(1) tdo_inv[OF _ u(1)] u(2) by (simp add: cw_ctl_def)
    moreover have "cw_data t pc" using c(2) u(2) by (simp add: cw_data_def)
    ultimately show ?thesis by (rule cw_invI)
  next
    case False
    let ?pc = "if cw_started s then F_assert_true else F_clone 0"
    from False t obtain u where u: "tdo (L_poll w' weak) w' (cw_task s) = Some u"
      "t = (if ts_poll u w' = P_run then fut_go w' ?pc (s\<lparr>cw_task := u\<rparr>) else s\<lparr>cw_task := u\<rparr>)"
      by (auto simp: cw_worker_def on_task_Some)
    obtain p where p: "ts_poll (cw_task s) w' \<noteq> P_run" "ts_poll (cw_task s) w' \<noteq> Not_polling" "ts_poll u = (ts_poll (cw_task s))(w' := p)"
      using tdo_poll(2)[OF u(1) refl] by blast
    have ti: "task_inv (cw_task s)" "task_inv u" using c(1) tdo_inv[OF _ u(1)] by (simp_all add: cw_ctl_def)
    have none: "ts_poll (cw_task s) v \<noteq> P_run" for v using polled_once[OF ti(1) p(2), of v] p(1) by auto
    then have pc: "pc = F_out" using c(1) by (auto simp: cw_ctl_def)
    have d: "cw_data (s\<lparr>cw_task := u\<rparr>) F_out" using c(2) pc by (simp add: cw_data_def)
    show ?thesis
    proof (cases "p = P_run")
      case True
      have "cw_ctl t w' ?pc" using c(1) none ti(2) u(2) p(3) True pc by (auto simp: cw_ctl_def fut_go_def fun_eq_iff)
      moreover have "cw_data t ?pc" using data_pc[OF d, of ?pc] u(2) p(3) True by (simp add: fut_go_def cw_data_def)
      ultimately show ?thesis by (rule cw_invI)
    next
      case False
      have "cw_ctl t w F_out" using c(1) none ti(2) u(2) p(3) False pc by (auto simp: cw_ctl_def)
      moreover have "cw_data t F_out" using d u(2) p(3) False by simp
      ultimately show ?thesis by (rule cw_invI)
    qed
  qed
qed

lemma body_task:
  assumes c: "cw_ctl s w pc" "pc \<noteq> F_out" "pc' \<noteq> F_out" and u: "tdo (L_clone Cx i) w (cw_task s) = Some u"
  shows "cw_ctl (fut_go w pc' (s\<lparr>cw_task := u\<rparr>)) w pc'"
proof -
  have "ts_poll u = ts_poll (cw_task s)" using tdo_poll(1)[OF u, of Cx i] by simp
  then show ?thesis using c tdo_inv[OF _ u] by (auto simp: cw_ctl_def fut_go_def)
qed

lemma body_return:
  assumes c: "cw_ctl s w pc" and u: "tdo (L_return w ready) w (cw_task s) = Some u"
  shows "cw_ctl (fut_go w F_out (s\<lparr>cw_task := u\<rparr>)) w F_out"
  using c tdo_inv[OF _ u] tdo_poll(4)[OF u refl] by (auto simp: cw_ctl_def fut_go_def)

lemma body_inv:
  assumes inv: "cw_inv s" and t: "cw_body m w' s = Some t"
  shows "cw_inv t"
proof -
  obtain w pc where c: "cw_ctl s w pc" "cw_data s pc" using inv by (auto simp: cw_inv_def)
  have ne: "cw_fut s w' \<noteq> F_out" using t by (auto simp: cw_body_def)
  then have w: "w' = w" "cw_fut s w = pc" "pc \<noteq> F_out" using c(1) by (auto simp: cw_ctl_def split: if_splits)
  note go = ctl_fut_go[OF c(1) w(3)]
  have upd: "cw_ctl (fut_go w pc' (f s)) w pc'"
    if "pc' \<noteq> F_out" "cw_task (f s) = cw_task s" "cw_fut (f s) = cw_fut s" for pc' f
    using go[OF that(1)] that(2,3) by (simp add: cw_ctl_def fut_go_def)
  show ?thesis
  proof (cases pc)
    case (F_clone i)
    show ?thesis
    proof (cases "i < 4")
      case True
      then obtain u where u: "tdo (L_clone Cx i) w (cw_task s) = Some u" "t = fut_go w (F_spawn i) (s\<lparr>cw_task := u\<rparr>)"
        using t w F_clone by (auto simp: cw_body_def on_task_Some)
      have "cw_data t (F_spawn i)" using c(2) F_clone True u(2) by (auto simp: cw_data_def fut_go_def)
      then show ?thesis using body_task[OF c(1) w(3) _ u(1), of "F_spawn i"] u(2) by (auto intro: cw_invI)
    next
      case False
      then have i: "i = 4" "t = fut_go w F_assert_true (s\<lparr>cw_started := True\<rparr>)" using t w F_clone c(2) by (auto simp: cw_body_def cw_data_def)
      have "cw_data t F_assert_true" using c(2) F_clone i by (auto simp: cw_data_def fut_go_def)
      then show ?thesis using upd[of F_assert_true "\<lambda>s. s\<lparr>cw_started := True\<rparr>"] i(2) by (auto intro: cw_invI)
    qed
  next
    case (F_spawn i)
    have t': "t = fut_go w (F_clone (Suc i)) (thr_go i (T_loop m) s)" using t w F_spawn by (simp add: cw_body_def)
    have d: "i < 4" "cw_thr s i = T_none" using c(2) F_spawn by (auto simp: cw_data_def)
    then have "{j. j < 4 \<and> \<not> counted (((cw_thr s)(i := T_loop m)) j)} = {j. j < 4 \<and> \<not> counted (cw_thr s j)}" by (auto simp: counted_def)
    moreover have "\<not> counted (cw_thr s i)" using d by (simp add: counted_def)
    ultimately have "cw_data t (F_clone (Suc i))" using c(2) F_spawn d(1) unfolding t' by (auto simp: cw_data_def fut_go_def thr_go_def)
    then show ?thesis using upd[of "F_clone (Suc i)" "thr_go i (T_loop m)"] t' by (auto intro: cw_invI simp: thr_go_def)
  next
    case F_assert_true
    then have t': "t = fut_go w F_store_false s" using t w c(2) by (auto simp: cw_body_def cw_data_def)
    then have "cw_data t F_store_false" using c(2) F_assert_true by (auto simp: cw_data_def fut_go_def)
    then show ?thesis using go[of F_store_false] t' by (auto intro: cw_invI)
  next
    case F_store_false
    then have t': "t = fut_go w F_assert_false (s\<lparr>BOOL := False\<rparr>)" using t w by (auto simp: cw_body_def)
    then have "cw_data t F_assert_false" using c(2) F_store_false by (auto simp: cw_data_def fut_go_def)
    then show ?thesis using upd[of F_assert_false "\<lambda>s. s\<lparr>BOOL := False\<rparr>"] t' by (auto intro: cw_invI)
  next
    case F_assert_false
    then have t': "t = fut_go w F_store_true s" using t w c(2) by (auto simp: cw_body_def cw_data_def)
    then have "cw_data t F_store_true" using c(2) F_assert_false by (auto simp: cw_data_def fut_go_def)
    then show ?thesis using go[of F_store_true] t' by (auto intro: cw_invI)
  next
    case F_store_true
    then have t': "t = fut_go w F_load (s\<lparr>BOOL := True\<rparr>)" using t w by (auto simp: cw_body_def)
    then have "cw_data t F_load" using c(2) F_store_true by (auto simp: cw_data_def fut_go_def)
    then show ?thesis using upd[of F_load "\<lambda>s. s\<lparr>BOOL := True\<rparr>"] t' by (auto intro: cw_invI)
  next
    case F_load
    let ?pc = "if cw_N s = 0 then F_shutdown else F_pending"
    have t': "t = fut_go w ?pc s" using t w F_load by (auto simp: cw_body_def)
    have "\<forall>i<4. counted (cw_thr s i)" if "cw_N s = 0"
    proof -
      have "card {i. i < 4 \<and> \<not> counted (cw_thr s i)} = 0" using that c(2) by (simp add: cw_data_def)
      then have "{i. i < 4 \<and> \<not> counted (cw_thr s i)} = {}" using card_0_eq by auto
      then show ?thesis by auto
    qed
    then have "cw_data t ?pc" using c(2) F_load t' by (auto simp: cw_data_def fut_go_def)
    then show ?thesis using go[of ?pc] t' by (auto intro: cw_invI)
  next
    case F_shutdown
    then have t': "t = fut_go w F_ready (s\<lparr>cw_shut := True\<rparr>)" using t w by (auto simp: cw_body_def)
    then have "cw_data t F_ready" using c(2) F_shutdown by (auto simp: cw_data_def fut_go_def)
    then show ?thesis using upd[of F_ready "\<lambda>s. s\<lparr>cw_shut := True\<rparr>"] t' by (auto intro: cw_invI)
  next
    case F_pending
    then obtain u where u: "tdo (L_return w False) w (cw_task s) = Some u" "t = fut_go w F_out (s\<lparr>cw_task := u\<rparr>)"
      using t w by (auto simp: cw_body_def on_task_Some)
    have "cw_data t F_out" using c(2) F_pending u(2) by (auto simp: cw_data_def fut_go_def)
    then show ?thesis using body_return[OF c(1) u(1)] u(2) by (auto intro: cw_invI)
  next
    case F_ready
    then obtain u where u: "tdo (L_return w True) w (cw_task s) = Some u" "t = fut_go w F_out (s\<lparr>cw_task := u\<rparr>)"
      using t w by (auto simp: cw_body_def on_task_Some)
    have "cw_data t F_out" using c(2) F_ready u(2) by (auto simp: cw_data_def fut_go_def)
    then show ?thesis using body_return[OF c(1) u(1)] u(2) by (auto intro: cw_invI)
  qed (use w(3) in simp)
qed

text \<open>A thread moves on without counting itself.\<close>

lemma thread_go:
  assumes c: "cw_ctl s w pc" "cw_data s pc" and i: "cw_thr s i \<noteq> T_none" "counted tp = counted (cw_thr s i)"
    and u: "tdo l v (cw_task s) = Some u" "l = L_call i h \<or> l = L_use i \<or> l = L_drop i j"
  shows "cw_inv (thr_go i tp (s\<lparr>cw_task := u\<rparr>))" "cw_inv (s\<lparr>cw_task := u\<rparr>)"
proof -
  have p: "ts_poll u = ts_poll (cw_task s)" using tdo_poll(1)[OF u(1), of h j i] u(2) by auto
  have ctl: "cw_ctl (s\<lparr>cw_task := u\<rparr>) w pc" using c(1) tdo_inv[OF _ u(1)] by (simp add: cw_ctl_def p)
  moreover have "cw_data (s\<lparr>cw_task := u\<rparr>) pc" using c(2) by (simp add: cw_data_def)
  ultimately show "cw_inv (s\<lparr>cw_task := u\<rparr>)" by (rule cw_invI)
  have cnt: "counted (((cw_thr s)(i := tp)) j) = counted (cw_thr s j)" for j using i(2) by simp
  have "cw_data (thr_go i tp (s\<lparr>cw_task := u\<rparr>)) pc"
    using c(2) i(1) cnt by (auto simp: cw_data_def thr_go_def)
  moreover have "cw_ctl (thr_go i tp (s\<lparr>cw_task := u\<rparr>)) w pc" using ctl by (simp add: cw_ctl_def thr_go_def)
  ultimately show "cw_inv (thr_go i tp (s\<lparr>cw_task := u\<rparr>))" by (rule cw_invI[rotated])
qed

lemma begun_le: "phase_ok st pc \<Longrightarrow> begun st pc \<le> 4"
  by (cases "(st, pc)" rule: begun.cases) auto

lemma thread_count:
  assumes c: "cw_ctl s w pc" "cw_data s pc" and i: "cw_thr s i = T_loop 0"
  shows "cw_inv (thr_go i T_drop (s\<lparr>cw_N := cw_N s - 1\<rparr>))"
proof -
  have d: "phase_ok (cw_started s) pc" "\<forall>i\<ge>begun (cw_started s) pc. cw_thr s i = T_none"
    "unat (cw_N s) = card {i. i < 4 \<and> \<not> counted (cw_thr s i)}" using c(2) by (simp_all add: cw_data_def)
  have i4: "i < 4" using d(2)[rule_format, of i] begun_le[OF d(1)] i by (cases "i < 4") auto
  let ?A = "{i. i < 4 \<and> \<not> counted (cw_thr s i)}" and ?thr = "(cw_thr s)(i := T_drop)"
  have A: "i \<in> ?A" "finite ?A" using i4 i by (simp_all add: counted_def)
  have "{j. j < 4 \<and> \<not> counted (?thr j)} = ?A - {i}" by (auto simp: counted_def)
  then have "card {j. j < 4 \<and> \<not> counted (?thr j)} = unat (cw_N s) - 1" using A d(3) by simp
  moreover have "unat (cw_N s - 1) = unat (cw_N s) - 1"
  proof -
    have "cw_N s \<noteq> 0" using A d(3) by (metis card_0_eq empty_iff unat_0)
    then show ?thesis by (simp add: unat_minus_one)
  qed
  moreover have "\<not> (pc = F_shutdown \<or> pc = F_ready \<or> cw_shut s)"
    using A(1) c(2) unfolding cw_data_def by blast
  moreover have "\<forall>j\<ge>begun (cw_started s) pc. ?thr j = T_none" using d(2) i by auto
  ultimately have "cw_data (thr_go i T_drop (s\<lparr>cw_N := cw_N s - 1\<rparr>)) pc"
    using c(2) by (simp add: cw_data_def thr_go_def del: fun_upd_apply)
  moreover have "cw_ctl (thr_go i T_drop (s\<lparr>cw_N := cw_N s - 1\<rparr>)) w pc" using c(1) by (simp add: cw_ctl_def thr_go_def)
  ultimately show ?thesis by (rule cw_invI[rotated])
qed

lemma thread_inv:
  assumes inv: "cw_inv s" and t: "cw_thread i s = Some t"
  shows "cw_inv t"
proof -
  obtain w pc where c: "cw_ctl s w pc" "cw_data s pc" using inv by (auto simp: cw_inv_def)
  note go = thread_go[OF c]
  show ?thesis
  proof (cases "cw_thr s i")
    case (T_loop k)
    show ?thesis
    proof (cases k)
      case 0
      then show ?thesis using t thread_count[OF c, of i] T_loop by (simp add: cw_thread_def)
    next
      case (Suc j)
      then obtain u where u: "tdo (L_call i (Hd i)) 0 (cw_task s) = Some u" "t = thr_go i (T_call j) (s\<lparr>cw_task := u\<rparr>)"
        using t T_loop by (auto simp: cw_thread_def on_task_Some)
      show ?thesis unfolding u(2) by (rule go(1)[OF _ _ u(1)]) (simp_all add: T_loop counted_def)
    qed
  next
    case (T_call k)
    then obtain u where u: "tdo (L_use i) 0 (cw_task s) = Some u"
      "t = (if ts_use u i = No_call then thr_go i (T_loop k) (s\<lparr>cw_task := u\<rparr>) else s\<lparr>cw_task := u\<rparr>)"
      using t by (auto simp: cw_thread_def on_task_Some)
    have "cw_inv (thr_go i (T_loop k) (s\<lparr>cw_task := u\<rparr>))" "cw_inv (s\<lparr>cw_task := u\<rparr>)"
      by (rule go[where tp = "T_loop k", OF _ _ u(1)]; simp add: T_call counted_def)+
    then show ?thesis using u(2) by simp
  next
    case T_drop
    then obtain u tp where u: "tdo (L_drop i i) 0 (cw_task s) = Some u" "t = thr_go i tp (s\<lparr>cw_task := u\<rparr>)" "tp = T_end \<or> tp = T_free"
      using t by (auto simp: cw_thread_def on_task_Some)
    show ?thesis unfolding u(2) by (rule go(1)[OF _ _ u(1)]) (use u(3) in \<open>auto simp: T_drop counted_def\<close>)
  next
    case T_free
    then obtain u where u: "tdo (L_use i) 0 (cw_task s) = Some u" "t = thr_go i T_end (s\<lparr>cw_task := u\<rparr>)"
      using t by (auto simp: cw_thread_def on_task_Some)
    show ?thesis unfolding u(2) by (rule go(1)[OF _ _ u(1)]) (simp_all add: T_free counted_def)
  qed (use t in \<open>simp_all add: cw_thread_def\<close>)
qed

interpretation cw: inductive_invariant "\<lambda>s. s = cw_init" "enabled (cw_do m)" cw_inv for m
proof unfold_locales
  fix s t assume inv: "cw_inv s" and "enabled (cw_do m) s t"
  then obtain l where "cw_do m l s = Some t" by (auto simp: enabled_def)
  then show "cw_inv t" by (cases l) (auto intro: worker_inv[OF inv] body_inv[OF inv] thread_inv[OF inv])
qed (use cw_init_inv in simp)

section \<open>Properties\<close>

text \<open>
  The assertions of the test never fail.  However the wake-ups of the four threads interleave with the
  polls, no poll of the task runs while another one does, so every poll finds \<open>BOOL\<close> as it left it.
\<close>

lemma concurrent_wakeup_asserts:
  assumes "cw_reach m s"
  shows "\<not> cw_panic s \<and> (\<forall>w v. cw_fut s w \<noteq> F_out \<and> cw_fut s v \<noteq> F_out \<longrightarrow> w = v) \<and>
    ((\<forall>w. cw_fut s w = F_out) \<longrightarrow> BOOL s)"
proof -
  obtain w pc where c: "cw_ctl s w pc" "cw_data s pc" using cw.reach_inv[OF assms] by (auto simp: cw_inv_def)
  then show ?thesis by (auto simp: cw_ctl_def cw_data_def split: if_splits)
qed

text \<open>
  The test ends only when its work is done.  When the main task asks for the shutdown, all four threads
  have left their loop: each has called \<open>wake_by_ref\<close> \<open>m\<close> times, and \<open>N\<close> has counted exactly these threads.
\<close>

lemma concurrent_wakeup_ends_last:
  assumes "cw_reach m s"
  shows "unat (cw_N s) = card {i. i < 4 \<and> \<not> counted (cw_thr s i)} \<and> (cw_shut s \<longrightarrow> (\<forall>i<4. counted (cw_thr s i)))"
  using cw.reach_inv[OF assms] by (auto simp: cw_inv_def cw_data_def)

section \<open>The test can hang\<close>

text \<open>The first poll is in \<open>Test::poll\<close>, all threads are started.\<close>

definition cw_running :: "u8 \<Rightarrow> bool \<Rightarrow> (nat \<Rightarrow> thread_pc) \<Rightarrow> cw" where
  "cw_running st u thr = \<lparr>cw_task = \<lparr>ts_status = st, ts_rc = 5, ts_freed = False, ts_drops = 0, ts_queued = 0,
       ts_poll = (\<lambda>_. Not_polling)(0 := P_run), ts_alive = {0, 1, 2, 3}, ts_use = (\<lambda>_. No_call), ts_unseen = u, ts_bad = False\<rparr>,
     BOOL = True, cw_N = 4, cw_started = True, cw_fut = (\<lambda>_. F_out)(0 := F_assert_true), cw_thr = thr, cw_shut = False, cw_panic = False\<rparr>"

text \<open>The task waits for a wake-up, and no thread will send one.\<close>

definition cw_hung :: "bool \<Rightarrow> cw" where
  "cw_hung u = \<lparr>cw_task = \<lparr>ts_status = 0, ts_rc = 1, ts_freed = False, ts_drops = 0, ts_queued = 0,
       ts_poll = (\<lambda>_. Not_polling), ts_alive = {}, ts_use = (\<lambda>_. No_call), ts_unseen = u, ts_bad = False\<rparr>,
     BOOL = True, cw_N = 0, cw_started = True, cw_fut = (\<lambda>_. F_out), cw_thr = (\<lambda>_. T_none)(0 := T_end, 1 := T_end, 2 := T_end, 3 := T_end),
     cw_shut = False, cw_panic = False\<rparr>"

abbreviation threads_at :: "thread_pc \<Rightarrow> nat \<Rightarrow> thread_pc" where
  "threads_at pc \<equiv> (\<lambda>_. T_none)(0 := pc, 1 := pc, 2 := pc, 3 := pc)"

lemmas cw_eval = cw_worker_def cw_body_def cw_thread_def on_task_def fut_go_def thr_go_def touch_def poll_step_def use_step_def
  handle_ok_def calls_through_def status_bits Let_def

lemma cw_begin: "run (cw_do m) ([Worker_step 0 False, Worker_step 0 False] @ replicate 9 (Body 0)) cw_init =
    Some (cw_running 1 False (threads_at (T_loop m)))"
  by (simp add: cw_init_def ts_new_def cw_running_def cw_eval insert_commute eval_nat_numeral)

lemma cw_wake:
  assumes "i < 4" "st = 1 \<or> st = 3" "thr i = T_loop k"
  shows "(enabled (cw_do m))\<^sup>*\<^sup>* (cw_running st u thr) (cw_running (if k = 0 then st else 3) (u \<or> 0 < k) (thr(i := T_loop 0)))"
  using assms
proof (induction k arbitrary: st u thr)
  case 0
  then have "thr(i := T_loop 0) = thr" by auto
  then show ?case by simp
next
  case (Suc k)
  have "run (cw_do m) [Thread i, Thread i] (cw_running st u thr) = Some (cw_running 3 True (thr(i := T_loop k)))"
    using Suc.prems by (auto simp: cw_running_def cw_eval fun_eq_iff)
  note first = run_steps[OF this]
  have "(enabled (cw_do m))\<^sup>*\<^sup>* (cw_running 3 True (thr(i := T_loop k))) (cw_running 3 True (thr(i := T_loop 0)))"
    using Suc.IH[of 3 "thr(i := T_loop k)" True] Suc.prems(1) by (simp del: fun_upd_apply add: fun_upd_same split: if_splits)
  from rtranclp_trans[OF first this] show ?case by (simp del: fun_upd_apply)
qed

lemma cw_repoll: "run (cw_do m) [Body 0, Body 0, Body 0, Body 0, Body 0, Body 0, Worker_step 0 False, Worker_step 0 False] (cw_running 3 u thr) =
    Some (cw_running 1 False thr)"
  by (simp add: cw_running_def cw_eval)

lemma cw_sleep: "run (cw_do m) [Body 0, Body 0, Body 0, Body 0, Body 0, Body 0, Worker_step 0 False, Thread 0, Thread 0, Thread 1, Thread 1,
    Thread 2, Thread 2, Thread 3, Thread 3] (cw_running 1 u (threads_at (T_loop 0))) = Some (cw_hung u)"
  by (simp add: cw_running_def cw_hung_def cw_eval fun_eq_iff)

lemma cw_waked:
  "\<exists>st u. (st = 1 \<or> st = 3) \<and> (enabled (cw_do m))\<^sup>*\<^sup>* (cw_running 1 False (threads_at (T_loop m))) (cw_running st u (threads_at (T_loop 0)))"
proof -
  have step: "\<exists>st' u'. (st' = 1 \<or> st' = 3) \<and> (enabled (cw_do m))\<^sup>*\<^sup>* (cw_running st u thr) (cw_running st' u' (thr(i := T_loop 0)))"
    if "i < 4" "st = 1 \<or> st = 3" "thr i = T_loop m" for i st u thr
  proof -
    have "(if m = 0 then st else 3) = 1 \<or> (if m = 0 then st else 3) = 3" using that(2) by simp
    then show ?thesis using cw_wake[of i st thr m m u] that by blast
  qed
  let ?l = "T_loop m" and ?z = "T_loop 0" and ?t = "\<lambda>a b c d. (\<lambda>_. T_none)(0 := a, 1 := b, 2 := c, 3 := d)"
  have r: "\<exists>st' u'. (st' = 1 \<or> st' = 3) \<and> (enabled (cw_do m))\<^sup>*\<^sup>* s (cw_running st' u' (thr(i := T_loop 0)))"
    if "(enabled (cw_do m))\<^sup>*\<^sup>* s (cw_running st u thr)" "i < 4" "st = 1 \<or> st = 3" "thr i = T_loop m" for s st u thr i
    using step[of i st thr u] that(2-4) rtranclp_trans[OF that(1)] by blast
  obtain st0 u0 where 0: "st0 = 1 \<or> st0 = 3" "(enabled (cw_do m))\<^sup>*\<^sup>* (cw_running 1 False (?t ?l ?l ?l ?l)) (cw_running st0 u0 ((?t ?l ?l ?l ?l)(0 := ?z)))"
    using step[of 0 1 "?t ?l ?l ?l ?l" False] by auto
  obtain st1 u1 where 1: "st1 = 1 \<or> st1 = 3" "(enabled (cw_do m))\<^sup>*\<^sup>* (cw_running 1 False (?t ?l ?l ?l ?l)) (cw_running st1 u1 ((?t ?l ?l ?l ?l)(0 := ?z, 1 := ?z)))"
    using r[OF 0(2) _ 0(1), of 1] by auto
  obtain st2 u2 where 2: "st2 = 1 \<or> st2 = 3" "(enabled (cw_do m))\<^sup>*\<^sup>* (cw_running 1 False (?t ?l ?l ?l ?l)) (cw_running st2 u2 ((?t ?l ?l ?l ?l)(0 := ?z, 1 := ?z, 2 := ?z)))"
    using r[OF 1(2) _ 1(1), of 2] by auto
  obtain st3 u3 where 3: "st3 = 1 \<or> st3 = 3" "(enabled (cw_do m))\<^sup>*\<^sup>* (cw_running 1 False (?t ?l ?l ?l ?l)) (cw_running st3 u3 ((?t ?l ?l ?l ?l)(0 := ?z, 1 := ?z, 2 := ?z, 3 := ?z)))"
    using r[OF 2(2) _ 2(1), of 3] by auto
  have "(?t ?l ?l ?l ?l)(0 := ?z, 1 := ?z, 2 := ?z, 3 := ?z) = ?t ?z ?z ?z ?z" by (rule ext) simp
  with 3 show ?thesis by metis
qed

lemma cw_begin_reach: "cw_reach m (cw_running 1 False (threads_at (T_loop m)))"
  by (rule reach_run[OF _ cw_begin]) simp

lemma cw_hung_reach: "\<exists>u. cw_reach m (cw_hung u)"
proof -
  obtain st u where st: "st = 1 \<or> st = 3" and
    w: "(enabled (cw_do m))\<^sup>*\<^sup>* (cw_running 1 False (threads_at (T_loop m))) (cw_running st u (threads_at (T_loop 0)))"
    using cw_waked by blast
  have "(enabled (cw_do m))\<^sup>*\<^sup>* (cw_running 3 u (threads_at (T_loop 0))) (cw_hung False)"
    using run_steps[OF cw_repoll] run_steps[OF cw_sleep] by (rule rtranclp_trans)
  then have "\<exists>u'. (enabled (cw_do m))\<^sup>*\<^sup>* (cw_running st u (threads_at (T_loop 0))) (cw_hung u')"
    using st run_steps[OF cw_sleep] by blast
  then obtain u' where "(enabled (cw_do m))\<^sup>*\<^sup>* (cw_running 1 False (threads_at (T_loop m))) (cw_hung u')"
    using w by (meson rtranclp_trans)
  then show ?thesis using reach_steps[OF cw_begin_reach] by blast
qed

lemma cw_hung_stuck: "\<not> enabled (cw_do m) (cw_hung u) t"
proof -
  have "cw_do m l (cw_hung u) = None" for l by (cases l) (auto simp: cw_hung_def cw_eval)
  then show ?thesis by (simp add: enabled_def)
qed

text \<open>
  C25: the test can hang, for every number of iterations.  A thread calls \<open>fetch_sub\<close> on \<open>N\<close> after its last
  \<open>wake_by_ref\<close>, so the last poll can see \<open>N \<noteq> 0\<close> and return \<open>Pending\<close> although no wake-up follows: there
  is an execution in which all threads have ended, \<open>N\<close> is 0, nothing can move any more, and the main task
  has never asked for the shutdown.
\<close>

theorem concurrent_wakeup_can_hang:
  "\<exists>s. cw_reach m s \<and> (\<nexists>t. enabled (cw_do m) s t) \<and> cw_N s = 0 \<and> (\<forall>i<4. cw_thr s i = T_end) \<and> \<not> cw_shut s"
proof -
  obtain u where "cw_reach m (cw_hung u)" using cw_hung_reach by blast
  moreover have "cw_N (cw_hung u) = 0" "\<not> cw_shut (cw_hung u)" "cw_thr (cw_hung u) i = T_end" if "i < 4" for i
    using that by (auto simp: cw_hung_def)
  ultimately show ?thesis using cw_hung_stuck zero_less_numeral by metis
qed

section \<open>Witnesses\<close>

lemma concurrent_wakeup_asserts_example:
  "cw_reach 2 (cw_running 1 False (threads_at (T_loop 2))) \<and> \<not> cw_panic (cw_running 1 False (threads_at (T_loop 2)))"
  using cw_begin_reach[of 2] concurrent_wakeup_asserts[of 2] by blast

theorem concurrent_wakeup_can_hang_witness:
  "\<exists>s. cw_reach 100000000 s \<and> (\<nexists>t. enabled (cw_do 100000000) s t) \<and> cw_N s = 0 \<and> \<not> cw_shut s"
  using concurrent_wakeup_can_hang[of 100000000] by blast

lemma concurrent_wakeup_ends_last_example:
  "\<exists>u. cw_reach 2 (cw_hung u) \<and> unat (cw_N (cw_hung u)) = card {i. i < 4 \<and> \<not> counted (cw_thr (cw_hung u) i)}"
  using cw_hung_reach[of 2] concurrent_wakeup_ends_last[of 2] by blast

end
