(* ===== verification/Ping_Pong.thy ===== *)
theory Ping_Pong
  imports Tcp Transition
begin

text \<open>
  The benchmark \<open>yaay-tests/src/mio_ping_pong.rs\<close>: the main task listens, starts \<open>n\<close> tasks \<open>pong\<close> that
  connect, and a task \<open>ping\<close> for each connection it accepts; \<open>ping\<close> and \<open>pong\<close> send one byte back and forth
  \<open>r\<close> times, and the last \<open>ping\<close> ends the process.  In the source \<open>n = 1000\<close> and \<open>r = 10000\<close>.

  Every connection is a pair of pipes, whose \<open>write\<close> and \<open>read\<close> are parameters with the laws of the locale
  \<open>pipe\<close>; \<open>bind\<close>, \<open>connect\<close> and \<open>accept\<close> succeed.  These laws describe an ideal connection: a read blocks only if nothing
  is in flight, an empty pipe takes a byte at once, and there are no errors.  A TCP socket promises less, so that the
  results are about the logic of the benchmark and not about a network.  One step is one operation of a task that does
  not block: an attempt that blocks leaves the pipe as it is, and \<open>io_poll!\<close> repeats it later; that the task is woken for
  it is the subject of \<open>Dispatcher\<close> and \<open>Reactor_Safety\<close>.  \<open>COUNT\<close> is kept at its width.
\<close>

section \<open>Definitions\<close>

record 'q pipe_ops =
  p_write :: "u8 list \<Rightarrow> 'q \<Rightarrow> nat io \<times> 'q"
  p_read :: "nat \<Rightarrow> 'q \<Rightarrow> u8 list io \<times> 'q"
  p_new :: 'q

datatype main_at = Spawn nat | Accept nat | Main_block

datatype pong_at =
    Pong_none
  | Pong_connect      \<comment> \<open>line 68\<close>
  | Pong_read nat     \<comment> \<open>line 75, round\<close>
  | Pong_write nat    \<comment> \<open>line 76\<close>
  | Pong_block        \<comment> \<open>line 78\<close>
  | Pong_panic        \<comment> \<open>lines 75, 76: \<open>unwrap\<close>\<close>

datatype ping_at =
    Ping_none
  | Ping_write nat    \<comment> \<open>line 51, round\<close>
  | Ping_read nat     \<comment> \<open>line 52\<close>
  | Ping_count        \<comment> \<open>line 54\<close>
  | Ping_end
  | Ping_panic

record 'q pp =
  pp_main :: main_at
  pp_backlog :: "nat list"
  pp_pong :: "nat \<Rightarrow> pong_at"
  pp_ping :: "nat \<Rightarrow> ping_at"
  pp_to :: "nat \<Rightarrow> 'q"
  pp_from :: "nat \<Rightarrow> 'q"
  COUNT :: u32
  pp_exit :: bool

definition pp_init :: "'q pipe_ops \<Rightarrow> 'q pp" where
  "pp_init P = \<lparr>pp_main = Spawn 0, pp_backlog = [], pp_pong = (\<lambda>_. Pong_none), pp_ping = (\<lambda>_. Ping_none),
     pp_to = (\<lambda>_. p_new P), pp_from = (\<lambda>_. p_new P), COUNT = 0, pp_exit = False\<rparr>"

text \<open>
  One attempt of \<open>write_all(&msg)\<close> or \<open>read_exact(&mut buf)\<close>, with buffers of one byte: whether it
  succeeded, and the pipe; \<open>None\<close>: it blocked, or it does not return.
\<close>

definition try_write :: "'q pipe_ops \<Rightarrow> 'q \<Rightarrow> (bool \<times> 'q) option" where
  "try_write P q =
     (case std_write_all (p_write P) [0] q of
        None \<Rightarrow> None
      | Some (Inr u, q) \<Rightarrow> Some (True, q)
      | Some (Inl e, q) \<Rightarrow> if e = Would_block then None else Some (False, q))"

definition try_read :: "'q pipe_ops \<Rightarrow> 'q \<Rightarrow> (bool \<times> 'q) option" where
  "try_read P q =
     (case std_read_exact (p_read P) [] 1 q of
        None \<Rightarrow> None
      | Some (Inr bs, q) \<Rightarrow> Some (True, q)
      | Some (Inl e, q) \<Rightarrow> if e = Would_block then None else Some (False, q))"

text \<open>The main task; a \<open>connect\<close> that was answered waits in the backlog.\<close>

definition main_do :: "nat \<Rightarrow> nat \<Rightarrow> 'q pp \<Rightarrow> 'q pp option" where
  "main_do n r s =
     (case pp_main s of
        Spawn k \<Rightarrow>
          Some (if k < n then s\<lparr>pp_main := Spawn (Suc k), pp_pong := (pp_pong s)(k := Pong_connect)\<rparr>
                else s\<lparr>pp_main := Accept 0\<rparr>)
      | Accept k \<Rightarrow>
          (if k < n then
             case pp_backlog s of
               [] \<Rightarrow> None
             | c # cs \<Rightarrow>
                 Some (s\<lparr>pp_main := Accept (Suc k), pp_backlog := cs,
                   pp_ping := (pp_ping s)(c := if 0 < r then Ping_write 0 else Ping_count)\<rparr>)
           else Some (s\<lparr>pp_main := Main_block\<rparr>))
      | Main_block \<Rightarrow> None)"

definition pong_do :: "'q pipe_ops \<Rightarrow> nat \<Rightarrow> nat \<Rightarrow> 'q pp \<Rightarrow> 'q pp option" where
  "pong_do P r i s =
     (let go = (\<lambda>pc s. s\<lparr>pp_pong := (pp_pong s)(i := pc)\<rparr>) in
      case pp_pong s i of
        Pong_connect \<Rightarrow>
          Some (go (if 0 < r then Pong_read 0 else Pong_block) (s\<lparr>pp_backlog := pp_backlog s @ [i]\<rparr>))
      | Pong_read k \<Rightarrow>
          map_option (\<lambda>(ok, q). go (if ok then Pong_write k else Pong_panic) (s\<lparr>pp_to := (pp_to s)(i := q)\<rparr>))
            (try_read P (pp_to s i))
      | Pong_write k \<Rightarrow>
          map_option (\<lambda>(ok, q). go (if \<not> ok then Pong_panic else if Suc k < r then Pong_read (Suc k) else Pong_block)
              (s\<lparr>pp_from := (pp_from s)(i := q)\<rparr>))
            (try_write P (pp_from s i))
      | _ \<Rightarrow> None)"

definition ping_do :: "'q pipe_ops \<Rightarrow> nat \<Rightarrow> nat \<Rightarrow> nat \<Rightarrow> 'q pp \<Rightarrow> 'q pp option" where
  "ping_do P n r i s =
     (let go = (\<lambda>pc s. s\<lparr>pp_ping := (pp_ping s)(i := pc)\<rparr>) in
      case pp_ping s i of
        Ping_write k \<Rightarrow>
          map_option (\<lambda>(ok, q). go (if ok then Ping_read k else Ping_panic) (s\<lparr>pp_to := (pp_to s)(i := q)\<rparr>))
            (try_write P (pp_to s i))
      | Ping_read k \<Rightarrow>
          map_option (\<lambda>(ok, q). go (if \<not> ok then Ping_panic else if Suc k < r then Ping_write (Suc k) else Ping_count)
              (s\<lparr>pp_from := (pp_from s)(i := q)\<rparr>))
            (try_read P (pp_from s i))
      | Ping_count \<Rightarrow>
          Some (go Ping_end (s\<lparr>COUNT := COUNT s + 1, pp_exit := (COUNT s = of_nat n - 1)\<rparr>))
      | _ \<Rightarrow> None)"

datatype pp_label = Main_do | Pong_do nat | Ping_do nat

text \<open>After \<open>exit(0)\<close> nothing runs.\<close>

fun pp_do :: "'q pipe_ops \<Rightarrow> nat \<Rightarrow> nat \<Rightarrow> pp_label \<Rightarrow> 'q pp \<Rightarrow> 'q pp option" where
  "pp_do P n r Main_do s = (if pp_exit s then None else main_do n r s)"
| "pp_do P n r (Pong_do i) s = (if pp_exit s then None else pong_do P r i s)"
| "pp_do P n r (Ping_do i) s = (if pp_exit s then None else ping_do P n r i s)"

abbreviation pp_step :: "'q pipe_ops \<Rightarrow> nat \<Rightarrow> nat \<Rightarrow> 'q pp \<Rightarrow> 'q pp \<Rightarrow> bool" where
  "pp_step P n r \<equiv> enabled (pp_do P n r)"

text \<open>
  What the benchmark relies on: a pipe delivers the bytes in order, an empty one accepts a byte, a
  non-empty one can be read, an operation that blocks has no effect, and there are no other errors.
\<close>

locale pipe =
  fixes P :: "'q pipe_ops" and content :: "'q \<Rightarrow> u8 list"
  assumes new: "content (p_new P) = []"
    and write_ok: "p_write P buf q = (Inr n, q') \<Longrightarrow> buf \<noteq> [] \<Longrightarrow> 0 < n \<and> n \<le> length buf \<and> content q' = content q @ take n buf"
    and write_err: "p_write P buf q = (Inl e, q') \<Longrightarrow> buf \<noteq> [] \<Longrightarrow> e = Would_block \<and> q' = q \<and> content q \<noteq> []"
    and read_ok: "p_read P len q = (Inr bs, q') \<Longrightarrow> 0 < len \<Longrightarrow> bs \<noteq> [] \<and> length bs \<le> len \<and> content q = bs @ content q'"
    and read_err: "p_read P len q = (Inl e, q') \<Longrightarrow> 0 < len \<Longrightarrow> e = Would_block \<and> q' = q \<and> content q = []"
begin

text \<open>With one byte at a time an attempt sends or receives everything or nothing.\<close>

lemma write_one:
  "case p_write P [b] q of
     (Inr n, q') \<Rightarrow> std_write_all (p_write P) [b] q = Some (Inr (), q') \<and> content q' = content q @ [b]
   | (Inl e, q') \<Rightarrow> std_write_all (p_write P) [b] q = Some (Inl Would_block, q) \<and> content q \<noteq> []"
proof (cases "p_write P [b] q")
  case (Pair res q')
  show ?thesis
  proof (cases res)
    case (Inl e)
    then show ?thesis using write_err[of "[b]" q e q'] Pair by (simp add: std_write_all.simps[of _ "[b]"])
  next
    case (Inr m)
    then have "m = 1" "content q' = content q @ [b]" using write_ok[of "[b]" q m q'] Pair by auto
    then show ?thesis using Pair Inr by (simp add: std_write_all.simps[of _ "[b]"] std_write_all.simps[of _ "[]"])
  qed
qed

lemma read_one:
  "case p_read P 1 q of
     (Inr bs, q') \<Rightarrow> std_read_exact (p_read P) [] 1 q = Some (Inr bs, q') \<and> (\<exists>b. bs = [b] \<and> content q = b # content q')
   | (Inl e, q') \<Rightarrow> std_read_exact (p_read P) [] 1 q = Some (Inl Would_block, q) \<and> content q = []"
proof (cases "p_read P 1 q")
  case (Pair res q')
  show ?thesis
  proof (cases res)
    case (Inl e)
    then show ?thesis using read_err[of 1 q e q'] Pair by (simp add: std_read_exact.simps[of _ "[]"])
  next
    case (Inr bs)
    then have "bs \<noteq> []" "length bs \<le> 1" "content q = bs @ content q'" using read_ok[of 1 q bs q'] Pair by auto
    then obtain b where "bs = [b]" "content q = b # content q'" by (cases bs) auto
    then show ?thesis using Pair Inr by (simp add: std_read_exact.simps[of _ "[]"] std_read_exact.simps[of _ "[b]"])
  qed
qed

lemma try_write_eq:
  "try_write P q = (case p_write P [0] q of (Inr n, q') \<Rightarrow> Some (True, q') | (Inl e, q') \<Rightarrow> None)"
proof (cases "p_write P [0] q")
  case (Pair res q')
  then show ?thesis using write_one[of 0 q] by (cases res) (simp_all add: try_write_def)
qed

lemma try_write_Some: "try_write P q = Some (ok, q') \<Longrightarrow> ok \<and> content q' = content q @ [0]"
proof (cases "p_write P [0] q")
  fix res q1 assume t: "try_write P q = Some (ok, q')" and p: "p_write P [0] q = (res, q1)"
  then show "ok \<and> content q' = content q @ [0]" using write_one[of 0 q] by (cases res) (simp_all add: try_write_eq)
qed

lemma try_write_empty: "content q = [] \<Longrightarrow> \<exists>q'. try_write P q = Some (True, q')"
proof (cases "p_write P [0] q")
  fix res q1 assume "content q = []" "p_write P [0] q = (res, q1)"
  then show "\<exists>q'. try_write P q = Some (True, q')" using write_one[of 0 q] by (cases res) (simp_all add: try_write_eq)
qed

lemma try_read_eq:
  "try_read P q = (case p_read P 1 q of (Inr bs, q') \<Rightarrow> Some (True, q') | (Inl e, q') \<Rightarrow> None)"
proof (cases "p_read P 1 q")
  case (Pair res q')
  then show ?thesis using read_one[of q] by (cases res) (simp_all add: try_read_def del: One_nat_def)
qed

lemma try_read_Some: "try_read P q = Some (ok, q') \<Longrightarrow> ok \<and> (\<exists>b. content q = b # content q')"
proof (cases "p_read P 1 q")
  fix res q1 assume t: "try_read P q = Some (ok, q')" and p: "p_read P 1 q = (res, q1)"
  then show "ok \<and> (\<exists>b. content q = b # content q')"
    using read_one[of q] by (cases res) (simp_all add: try_read_eq del: One_nat_def, blast)
qed

lemma try_read_avail: "content q \<noteq> [] \<Longrightarrow> \<exists>q'. try_read P q = Some (True, q')"
proof (cases "p_read P 1 q")
  fix res q1 assume "content q \<noteq> []" "p_read P 1 q = (res, q1)"
  then show "\<exists>q'. try_read P q = Some (True, q')"
    using read_one[of q] by (cases res) (simp_all add: try_read_eq del: One_nat_def)
qed

end

section \<open>The conversation\<close>

text \<open>
  The stages of connection \<open>i\<close>: in round \<open>k\<close> the byte is about to be sent, is on its way to \<open>pong\<close>, is about
  to be sent back, is on its way back.
\<close>

datatype stage = Unborn | Connecting | Waiting | To_ping nat | Pinged nat | To_pong nat | Ponged nat | Counting | Finished

definition next_pong :: "nat \<Rightarrow> nat \<Rightarrow> pong_at" where
  "next_pong r k = (if k < r then Pong_read k else Pong_block)"

text \<open>Where the two tasks are, the bytes in the two pipes, and whether the connection waits to be accepted.\<close>

fun conn_at :: "nat \<Rightarrow> stage \<Rightarrow> pong_at \<times> ping_at \<times> nat \<times> nat \<times> bool" where
  "conn_at r Unborn = (Pong_none, Ping_none, 0, 0, False)"
| "conn_at r Connecting = (Pong_connect, Ping_none, 0, 0, False)"
| "conn_at r Waiting = (next_pong r 0, Ping_none, 0, 0, True)"
| "conn_at r (To_ping k) = (Pong_read k, Ping_write k, 0, 0, False)"
| "conn_at r (Pinged k) = (Pong_read k, Ping_read k, 1, 0, False)"
| "conn_at r (To_pong k) = (Pong_write k, Ping_read k, 0, 0, False)"
| "conn_at r (Ponged k) = (next_pong r (Suc k), Ping_read k, 0, 1, False)"
| "conn_at r Counting = (Pong_block, Ping_count, 0, 0, False)"
| "conn_at r Finished = (Pong_block, Ping_end, 0, 0, False)"

fun round_ok :: "nat \<Rightarrow> stage \<Rightarrow> bool" where
  "round_ok r (To_ping k) = (k < r)"
| "round_ok r (Pinged k) = (k < r)"
| "round_ok r (To_pong k) = (k < r)"
| "round_ok r (Ponged k) = (k < r)"
| "round_ok r _ = True"

definition after_round :: "nat \<Rightarrow> nat \<Rightarrow> stage" where
  "after_round r k = (if k < r then To_ping k else Counting)"

fun stage_rank :: "nat \<Rightarrow> stage \<Rightarrow> nat" where
  "stage_rank r Unborn = 4 * r + 4"
| "stage_rank r Connecting = 4 * r + 3"
| "stage_rank r Waiting = 4 * r + 2"
| "stage_rank r (To_ping k) = 4 * (r - k) + 1"
| "stage_rank r (Pinged k) = 4 * (r - k)"
| "stage_rank r (To_pong k) = 4 * (r - k) - 1"
| "stage_rank r (Ponged k) = 4 * (r - k) - 2"
| "stage_rank r Counting = 1"
| "stage_rank r Finished = 0"

fun main_rank :: "main_at \<Rightarrow> nat" where
  "main_rank (Spawn k) = 2"
| "main_rank (Accept k) = 1"
| "main_rank Main_block = 0"

definition accepted :: "stage \<Rightarrow> bool" where
  "accepted st \<longleftrightarrow> st \<notin> {Unborn, Connecting, Waiting}"

definition pp_main_ok :: "nat \<Rightarrow> main_at \<Rightarrow> (nat \<Rightarrow> stage) \<Rightarrow> bool" where
  "pp_main_ok n m st \<longleftrightarrow>
     (case m of
        Spawn k \<Rightarrow> k \<le> n \<and> (\<forall>i. st i = Unborn \<longleftrightarrow> k \<le> i) \<and> (\<forall>i. \<not> accepted (st i))
      | Accept k \<Rightarrow> (\<forall>i. st i = Unborn \<longleftrightarrow> n \<le> i) \<and> k \<le> n \<and> k = card {i. i < n \<and> accepted (st i)}
      | Main_block \<Rightarrow> (\<forall>i. st i = Unborn \<longleftrightarrow> n \<le> i) \<and> (\<forall>i<n. accepted (st i)))"

definition pp_ok :: "('q \<Rightarrow> u8 list) \<Rightarrow> nat \<Rightarrow> nat \<Rightarrow> (nat \<Rightarrow> stage) \<Rightarrow> 'q pp \<Rightarrow> bool" where
  "pp_ok content n r st s \<longleftrightarrow>
     (\<forall>i. (pp_pong s i, pp_ping s i, length (content (pp_to s i)), length (content (pp_from s i)), i \<in> set (pp_backlog s)) = conn_at r (st i) \<and>
        round_ok r (st i)) \<and>
     distinct (pp_backlog s) \<and> pp_main_ok n (pp_main s) st \<and> unat (COUNT s) = card {i. i < n \<and> st i = Finished} \<and>
     (pp_exit s \<longleftrightarrow> card {i. i < n \<and> st i = Finished} = n)"

definition pp_measure :: "nat \<Rightarrow> nat \<Rightarrow> (nat \<Rightarrow> stage) \<Rightarrow> 'q pp \<Rightarrow> nat" where
  "pp_measure n r st s = (\<Sum>i<n. stage_rank r (st i)) + main_rank (pp_main s)"

lemma pp_okD:
  assumes "pp_ok content n r st s"
  shows "(pp_pong s i, pp_ping s i, length (content (pp_to s i)), length (content (pp_from s i)), i \<in> set (pp_backlog s)) = conn_at r (st i)"
    "round_ok r (st i)" "distinct (pp_backlog s)" "pp_main_ok n (pp_main s) st" "unat (COUNT s) = card {i. i < n \<and> st i = Finished}"
    "pp_exit s \<longleftrightarrow> card {i. i < n \<and> st i = Finished} = n"
  using assms unfolding pp_ok_def by blast+

lemma born_less: "pp_main_ok n m st \<Longrightarrow> st i \<noteq> Unborn \<Longrightarrow> i < n"
  unfolding pp_main_ok_def by (cases m) (auto simp: not_le[symmetric])

text \<open>One connection moves on.\<close>

lemma pp_ok_upd:
  assumes ok: "pp_ok content n r st s"
    and i: "(pp_pong t i, pp_ping t i, length (content (pp_to t i)), length (content (pp_from t i)), i \<in> set (pp_backlog t)) = conn_at r st'"
      "round_ok r st'" "i < n" "st i \<noteq> Finished" "st' \<noteq> Finished"
    and other: "\<And>j. j \<noteq> i \<Longrightarrow> pp_pong t j = pp_pong s j \<and> pp_ping t j = pp_ping s j \<and> pp_to t j = pp_to s j \<and> pp_from t j = pp_from s j \<and>
      (j \<in> set (pp_backlog t) \<longleftrightarrow> j \<in> set (pp_backlog s))"
    and t: "distinct (pp_backlog t)" "pp_main_ok n (pp_main t) (st(i := st'))" "COUNT t = COUNT s" "pp_exit t = pp_exit s"
    and rank: "stage_rank r st' < stage_rank r (st i)" "main_rank (pp_main t) = main_rank (pp_main s)"
  shows "pp_ok content n r (st(i := st')) t \<and> pp_measure n r (st(i := st')) t < pp_measure n r st s"
proof
  note d = pp_okD[OF ok]
  have fin: "(st(i := st')) j = Finished \<longleftrightarrow> st j = Finished" for j using i by auto
  show "pp_ok content n r (st(i := st')) t"
    unfolding pp_ok_def fin using d other i(1,2) t by auto
  from sum_upd[OF i(3), of "stage_rank r" st st'] show "pp_measure n r (st(i := st')) t < pp_measure n r st s"
    using rank by (simp add: pp_measure_def)
qed

lemma pp_main_ok_upd:
  assumes "pp_main_ok n m st" "accepted st' = accepted (st i)" "st i \<noteq> Unborn" "st' \<noteq> Unborn"
  shows "pp_main_ok n m (st(i := st'))"
proof -
  have acc: "accepted ((st(i := st')) j) = accepted (st j)" and un: "(st(i := st')) j = Unborn \<longleftrightarrow> st j = Unborn" for j
    using assms by auto
  show ?thesis using assms(1) unfolding pp_main_ok_def acc un .
qed

text \<open>A step of the tasks of connection \<open>i\<close>.\<close>

lemma pp_ok_move:
  assumes ok: "pp_ok content n r st s"
    and i: "(pp_pong t i, pp_ping t i, length (content (pp_to t i)), length (content (pp_from t i)), i \<in> set (pp_backlog t)) = conn_at r st'"
      "round_ok r st'" "accepted st' = accepted (st i)" "st i \<noteq> Unborn" "st' \<noteq> Unborn" "st i \<noteq> Finished" "st' \<noteq> Finished"
    and other: "\<And>j. j \<noteq> i \<Longrightarrow> pp_pong t j = pp_pong s j \<and> pp_ping t j = pp_ping s j \<and> pp_to t j = pp_to s j \<and> pp_from t j = pp_from s j \<and>
      (j \<in> set (pp_backlog t) \<longleftrightarrow> j \<in> set (pp_backlog s))"
    and t: "distinct (pp_backlog t)" "pp_main t = pp_main s" "COUNT t = COUNT s" "pp_exit t = pp_exit s"
    and rank: "stage_rank r st' < stage_rank r (st i)"
  shows "pp_ok content n r (st(i := st')) t \<and> pp_measure n r (st(i := st')) t < pp_measure n r st s"
proof -
  note d = pp_okD[OF ok]
  have main: "pp_main_ok n (pp_main t) (st(i := st'))"
    unfolding t(2) by (rule pp_main_ok_upd[OF d(4) i(3-5)])
  show ?thesis
    by (rule pp_ok_upd[OF ok i(1,2) born_less[OF d(4) i(4)] i(6,7) other t(1) main t(3,4) rank arg_cong[OF t(2)]])
qed


lemma spawn_keeps:
  assumes ok: "pp_ok content n r st s" and m: "pp_main s = Spawn k" and k: "k < n"
  shows "\<exists>st'. pp_ok content n r st' (s\<lparr>pp_main := Spawn (Suc k), pp_pong := (pp_pong s)(k := Pong_connect)\<rparr>) \<and>
    pp_measure n r st' (s\<lparr>pp_main := Spawn (Suc k), pp_pong := (pp_pong s)(k := Pong_connect)\<rparr>) < pp_measure n r st s"
proof -
  note d = pp_okD[OF ok]
  have st: "st k = Unborn" using d(4) by (simp add: pp_main_ok_def m)
  have un: "(st(k := Connecting)) i = Unborn \<longleftrightarrow> Suc k \<le> i" for i
    using d(4) by (auto simp: pp_main_ok_def m)
  have acc: "\<not> accepted ((st(k := Connecting)) i)" for i
    using d(4) by (simp add: pp_main_ok_def m accepted_def) blast
  have main: "pp_main_ok n (Spawn (Suc k)) (st(k := Connecting))"
    using un acc k unfolding pp_main_ok_def by (simp add: Suc_le_eq)
  show ?thesis
    by (rule exI[of _ "st(k := Connecting)"], rule pp_ok_upd[OF ok]) (use d(1)[of k] d(3) k main m st in auto)
qed

lemma accept_keeps:
  assumes ok: "pp_ok content n r st s" and m: "pp_main s = Accept k" and k: "k < n" and b: "pp_backlog s = c # cs"
  shows "\<exists>st'. pp_ok content n r st' (s\<lparr>pp_main := Accept (Suc k), pp_backlog := cs,
                   pp_ping := (pp_ping s)(c := if 0 < r then Ping_write 0 else Ping_count)\<rparr>) \<and>
    pp_measure n r st' (s\<lparr>pp_main := Accept (Suc k), pp_backlog := cs,
                   pp_ping := (pp_ping s)(c := if 0 < r then Ping_write 0 else Ping_count)\<rparr>) < pp_measure n r st s"
proof -
  note d = pp_okD[OF ok]
  have st: "st c = Waiting" using d(1)[of c] b by (cases "st c") auto
  then have c: "c < n" using born_less[OF d(4)] by simp
  have acc: "{i. i < n \<and> accepted ((st(c := after_round r 0)) i)} = insert c {i. i < n \<and> accepted (st i)}"
    using c by (auto simp: after_round_def accepted_def)
  have "card {i. i < n \<and> accepted ((st(c := after_round r 0)) i)} = Suc k"
    unfolding acc using d(4) by (subst card_insert_disjoint) (auto simp: pp_main_ok_def m st accepted_def)
  then have main: "pp_main_ok n (Accept (Suc k)) (st(c := after_round r 0))"
    using d(4) k st c by (auto simp: pp_main_ok_def m after_round_def)
  show ?thesis
    by (rule exI[of _ "st(c := after_round r 0)"], rule pp_ok_upd[OF ok])
      (use d(1)[of c] d(3) b c main m st in \<open>auto simp: after_round_def next_pong_def\<close>)
qed

lemma main_moves:
  assumes ok: "pp_ok content n r st s" and m': "pp_main_ok n m st" "main_rank m < main_rank (pp_main s)"
  shows "\<exists>st'. pp_ok content n r st' (s\<lparr>pp_main := m\<rparr>) \<and> pp_measure n r st' (s\<lparr>pp_main := m\<rparr>) < pp_measure n r st s"
  using assms unfolding pp_ok_def pp_measure_def by (intro exI[of _ st]) simp

lemma main_keeps:
  assumes ok: "pp_ok content n r st s" and "main_do n r s = Some t"
  shows "\<exists>st'. pp_ok content n r st' t \<and> pp_measure n r st' t < pp_measure n r st s"
proof (cases "pp_main s")
  case (Spawn k)
  note d = pp_okD(4)[OF ok]
  show ?thesis
  proof (cases "k < n")
    case True
    then show ?thesis using spawn_keeps[OF ok Spawn True] assms(2) by (simp add: main_do_def Spawn)
  next
    case False
    then have "pp_main_ok n (Accept 0) st" using d by (auto simp: pp_main_ok_def Spawn)
    from main_moves[OF ok this] show ?thesis using assms(2) False by (simp add: main_do_def Spawn)
  qed
next
  case (Accept k)
  note d = pp_okD(4)[OF ok]
  show ?thesis
  proof (cases "k < n")
    case True
    then show ?thesis using accept_keeps[OF ok Accept True] assms(2) by (auto simp: main_do_def Accept split: list.splits)
  next
    case False
    then have "card {i. i < n \<and> accepted (st i)} = n" using d by (simp add: pp_main_ok_def Accept)
    then have "\<forall>i<n. accepted (st i)"
      using card_subset_eq[of "{..<n}" "{i. i < n \<and> accepted (st i)}"] by auto
    then have "pp_main_ok n Main_block st" using d by (simp add: pp_main_ok_def Accept)
    from main_moves[OF ok this] show ?thesis using assms(2) False by (simp add: main_do_def Accept)
  qed
qed (use assms(2) in \<open>simp add: main_do_def\<close>)

text \<open>The tasks of a connection.\<close>

context pipe
begin

lemma pong_keeps:
  assumes ok: "pp_ok content n r st s" and "pong_do P r i s = Some t"
  shows "\<exists>st'. pp_ok content n r st' t \<and> pp_measure n r st' t < pp_measure n r st s"
proof -
  note d = pp_okD[OF ok]
  have "\<exists>st'. pp_ok content n r (st(i := st')) t \<and> pp_measure n r (st(i := st')) t < pp_measure n r st s"
  proof (cases "pp_pong s i")
    case Pong_connect
    then have st: "st i = Connecting" using d(1)[of i] by (cases "st i") (auto simp: next_pong_def split: if_splits)
    show ?thesis
      by (rule exI[of _ Waiting], rule pp_ok_move[OF ok])
        (use assms(2) d(1)[of i] d(3) st in \<open>auto simp: pong_do_def Let_def next_pong_def accepted_def\<close>)
  next
    case (Pong_read k)
    then obtain q ok' where q: "try_read P (pp_to s i) = Some (ok', q)"
      and t: "t = s\<lparr>pp_to := (pp_to s)(i := q), pp_pong := (pp_pong s)(i := if ok' then Pong_write k else Pong_panic)\<rparr>"
      using assms(2) by (auto simp: pong_do_def Let_def)
    from try_read_Some[OF q] obtain b where q': "ok'" "content (pp_to s i) = b # content q" by blast
    then have st: "st i = Pinged k" using d(1)[of i] Pong_read by (cases "st i") auto
    show ?thesis
      by (rule exI[of _ "To_pong k"], rule pp_ok_move[OF ok])
        (use d(1)[of i] d(2)[of i] d(3) st q' t in \<open>auto simp: accepted_def\<close>)
  next
    case (Pong_write k)
    then obtain q ok' where q: "try_write P (pp_from s i) = Some (ok', q)"
      and t: "t = s\<lparr>pp_from := (pp_from s)(i := q),
        pp_pong := (pp_pong s)(i := if \<not> ok' then Pong_panic else if Suc k < r then Pong_read (Suc k) else Pong_block)\<rparr>"
      using assms(2) by (auto simp: pong_do_def Let_def)
    have st: "st i = To_pong k" using d(1)[of i] Pong_write by (cases "st i") (auto simp: next_pong_def split: if_splits)
    show ?thesis
      by (rule exI[of _ "Ponged k"], rule pp_ok_move[OF ok])
        (use d(1)[of i] d(2)[of i] d(3) st try_write_Some[OF q] t in \<open>auto simp: accepted_def next_pong_def\<close>)
  qed (use assms(2) in \<open>simp_all add: pong_do_def\<close>)
  then show ?thesis by blast
qed

lemma count_keeps:
  assumes ok: "pp_ok content n r st s" and n: "n < 2 ^ 32" "\<not> pp_exit s" and i: "pp_ping s i = Ping_count"
    and t: "t = s\<lparr>COUNT := COUNT s + 1, pp_exit := (COUNT s = of_nat n - 1), pp_ping := (pp_ping s)(i := Ping_end)\<rparr>"
  shows "pp_ok content n r (st(i := Finished)) t \<and> pp_measure n r (st(i := Finished)) t < pp_measure n r st s"
proof
  note d = pp_okD[OF ok]
  have st: "st i = Counting" using d(1)[of i] i by (cases "st i") auto
  then have i_n: "i < n" using born_less[OF d(4)] by simp
  have fin: "{j. j < n \<and> (st(i := Finished)) j = Finished} = insert i {j. j < n \<and> st j = Finished}" using i_n by auto
  have card: "card {j. j < n \<and> (st(i := Finished)) j = Finished} = Suc (unat (COUNT s))"
    unfolding fin d(5) by (subst card_insert_disjoint) (auto simp: st)
  have "card {j. j < n \<and> (st(i := Finished)) j = Finished} \<le> card {..<n}" by (rule card_mono) auto
  then have le: "Suc (unat (COUNT s)) \<le> n" unfolding card by simp
  have suc: "unat (COUNT s + 1) = Suc (unat (COUNT s))"
    using le n by (simp add: unat_word_ariths)
  have "COUNT s = of_nat n - 1 \<longleftrightarrow> Suc (unat (COUNT s)) = n"
  proof -
    have "COUNT s = of_nat n - 1 \<longleftrightarrow> COUNT s + 1 = of_nat n" by (metis add_diff_cancel diff_add_cancel)
    also have "\<dots> \<longleftrightarrow> unat (COUNT s + 1) = n"
      unfolding word_unat_eq_iff using n by (simp add: unat_of_nat)
    finally show ?thesis using suc by simp
  qed
  moreover have "pp_main_ok n (pp_main t) (st(i := Finished))"
    using d(4) st t by (auto intro: pp_main_ok_upd simp: accepted_def)
  moreover have "(pp_pong t j, pp_ping t j, length (content (pp_to t j)), length (content (pp_from t j)), j \<in> set (pp_backlog t)) =
      conn_at r ((st(i := Finished)) j) \<and> round_ok r ((st(i := Finished)) j)" for j
    using d(1,2)[of j] st t by auto
  ultimately show "pp_ok content n r (st(i := Finished)) t"
    unfolding pp_ok_def card using suc d(3) t by simp
  from sum_upd[OF i_n, of "stage_rank r" st Finished] show "pp_measure n r (st(i := Finished)) t < pp_measure n r st s"
    using st t by (simp add: pp_measure_def)
qed

lemma ping_keeps:
  assumes ok: "pp_ok content n r st s" and n: "n < 2 ^ 32" "\<not> pp_exit s" and "ping_do P n r i s = Some t"
  shows "\<exists>st'. pp_ok content n r st' t \<and> pp_measure n r st' t < pp_measure n r st s"
proof -
  note d = pp_okD[OF ok]
  have "\<exists>st'. pp_ok content n r (st(i := st')) t \<and> pp_measure n r (st(i := st')) t < pp_measure n r st s"
  proof (cases "pp_ping s i")
    case Ping_count
    then show ?thesis using count_keeps[OF ok n Ping_count] assms(4) by (auto simp: ping_do_def Let_def)
  next
    case (Ping_write k)
    then obtain q ok' where q: "try_write P (pp_to s i) = Some (ok', q)"
      and t: "t = s\<lparr>pp_to := (pp_to s)(i := q), pp_ping := (pp_ping s)(i := if ok' then Ping_read k else Ping_panic)\<rparr>"
      using assms(4) by (auto simp: ping_do_def Let_def)
    have st: "st i = To_ping k" using d(1)[of i] Ping_write by (cases "st i") auto
    show ?thesis
      by (rule exI[of _ "Pinged k"], rule pp_ok_move[OF ok])
        (use d(1)[of i] d(2)[of i] d(3) st try_write_Some[OF q] t in \<open>auto simp: accepted_def\<close>)
  next
    case (Ping_read k)
    then obtain q ok' where q: "try_read P (pp_from s i) = Some (ok', q)"
      and t: "t = s\<lparr>pp_from := (pp_from s)(i := q),
        pp_ping := (pp_ping s)(i := if \<not> ok' then Ping_panic else if Suc k < r then Ping_write (Suc k) else Ping_count)\<rparr>"
      using assms(4) by (auto simp: ping_do_def Let_def)
    from try_read_Some[OF q] obtain b where q': "ok'" "content (pp_from s i) = b # content q" by blast
    then have st: "st i = Ponged k" using d(1)[of i] Ping_read by (cases "st i") auto
    show ?thesis
      by (rule exI[of _ "after_round r (Suc k)"], rule pp_ok_move[OF ok])
        (use d(1)[of i] d(2)[of i] d(3) st q' t in \<open>auto simp: accepted_def next_pong_def after_round_def\<close>)
  qed (use assms(4) in \<open>simp_all add: ping_do_def\<close>)
  then show ?thesis by blast
qed

lemma pp_keeps:
  assumes "pp_ok content n r st s" "n < 2 ^ 32" "pp_step P n r s t"
  shows "\<exists>st'. pp_ok content n r st' t \<and> pp_measure n r st' t < pp_measure n r st s"
proof -
  obtain l where "pp_do P n r l s = Some t" using assms(3) by (auto simp: enabled_def)
  then show ?thesis
    by (cases l) (auto split: if_splits intro: main_keeps pong_keeps ping_keeps assms(1,2))
qed

lemma pp_ok_init: "0 < n \<Longrightarrow> pp_ok content n r (\<lambda>_. Unborn) (pp_init P)"
  by (simp add: pp_ok_def pp_init_def pp_main_ok_def new accepted_def)

text \<open>The length of a run is bounded by the measure of the start.\<close>

lemma pp_run:
  assumes n: "0 < n" "n < 2 ^ 32" and "(pp_step P n r ^^ k) (pp_init P) s"
  shows "\<exists>st. pp_ok content n r st s \<and> pp_measure n r st s + k \<le> n * (4 * r + 4) + 2"
  using assms(3)
proof (induction k arbitrary: s)
  case 0
  have "pp_measure n r (\<lambda>_. Unborn) (pp_init P) = n * (4 * r + 4) + 2" by (simp add: pp_measure_def pp_init_def)
  then show ?case using 0 pp_ok_init[OF n(1)] by (intro exI[of _ "\<lambda>_. Unborn"]) simp
next
  case (Suc k)
  then obtain u where u: "(pp_step P n r ^^ k) (pp_init P) u" "pp_step P n r u s" by auto
  from Suc.IH[OF u(1)] obtain st where st: "pp_ok content n r st u" "pp_measure n r st u + k \<le> n * (4 * r + 4) + 2" by blast
  from pp_keeps[OF st(1) n(2) u(2)] obtain st' where "pp_ok content n r st' s" "pp_measure n r st' s < pp_measure n r st u" by blast
  with st(2) show ?case by (intro exI[of _ st']) simp
qed

text \<open>Until the process exits some task can go on.\<close>

lemma conn_goes_on:
  assumes ok: "pp_ok content n r st s" and "st i \<notin> {Unborn, Waiting, Finished}"
  shows "pong_do P r i s \<noteq> None \<or> ping_do P n r i s \<noteq> None"
proof (cases "st i")
  case (To_ping k)
  then show ?thesis using pp_okD(1)[OF ok, of i] try_write_empty[of "pp_to s i"] by (auto simp: ping_do_def Let_def)
next
  case (Pinged k)
  then show ?thesis using pp_okD(1)[OF ok, of i] try_read_avail[of "pp_to s i"] by (auto simp: pong_do_def Let_def length_Suc_conv)
next
  case (To_pong k)
  then show ?thesis using pp_okD(1)[OF ok, of i] try_write_empty[of "pp_from s i"] by (auto simp: pong_do_def Let_def)
next
  case (Ponged k)
  then show ?thesis using pp_okD(1)[OF ok, of i] try_read_avail[of "pp_from s i"] by (auto simp: ping_do_def Let_def length_Suc_conv)
next
  case Connecting
  then show ?thesis using pp_okD(1)[OF ok, of i] by (simp add: pong_do_def)
next
  case Counting
  then show ?thesis using pp_okD(1)[OF ok, of i] by (simp add: ping_do_def)
qed (use assms(2) in auto)

lemma main_goes_on:
  assumes ok: "pp_ok content n r st s" and i: "i < n" "st i \<in> {Unborn, Waiting}"
  shows "main_do n r s \<noteq> None \<or> (\<exists>j<n. st j = Connecting)"
proof (cases "pp_main s")
  case (Accept k)
  note d = pp_okD[OF ok]
  show ?thesis
  proof (cases "\<exists>j<n. st j = Waiting")
    case True
    then obtain j where "st j = Waiting" by blast
    then have "j \<in> set (pp_backlog s)" using d(1)[of j] by simp
    then show ?thesis by (cases "pp_backlog s") (auto simp: main_do_def Accept)
  next
    case False
    then show ?thesis using d(4) i by (auto simp: pp_main_ok_def Accept)
  qed
qed (use pp_okD(4)[OF ok] i in \<open>auto simp: pp_main_ok_def main_do_def accepted_def\<close>)

lemma pp_not_stuck:
  assumes ok: "pp_ok content n r st s" and "\<not> pp_exit s"
  shows "\<exists>t. pp_step P n r s t"
proof -
  have "{i. i < n \<and> st i = Finished} \<noteq> {..<n}"
  proof
    assume "{i. i < n \<and> st i = Finished} = {..<n}"
    then have "card {i. i < n \<and> st i = Finished} = n" by (simp only: card_lessThan)
    then show False using pp_okD(6)[OF ok] assms(2) by blast
  qed
  then obtain i where i: "i < n" "st i \<noteq> Finished" by auto
  have "main_do n r s \<noteq> None \<or> (\<exists>j. pong_do P r j s \<noteq> None \<or> ping_do P n r j s \<noteq> None)"
  proof (cases "st i \<in> {Unborn, Waiting}")
    case True
    from main_goes_on[OF ok i(1) this] show ?thesis
    proof
      assume "\<exists>j<n. st j = Connecting"
      then obtain j where "st j = Connecting" by blast
      with conn_goes_on[OF ok, of j] show ?thesis by auto
    qed simp
  next
    case False
    then show ?thesis using conn_goes_on[OF ok, of i] i by blast
  qed
  then have "\<exists>l t. pp_do P n r l s = Some t"
  proof (elim disjE exE)
    assume "main_do n r s \<noteq> None"
    then show ?thesis using assms(2) by (intro exI[of _ Main_do]) auto
  next
    fix j assume "pong_do P r j s \<noteq> None"
    then show ?thesis using assms(2) by (intro exI[of _ "Pong_do j"]) auto
  next
    fix j assume "ping_do P n r j s \<noteq> None"
    then show ?thesis using assms(2) by (intro exI[of _ "Ping_do j"]) auto
  qed
  then show ?thesis by (auto simp: enabled_def)
qed

lemma pp_exit_done:
  assumes ok: "pp_ok content n r st s" and "pp_exit s" "i < n"
  shows "st i = Finished"
  using pp_okD(6)[OF ok] assms(2,3) card_subset_eq[of "{..<n}" "{i. i < n \<and> st i = Finished}"] by auto

lemma pp_no_panic:
  assumes ok: "pp_ok content n r st s"
  shows "pp_pong s i \<noteq> Pong_panic \<and> pp_ping s i \<noteq> Ping_panic \<and> length (content (pp_to s i)) + length (content (pp_from s i)) \<le> 1"
  using pp_okD(1)[OF ok, of i] by (cases "st i") (auto simp: next_pong_def)

end

section \<open>A pipe of one byte\<close>

definition byte_pipe :: "u8 option pipe_ops" where
  "byte_pipe = \<lparr>
     p_write = (\<lambda>buf q. if buf = [] then (Inr 0, q) else if q = None then (Inr 1, Some (hd buf)) else (Inl Would_block, q)),
     p_read = (\<lambda>n q. if n = 0 then (Inr [], q) else case q of None \<Rightarrow> (Inl Would_block, q) | Some b \<Rightarrow> (Inr [b], None)),
     p_new = None\<rparr>"

definition byte_content :: "u8 option \<Rightarrow> u8 list" where
  "byte_content q = (case q of None \<Rightarrow> [] | Some b \<Rightarrow> [b])"

interpretation byte_pipe: pipe byte_pipe byte_content
  by unfold_locales
    (auto simp: byte_pipe_def byte_content_def Suc_le_eq take_Suc split: if_splits option.splits)

lemma byte_pipe_tries:
  "p_new byte_pipe = None" "try_write byte_pipe None = Some (True, Some 0)" "try_read byte_pipe (Some b) = Some (True, None)"
  by (simp_all add: byte_pipe.try_write_eq byte_pipe.try_read_eq) (simp_all add: byte_pipe_def)

section \<open>Properties\<close>

text \<open>
  The benchmark ends, over the ideal pipes of the locale.  For fewer than \<open>2 ^ 32\<close> connections, no schedule takes more
  than \<open>n * (4 * r + 4) + 2\<close> steps, and where it cannot go on the last \<open>ping\<close> has called \<open>exit(0)\<close>.
\<close>

lemma ping_pong_ends:
  assumes "pipe P content" "0 < n" "n < 2 ^ 32" "(pp_step P n r ^^ k) (pp_init P) s"
  shows "k \<le> n * (4 * r + 4) + 2 \<and> ((\<nexists>t. pp_step P n r s t) \<longrightarrow> pp_exit s)"
  using pipe.pp_run[OF assms] pipe.pp_not_stuck[OF assms(1), of n r _ s] by auto

text \<open>
  A run of the benchmark exchanges what it should.  No \<open>unwrap\<close> of it panics, at most one byte of a connection
  is in flight, and when the process exits every \<open>ping\<close> has ended, every \<open>pong\<close> has done all its rounds, no
  byte is left in a pipe, and \<open>COUNT\<close> is the number of connections.
\<close>

lemma ping_pong_exact:
  assumes "pipe P content" "0 < n" "n < 2 ^ 32" "(pp_step P n r ^^ k) (pp_init P) s"
  shows "(\<forall>i. pp_pong s i \<noteq> Pong_panic \<and> pp_ping s i \<noteq> Ping_panic \<and>
      length (content (pp_to s i)) + length (content (pp_from s i)) \<le> 1) \<and>
    (pp_exit s \<longrightarrow> unat (COUNT s) = n \<and>
      (\<forall>i<n. pp_pong s i = Pong_block \<and> pp_ping s i = Ping_end \<and> content (pp_to s i) = [] \<and> content (pp_from s i) = []))"
proof -
  from pipe.pp_run[OF assms] obtain st where ok: "pp_ok content n r st s" by blast
  note d = pp_okD[OF ok]
  have "pp_pong s i = Pong_block \<and> pp_ping s i = Ping_end \<and> content (pp_to s i) = [] \<and> content (pp_from s i) = []"
    if "pp_exit s" "i < n" for i
    using d(1)[of i] pipe.pp_exit_done[OF assms(1) ok that] by simp
  then show ?thesis using pipe.pp_no_panic[OF assms(1) ok] d(5,6) by simp
qed

text \<open>One connection, two rounds, over the pipe of one byte: the longest schedule but for \<open>Block().await\<close> of the main task.\<close>

definition pp_schedule :: "pp_label list" where
  "pp_schedule = [Main_do, Pong_do 0, Main_do, Main_do, Ping_do 0, Pong_do 0, Pong_do 0, Ping_do 0,
     Ping_do 0, Pong_do 0, Pong_do 0, Ping_do 0, Main_do, Ping_do 0]"

lemma pp_schedule_runs:
  "\<exists>s. (pp_step byte_pipe 1 2 ^^ 14) (pp_init byte_pipe) s \<and> pp_exit s"
proof -
  have "\<exists>s. run (pp_do byte_pipe 1 2) pp_schedule (pp_init byte_pipe) = Some s \<and> pp_exit s"
    by (simp add: pp_schedule_def pp_init_def main_do_def pong_do_def ping_do_def byte_pipe_tries Let_def)
  then obtain s where "run (pp_do byte_pipe 1 2) pp_schedule (pp_init byte_pipe) = Some s" and exit: "pp_exit s" by blast
  moreover have "length pp_schedule = 14" by (simp add: pp_schedule_def)
  ultimately show ?thesis using run_relpow by metis
qed

lemma ping_pong_ends_example:
  "\<exists>s. (pp_step byte_pipe 1 2 ^^ 14) (pp_init byte_pipe) s \<and> 14 \<le> (1 :: nat) * (4 * 2 + 4) + 2 \<and> pp_exit s"
proof -
  obtain s where s: "(pp_step byte_pipe 1 2 ^^ 14) (pp_init byte_pipe) s" "pp_exit s" using pp_schedule_runs by blast
  from ping_pong_ends[OF byte_pipe.pipe_axioms _ _ s(1)] have "14 \<le> (1 :: nat) * (4 * 2 + 4) + 2" by simp
  with s show ?thesis by blast
qed

lemma ping_pong_exact_example:
  "\<exists>s. (pp_step byte_pipe 1 2 ^^ 14) (pp_init byte_pipe) s \<and> pp_ping s 0 = Ping_end \<and> pp_pong s 0 = Pong_block \<and> unat (COUNT s) = 1"
proof -
  obtain s where s: "(pp_step byte_pipe 1 2 ^^ 14) (pp_init byte_pipe) s" "pp_exit s" using pp_schedule_runs by blast
  from ping_pong_exact[OF byte_pipe.pipe_axioms _ _ s(1)] s(2)
  have "pp_ping s 0 = Ping_end \<and> pp_pong s 0 = Pong_block \<and> unat (COUNT s) = 1" by simp
  with s(1) show ?thesis by blast
qed

end
