(* ===== verification/Mio_Shutdown.thy ===== *)
theory Mio_Shutdown
  imports Event_Loop
begin

text \<open>
  The end of the event loops (\<open>yaay-mio/src/prelude.rs\<close>): \<open>mio_shutdown\<close> raises the flag and joins the threads
  one after the other.  \<open>run_with\<close> calls it after the workers are joined, so that no task touches a socket
  meanwhile: the steps are those of the loops and of the joining thread.
\<close>

section \<open>Definitions\<close>

datatype sd_at = Sd_join nat | Sd_end

record 's sd =
  sd_mio :: "'s mio"
  sd_at :: sd_at

text \<open>\<open>set_shutdown()\<close>\<close>

definition sd_start :: "'s mio \<Rightarrow> 's sd" where
  "sd_start m = \<lparr>sd_mio = m\<lparr>m_shutdown := True\<rparr>, sd_at = Sd_join 0\<rparr>"

definition mio_shutdown :: "usize \<Rightarrow> 's sd \<Rightarrow> 's sd option" where
  "mio_shutdown n s =
     (case sd_at s of
        Sd_join k \<Rightarrow>
          if k < unat n then if l_pc (locals (sd_mio s) k) = E_done then Some (s\<lparr>sd_at := Sd_join (Suc k)\<rparr>) else None
          else Some (s\<lparr>sd_at := Sd_end\<rparr>)
      | Sd_end \<Rightarrow> None)"

datatype sd_label = Joiner | Thread nat "io_event list"

fun sd_do :: "'s slab \<Rightarrow> os_poll \<Rightarrow> usize \<Rightarrow> sd_label \<Rightarrow> 's sd \<Rightarrow> 's sd option" where
  "sd_do S may n Joiner s = mio_shutdown n s"
| "sd_do S may n (Thread i evs) s = map_option (\<lambda>m. s\<lparr>sd_mio := m\<rparr>) (mio_act S may n (Loop i evs) (sd_mio s))"

abbreviation sd_step :: "'s slab \<Rightarrow> os_poll \<Rightarrow> usize \<Rightarrow> 's sd \<Rightarrow> 's sd \<Rightarrow> bool" where
  "sd_step S may n \<equiv> enabled (sd_do S may n)"

section \<open>Every loop comes to its end\<close>

text \<open>The steps a loop still takes once the flag is up.\<close>

definition loop_rank :: "'s LocalData \<Rightarrow> nat" where
  "loop_rank l = 2 * length (deferred_remove l) +
     (case l_pc l of
        E_poll \<Rightarrow> 6 | E_dispatch evs \<Rightarrow> 5 | E_flush \<Rightarrow> 4 | E_remove False k \<Rightarrow> 4 | E_pop False \<Rightarrow> 3
      | E_check \<Rightarrow> 2 | E_remove True k \<Rightarrow> 2 | E_pop True \<Rightarrow> 1 | E_done \<Rightarrow> 0)"

lemma loop_step_rank:
  assumes "loop_step S may i evs m = Some m'" "m_shutdown m" "m_fault m' = None"
  shows "locals m' = (locals m)(i := locals m' i) \<and> loop_rank (locals m' i) < loop_rank (locals m i) \<and> m_shutdown m' \<and>
    (l_pc (locals m' i) = E_done \<longrightarrow> deferred_remove (locals m' i) = [])"
proof (cases "l_pc (locals m i)")
  case (E_pop b)
  then show ?thesis using assms
    by (cases b; cases "deferred_remove (locals m i)" rule: rev_cases)
      (auto simp: loop_step_def Let_def at_local_def loop_rank_def)
next
  case (E_remove b k)
  then show ?thesis using assms
    by (cases b) (auto simp: loop_step_def Let_def at_local_def m_fail_def loop_rank_def split: option.splits)
qed (use assms in \<open>auto simp: loop_step_def Let_def at_local_def m_fail_def loop_rank_def split: sum.splits if_splits\<close>)

text \<open>A loop that has not ended can go on: also inside a poll without any events, because it has a timeout.\<close>

lemma loop_goes_on:
  assumes "poll_events may" "l_pc (locals m i) \<noteq> E_done"
  shows "\<exists>m'. loop_step S may i [] m = Some m'"
proof -
  have "may POLL_TIMEOUT r []" for r using poll_events.may_time_out[OF assms(1)] by (simp add: POLL_TIMEOUT_def)
  then show ?thesis using assms(2) by (cases "l_pc (locals m i)") (auto simp: loop_step_def Let_def)
qed

text \<open>Before the flag is up no loop is in its last phase.\<close>

definition running :: "elpc \<Rightarrow> bool" where
  "running pc \<longleftrightarrow> (case pc of E_pop b \<Rightarrow> \<not> b | E_remove b k \<Rightarrow> \<not> b | E_done \<Rightarrow> False | _ \<Rightarrow> True)"

lemma cell_step_loops: "cell_step S n c l m = Some m' \<Longrightarrow> l_pc (locals m' i) = l_pc (locals m i) \<and> m_shutdown m' = m_shutdown m"
  by (auto simp: cell_step_def Let_def pick_local_def mod_checked_def at_cell_def at_local_def m_fail_def attach_def del_def drop_cell_def
      split: cpc.splits clabel.splits if_splits prod.splits option.splits)

lemma loop_step_shutdown: "loop_step S may i evs m = Some m' \<Longrightarrow> m_shutdown m' = m_shutdown m"
  by (auto simp: loop_step_def Let_def at_local_def m_fail_def split: elpc.splits if_splits sum.splits option.splits)

lemma loop_step_running:
  "loop_step S may i evs m = Some m' \<Longrightarrow> \<not> m_shutdown m \<Longrightarrow> running (l_pc (locals m j)) \<Longrightarrow> running (l_pc (locals m' j))"
  by (auto simp: loop_step_def Let_def at_local_def m_fail_def running_def split: elpc.splits if_splits sum.splits option.splits)

lemma mio_running:
  assumes "mio_reach S may n m"
  shows "\<not> m_shutdown m \<longrightarrow> (\<forall>i<unat n. running (l_pc (locals m i)))"
  using assms
proof (induction rule: reach.induct)
  case (reach_init m)
  then show ?case by (simp add: mio_init_def running_def)
next
  case (reach_step m m')
  then obtain a where "mio_act S may n a m = Some m'" by (auto simp: enabled_def)
  then show ?case using reach_step.IH
  proof (cases a)
    case (Loop i evs)
    then have "loop_step S may i evs m = Some m'" using \<open>mio_act S may n a m = Some m'\<close> by (simp split: if_splits)
    then show ?thesis using reach_step.IH loop_step_shutdown loop_step_running by metis
  next
    case (Socket c l)
    then have "cell_step S n c l m = Some m'" using \<open>mio_act S may n a m = Some m'\<close> by (simp split: if_splits)
    then show ?thesis using reach_step.IH cell_step_loops by metis
  qed auto
qed

text \<open>
  Nothing lowers the flag again: loops that are started after an earlier \<open>mio_shutdown\<close> in the same process never
  poll, and no event reaches the sockets registered with them.
\<close>

definition ending :: "elpc \<Rightarrow> bool" where
  "ending pc \<longleftrightarrow> pc = E_check \<or> (case pc of E_pop b \<Rightarrow> b | E_remove b k \<Rightarrow> b | E_done \<Rightarrow> True | _ \<Rightarrow> False)"

lemma loop_step_ending:
  "loop_step S may i evs m = Some m' \<Longrightarrow> m_shutdown m \<Longrightarrow> ending (l_pc (locals m j)) \<Longrightarrow> ending (l_pc (locals m' j))"
  by (auto simp: loop_step_def Let_def at_local_def m_fail_def ending_def split: elpc.splits if_splits sum.splits option.splits)

lemma restart_never_polls:
  assumes "reach (\<lambda>m. m_shutdown m \<and> mio_init S n (m\<lparr>m_shutdown := False\<rparr>)) (enabled (mio_act S may n)) m"
  shows "m_shutdown m \<and> (\<forall>i<unat n. ending (l_pc (locals m i)))"
  using assms
proof (induction rule: reach.induct)
  case (reach_init m)
  then show ?case by (simp add: mio_init_def ending_def)
next
  case (reach_step m m')
  then obtain a where a: "mio_act S may n a m = Some m'" by (auto simp: enabled_def)
  show ?case
  proof (cases a)
    case (Loop i evs)
    then have "loop_step S may i evs m = Some m'" using a by (simp split: if_splits)
    then show ?thesis using reach_step.IH loop_step_shutdown loop_step_ending by metis
  next
    case (Socket c l)
    then have "cell_step S n c l m = Some m'" using a by (simp split: if_splits)
    then show ?thesis using reach_step.IH cell_step_loops by metis
  qed (use a reach_step.IH in auto)
qed

section \<open>The invariant\<close>

definition sd_ok :: "'s slab \<Rightarrow> usize \<Rightarrow> 's sd \<Rightarrow> bool" where
  "sd_ok S n s \<longleftrightarrow> mio_inv S n (sd_mio s) \<and> m_shutdown (sd_mio s) \<and>
     (\<forall>i<unat n. l_pc (locals (sd_mio s) i) = E_done \<longrightarrow> deferred_remove (locals (sd_mio s) i) = []) \<and>
     (case sd_at s of Sd_join k \<Rightarrow> k \<le> unat n \<and> (\<forall>i<k. l_pc (locals (sd_mio s) i) = E_done)
      | Sd_end \<Rightarrow> \<forall>i<unat n. l_pc (locals (sd_mio s) i) = E_done)"

definition sd_rank :: "usize \<Rightarrow> 's sd \<Rightarrow> nat" where
  "sd_rank n s = (\<Sum>i<unat n. loop_rank (locals (sd_mio s) i)) + (case sd_at s of Sd_join k \<Rightarrow> Suc (unat n - k) | Sd_end \<Rightarrow> 0)"

context slab_ops
begin

lemma sd_keeps:
  assumes n: "n \<noteq> 0" "poll_events may" and ok: "sd_ok S n s" and step: "sd_step S may n s t"
  shows "sd_ok S n t \<and> sd_rank n t < sd_rank n s"
proof -
  obtain l where do: "sd_do S may n l s = Some t" using step by (auto simp: enabled_def)
  show ?thesis
  proof (cases l)
    case Joiner
    then show ?thesis using do ok
      by (auto simp: mio_shutdown_def sd_ok_def sd_rank_def less_Suc_eq split: sd_at.splits if_splits)
  next
    case (Thread i evs)
    then obtain m where m: "mio_act S may n (Loop i evs) (sd_mio s) = Some m" and t: "t = s\<lparr>sd_mio := m\<rparr>" using do by auto
    then have i: "i < unat n" and loop: "loop_step S may i evs (sd_mio s) = Some m" by (auto split: if_splits)
    have inv: "mio_inv S n m" using mio_act_inv[OF _ n m] ok by (simp add: sd_ok_def)
    have sd: "m_shutdown (sd_mio s)" using ok by (simp add: sd_ok_def)
    note r = loop_step_rank[OF loop sd mio_invD(1)[OF inv]]
    have live: "l_pc (locals (sd_mio s) i) \<noteq> E_done" using loop by (auto simp: loop_step_def)
    define L where "L = locals m i"
    have loc: "locals m = (locals (sd_mio s))(i := L)" using r by (simp add: L_def)
    have "sd_ok S n t"
      using ok inv r live unfolding sd_ok_def t by (auto simp: loc L_def[symmetric] split: sd_at.splits)
    moreover have "sd_rank n t < sd_rank n s"
      using sum_upd[OF i, of loop_rank "locals (sd_mio s)" L] r by (simp add: sd_rank_def t loc L_def[symmetric])
    ultimately show ?thesis ..
  qed
qed

lemma sd_start_ok:
  assumes n: "n \<noteq> 0" "poll_events may" and m: "mio_reach S may n m" "\<not> m_shutdown m"
  shows "sd_ok S n (sd_start m)"
  using mio_reach_inv[OF n m(1)] mio_running[OF m(1)] m(2)
  by (auto simp: sd_ok_def sd_start_def shutdown_inv running_def)

lemma sd_run:
  assumes n: "n \<noteq> 0" "poll_events may" and m: "mio_reach S may n m" "\<not> m_shutdown m"
    and "(sd_step S may n ^^ k) (sd_start m) t"
  shows "sd_ok S n t \<and> sd_rank n t + k \<le> (\<Sum>i<unat n. loop_rank (locals m i)) + unat n + 1"
  using assms(5)
proof (induction k arbitrary: t)
  case 0
  then show ?case using sd_start_ok[OF n m] by (auto simp: sd_rank_def sd_start_def)
next
  case (Suc k)
  then obtain u where u: "(sd_step S may n ^^ k) (sd_start m) u" "sd_step S may n u t" by auto
  with Suc.IH[OF u(1)] sd_keeps[OF n _ u(2)] show ?case by fastforce
qed

end

lemma sd_not_stuck:
  assumes poll: "poll_events may" and ok: "sd_ok S n t" and "sd_at t \<noteq> Sd_end"
  shows "\<exists>u. sd_step S may n t u"
proof -
  obtain k where k: "sd_at t = Sd_join k" using assms(3) by (cases "sd_at t") auto
  show ?thesis
  proof (cases "k < unat n \<and> l_pc (locals (sd_mio t) k) \<noteq> E_done")
    case True
    then obtain m where "loop_step S may k [] (sd_mio t) = Some m" using loop_goes_on[OF poll, of "sd_mio t" k S] by auto
    then have "sd_do S may n (Thread k []) t = Some (t\<lparr>sd_mio := m\<rparr>)" using True ok mio_invD(1) by (auto simp: sd_ok_def)
    then show ?thesis unfolding enabled_def by blast
  next
    case False
    then have "\<exists>u. sd_do S may n Joiner t = Some u" using k by (auto simp: mio_shutdown_def)
    then show ?thesis unfolding enabled_def by blast
  qed
qed

section \<open>Properties\<close>

text \<open>
  C21: \<open>mio_shutdown\<close> returns.  Whatever the loops were doing when the flag was raised, be it that they were inside a
  poll to which no event ever comes, every schedule of the loops and the joining thread has at most so many steps as
  are left to the loops, plus one for each join and one; where it cannot go on \<open>mio_shutdown\<close> has returned, all
  loops have ended, and every key left to be removed is removed.  A loop loads the flag in a step of its own before it
  polls; one that is inside the poll comes out of it because the poll has a timeout.
\<close>

theorem mio_shutdown_returns:
  assumes "slab_ops S" "poll_events may" "n \<noteq> 0" "mio_reach S may n m" "\<not> m_shutdown m"
    and "(sd_step S may n ^^ k) (sd_start m) t"
  shows "k \<le> (\<Sum>i<unat n. loop_rank (locals m i)) + unat n + 1 \<and> ((\<nexists>u. sd_step S may n t u) \<longrightarrow> sd_at t = Sd_end) \<and>
    (sd_at t = Sd_end \<longrightarrow> m_fault (sd_mio t) = None \<and>
       (\<forall>i<unat n. l_pc (locals (sd_mio t) i) = E_done \<and> deferred_remove (locals (sd_mio t) i) = []))"
proof -
  have run: "sd_ok S n t" "sd_rank n t + k \<le> (\<Sum>i<unat n. loop_rank (locals m i)) + unat n + 1"
    using slab_ops.sd_run[OF assms(1,3,2,4,5,6)] by blast+
  have "(\<nexists>u. sd_step S may n t u) \<longrightarrow> sd_at t = Sd_end" using sd_not_stuck[OF assms(2) run(1)] by blast
  moreover have "m_fault (sd_mio t) = None" using run(1) mio_invD(1) by (auto simp: sd_ok_def)
  ultimately show ?thesis using run by (auto simp: sd_ok_def)
qed

text \<open>
  One loop that is inside a poll when the flag is raised: the poll times out, it handles no event, flushes, finds nothing
  to remove, sees the flag, and ends.
\<close>

lemma sd_schedule_runs:
  "\<exists>m t. mio_reach vec_slab any_poll 1 m \<and> \<not> m_shutdown m \<and> l_pc (locals m 0) = E_poll \<and>
     (sd_step vec_slab any_poll 1 ^^ 8) (sd_start m) t \<and> sd_at t = Sd_end"
proof -
  let ?f = "sd_do vec_slab any_poll 1" and ?ls = "replicate 6 (Thread 0 []) @ [Joiner, Joiner]"
  have "\<exists>m. run (mio_act vec_slab any_poll 1) (butlast one_schedule) one_loop = Some m \<and> \<not> m_shutdown m \<and>
      l_pc (locals m 0) = E_poll \<and> (\<exists>t. run ?f ?ls (sd_start m) = Some t \<and> sd_at t = Sd_end)"
    by (simp add: one_schedule_def mio_replay sd_start_def mio_shutdown_def notified_ok_def eval_nat_numeral)
  then obtain m t where m: "run (mio_act vec_slab any_poll 1) (butlast one_schedule) one_loop = Some m" "\<not> m_shutdown m"
      "l_pc (locals m 0) = E_poll"
    and t: "run ?f ?ls (sd_start m) = Some t" "sd_at t = Sd_end" by blast
  have "(sd_step vec_slab any_poll 1 ^^ length ?ls) (sd_start m) t" by (rule run_relpow[OF t(1)])
  moreover have "length ?ls = 8" by simp
  ultimately show ?thesis using m t(2) reach_run[of "mio_init vec_slab 1", OF one_init m(1)] by metis
qed

theorem mio_shutdown_returns_witness:
  "\<exists>m t. mio_reach vec_slab any_poll 1 m \<and> l_pc (locals m 0) = E_poll \<and> (sd_step vec_slab any_poll 1 ^^ 8) (sd_start m) t \<and>
     l_pc (locals (sd_mio t) 0) = E_done \<and> 8 \<le> loop_rank (locals m 0) + 2"
proof -
  obtain m t where s: "mio_reach vec_slab any_poll 1 m" "\<not> m_shutdown m" "l_pc (locals m 0) = E_poll"
    "(sd_step vec_slab any_poll 1 ^^ 8) (sd_start m) t" "sd_at t = Sd_end"
    using sd_schedule_runs by blast
  from mio_shutdown_returns[OF vec.slab_ops_axioms any.poll_events_axioms _ s(1,2,4)] s show ?thesis by (auto simp: lessThan_Suc)
qed

end
