(* ===== verification/Sockets.thy ===== *)
theory Sockets
  imports Event_Loop
begin

text \<open>
  The public interface of the sockets (\<open>yaay-mio/src/net/tcp_listener.rs\<close>, \<open>net/tcp_stream.rs\<close>) over the
  container and the event loops of theory \<open>Event_Loop\<close>.

  A socket has one handle (a listener) or two (a stream), which share it through an \<open>Arc\<close>.  From a handle a task
  borrows an acceptor, a reader or a writer, which owns the dispatcher; the last handle that is dropped drops the
  \<open>MIOCell\<close>.  What a client may call when is ownership, the only guards of this model: the borrowed object exists
  until it is dropped, and its handle is neither borrowed again nor dropped before (a client that leaks the object
  with \<open>mem::forget\<close> is outside of the model).  In particular \<open>attach\<close>, \<open>del\<close> and \<open>drop_cell\<close> are called with no
  regard to the container's own state.

  An error of \<open>bind\<close>, \<open>connect\<close> or \<open>accept\<close> is passed on and changes nothing; \<open>c\<close> names the new socket.
\<close>

section \<open>Definitions\<close>

datatype socket_kind = Listener | Stream

datatype socket_handle =
    Gone
  | Owned
  | Lent addr   \<comment> \<open>with the dispatcher of the reader, writer or acceptor\<close>

datatype drop_at = Not_dropped | At_deregister | At_defer | Dropped

record shared_cell =
  h_kind :: socket_kind
  h_arc :: nat
  h_read :: socket_handle
  h_write :: socket_handle
  h_drop :: drop_at

record 's net =
  net_mio :: "'s mio"
  hnds :: "nat \<Rightarrow> shared_cell"

definition half :: "bool \<Rightarrow> shared_cell \<Rightarrow> socket_handle" where
  "half rd h = (if rd then h_read h else h_write h)"

definition set_half :: "bool \<Rightarrow> socket_handle \<Rightarrow> shared_cell \<Rightarrow> shared_cell" where
  "set_half rd x h = (if rd then h\<lparr>h_read := x\<rparr> else h\<lparr>h_write := x\<rparr>)"

definition no_handle :: "socket_kind \<Rightarrow> shared_cell" where
  "no_handle k = \<lparr>h_kind = k, h_arc = 0, h_read = Gone, h_write = Gone, h_drop = Not_dropped\<rparr>"

text \<open>\<open>MIOHandle::new_r\<close> makes one handle of the \<open>Arc\<close>; \<open>new_rw\<close> clones it twice and drops the original.\<close>

definition new_handles :: "shared_cell \<Rightarrow> shared_cell" where
  "new_handles h =
     (case h_kind h of
        Listener \<Rightarrow> h\<lparr>h_arc := 1, h_read := Owned\<rparr>
      | Stream \<Rightarrow> h\<lparr>h_arc := 1 + 1 + 1 - 1, h_read := Owned, h_write := Owned\<rparr>)"

datatype net_label =
    Bind nat
  | Connect nat
  | Accept_on nat nat        \<comment> \<open>\<open>accept\<close> of the acceptor of a listener\<close>
  | Build nat clabel         \<comment> \<open>the rest of \<open>MIOHandle::new_r\<close> or \<open>new_rw\<close>\<close>
  | Acceptor nat addr        \<comment> \<open>with the address of the new dispatcher\<close>
  | Reader nat addr
  | Writer nat addr
  | Close_half nat bool      \<comment> \<open>the drop of what they returned\<close>
  | Drop_half nat bool       \<comment> \<open>the drop of a handle\<close>
  | Drop_cell nat            \<comment> \<open>\<open>MIOCell::drop\<close>, container.rs 43, then 45-52\<close>
  | Others mlabel            \<comment> \<open>the event loops and the shutdown\<close>

definition set_hnd :: "nat \<Rightarrow> shared_cell \<Rightarrow> 's net \<Rightarrow> 's net" where
  "set_hnd c h s = s\<lparr>hnds := (hnds s)(c := h)\<rparr>"

definition drop_half :: "bool \<Rightarrow> shared_cell \<Rightarrow> shared_cell" where
  "drop_half rd h =
     (let h = set_half rd Gone (h\<lparr>h_arc := h_arc h - 1\<rparr>)
      in if h_arc h = 0 then h\<lparr>h_drop := At_deregister\<rparr> else h)"

definition deregister :: "nat \<Rightarrow> 's mio \<Rightarrow> 's mio" where
  "deregister c m = at_cell c (c_pc_update (\<lambda>_. C_defer)) (at_local (c_local (cells m c)) (registered_update (\<lambda>r. r(c := None))) m)"

definition close_half :: "'s slab \<Rightarrow> bool \<Rightarrow> addr \<Rightarrow> nat \<Rightarrow> 's mio \<Rightarrow> 's mio" where
  "close_half S rd d c m =
     at_cell c (if rd then c_reader_update (\<lambda>_. null) else c_writer_update (\<lambda>_. null)) (del S d c m)"

text \<open>\<open>TcpListenerHandle::bind\<close>, \<open>TcpStream::connect\<close> and \<open>accept\<close> start a new socket; \<open>m\<close> is a step of the container.\<close>

definition TcpListenerHandle_bind :: "'s mio option \<Rightarrow> nat \<Rightarrow> 's net \<Rightarrow> 's net option" where
  "TcpListenerHandle_bind m c s = map_option (\<lambda>m. set_hnd c (no_handle Listener) (s\<lparr>net_mio := m\<rparr>)) m"

definition TcpStream_connect :: "'s mio option \<Rightarrow> nat \<Rightarrow> 's net \<Rightarrow> 's net option" where
  "TcpStream_connect m c s = map_option (\<lambda>m. set_hnd c (no_handle Stream) (s\<lparr>net_mio := m\<rparr>)) m"

definition TcpListenerAcceptor_accept :: "'s mio option \<Rightarrow> nat \<Rightarrow> nat \<Rightarrow> 's net \<Rightarrow> 's net option" where
  "TcpListenerAcceptor_accept m l c s =
     (if h_kind (hnds s l) = Listener \<and> h_read (hnds s l) \<notin> {Gone, Owned} then
        map_option (\<lambda>m. set_hnd c (no_handle Stream) (s\<lparr>net_mio := m\<rparr>)) m
      else None)"

definition build_handles :: "'s mio option \<Rightarrow> clabel \<Rightarrow> nat \<Rightarrow> 's net \<Rightarrow> 's net option" where
  "build_handles m l c s =
     (if l \<in> {Insert, Register True, Register False} then
        map_option (\<lambda>m. set_hnd c (if l = Register True then new_handles (hnds s c) else hnds s c) (s\<lparr>net_mio := m\<rparr>)) m
      else None)"

text \<open>\<open>MIO::new_r\<close> and \<open>MIO::new_w\<close> with a fresh dispatcher; the drop of a \<open>MIO\<close>.\<close>

definition MIO_new :: "'s slab \<Rightarrow> bool \<Rightarrow> addr \<Rightarrow> nat \<Rightarrow> 's net \<Rightarrow> 's net option" where
  "MIO_new S rd d c s =
     (if half rd (hnds s c) = Owned \<and> d \<noteq> null \<and> d \<notin> m_heap (net_mio s) then
        Some (set_hnd c (set_half rd (Lent d) (hnds s c)) (s\<lparr>net_mio := attach S rd d c (net_mio s)\<rparr>))
      else None)"

definition TcpListenerHandle_acceptor :: "'s slab \<Rightarrow> addr \<Rightarrow> nat \<Rightarrow> 's net \<Rightarrow> 's net option" where
  "TcpListenerHandle_acceptor S d c s = (if h_kind (hnds s c) = Listener then MIO_new S True d c s else None)"

definition TcpStreamReadHandle_reader :: "'s slab \<Rightarrow> addr \<Rightarrow> nat \<Rightarrow> 's net \<Rightarrow> 's net option" where
  "TcpStreamReadHandle_reader S d c s = (if h_kind (hnds s c) = Stream then MIO_new S True d c s else None)"

definition TcpStreamWriteHandle_writer :: "'s slab \<Rightarrow> addr \<Rightarrow> nat \<Rightarrow> 's net \<Rightarrow> 's net option" where
  "TcpStreamWriteHandle_writer S d c s = (if h_kind (hnds s c) = Stream then MIO_new S False d c s else None)"

definition MIO_drop :: "'s slab \<Rightarrow> bool \<Rightarrow> nat \<Rightarrow> 's net \<Rightarrow> 's net option" where
  "MIO_drop S rd c s =
     (case half rd (hnds s c) of
        Lent d \<Rightarrow> Some (set_hnd c (set_half rd Owned (hnds s c)) (s\<lparr>net_mio := close_half S rd d c (net_mio s)\<rparr>))
      | _ \<Rightarrow> None)"

text \<open>The drop of a handle, and the two locked sections of \<open>MIOCell::drop\<close>.\<close>

definition MIOHandle_drop :: "bool \<Rightarrow> nat \<Rightarrow> 's net \<Rightarrow> 's net option" where
  "MIOHandle_drop rd c s = (if half rd (hnds s c) = Owned then Some (set_hnd c (drop_half rd (hnds s c)) s) else None)"

definition MIOCell_drop :: "'s slab \<Rightarrow> nat \<Rightarrow> 's net \<Rightarrow> 's net option" where
  "MIOCell_drop S c s =
     (case h_drop (hnds s c) of
        At_deregister \<Rightarrow> Some (set_hnd c (hnds s c\<lparr>h_drop := At_defer\<rparr>) (s\<lparr>net_mio := deregister c (net_mio s)\<rparr>))
      | At_defer \<Rightarrow> Some (set_hnd c (hnds s c\<lparr>h_drop := Dropped\<rparr>) (s\<lparr>net_mio := drop_cell S c (net_mio s)\<rparr>))
      | _ \<Rightarrow> None)"

fun net_do :: "'s slab \<Rightarrow> os_poll \<Rightarrow> usize \<Rightarrow> net_label \<Rightarrow> 's net \<Rightarrow> 's net option" where
  "net_do S may n (Bind c) s = TcpListenerHandle_bind (mio_act S may n (Socket c New) (net_mio s)) c s"
| "net_do S may n (Connect c) s = TcpStream_connect (mio_act S may n (Socket c New) (net_mio s)) c s"
| "net_do S may n (Accept_on l c) s = TcpListenerAcceptor_accept (mio_act S may n (Socket c New) (net_mio s)) l c s"
| "net_do S may n (Build c l) s = build_handles (mio_act S may n (Socket c l) (net_mio s)) l c s"
| "net_do S may n (Acceptor c d) s = TcpListenerHandle_acceptor S d c s"
| "net_do S may n (Reader c d) s = TcpStreamReadHandle_reader S d c s"
| "net_do S may n (Writer c d) s = TcpStreamWriteHandle_writer S d c s"
| "net_do S may n (Close_half c rd) s = MIO_drop S rd c s"
| "net_do S may n (Drop_half c rd) s = MIOHandle_drop rd c s"
| "net_do S may n (Drop_cell c) s = MIOCell_drop S c s"
| "net_do S may n (Others a) s =
     (case a of Socket c l \<Rightarrow> None | _ \<Rightarrow> map_option (\<lambda>m. s\<lparr>net_mio := m\<rparr>) (mio_act S may n a (net_mio s)))"

text \<open>A fault ends the program.\<close>

definition net_act :: "'s slab \<Rightarrow> os_poll \<Rightarrow> usize \<Rightarrow> net_label \<Rightarrow> 's net \<Rightarrow> 's net option" where
  "net_act S may n l s = (if m_fault (net_mio s) = None then net_do S may n l s else None)"

definition net_init :: "'s slab \<Rightarrow> usize \<Rightarrow> 's net \<Rightarrow> bool" where
  "net_init S n s \<longleftrightarrow> mio_init S n (net_mio s) \<and> (\<forall>c. \<exists>k. hnds s c = no_handle k)"

abbreviation net_reach :: "'s slab \<Rightarrow> os_poll \<Rightarrow> usize \<Rightarrow> 's net \<Rightarrow> bool" where
  "net_reach S may n \<equiv> reach (net_init S n) (enabled (net_act S may n))"

section \<open>Ownership\<close>

text \<open>The dispatcher a handle has lent, and the number of handles.\<close>

definition lent :: "socket_handle \<Rightarrow> addr" where
  "lent x = (case x of Lent d \<Rightarrow> d | _ \<Rightarrow> null)"

definition handles :: "shared_cell \<Rightarrow> nat" where
  "handles h = (if h_read h = Gone then 0 else 1) + (if h_write h = Gone then 0 else 1)"

text \<open>What the handles of a socket say of its cell: a cell is live as long as it has a handle.\<close>

definition cell_at :: "shared_cell \<Rightarrow> cpc set" where
  "cell_at h =
     (case h_drop h of
        Not_dropped \<Rightarrow> if handles h = 0 then {C_none, C_insert, C_register, C_failed} else {C_live}
      | At_deregister \<Rightarrow> {C_live}
      | At_defer \<Rightarrow> {C_defer}
      | Dropped \<Rightarrow> {C_gone})"

definition hnd_ok :: "shared_cell \<Rightarrow> cell \<Rightarrow> nat option \<Rightarrow> bool" where
  "hnd_ok h cl reg \<longleftrightarrow> h_arc h = handles h \<and> c_pc cl \<in> cell_at h \<and>
     (h_drop h \<noteq> Not_dropped \<longrightarrow> handles h = 0) \<and> (\<forall>d. Lent d \<in> {h_read h, h_write h} \<longrightarrow> d \<noteq> null) \<and>
     (c_pc cl = C_live \<longrightarrow> c_reader cl = lent (h_read h) \<and> c_writer cl = lent (h_write h) \<and> reg = Some (c_key cl))"

abbreviation reg_of :: "'s mio \<Rightarrow> nat \<Rightarrow> nat option" where
  "reg_of m c \<equiv> registered (locals m (c_local (cells m c))) c"

definition net_inv :: "'s slab \<Rightarrow> usize \<Rightarrow> 's net \<Rightarrow> bool" where
  "net_inv S n s \<longleftrightarrow> mio_inv S n (net_mio s) \<and> (\<forall>c. hnd_ok (hnds s c) (cells (net_mio s) c) (reg_of (net_mio s) c))"

text \<open>What a step of the container leaves alone.\<close>

lemma fault_cells [simp]: "cells (m_fail e m) = cells m" "locals (m_fail e m) = locals m" "m_fault (m_fail e m) = Some e"
  by (simp_all add: m_fail_def)

lemma m_heap_cells [simp]: "cells (m\<lparr>m_heap := H\<rparr>) = cells m" "locals (m\<lparr>m_heap := H\<rparr>) = locals m" "m_fault (m\<lparr>m_heap := H\<rparr>) = m_fault m"
  by simp_all

lemma attach_frame:
  "registered (locals (attach S rd a c m) i) = registered (locals m i)"
  "d \<noteq> c \<Longrightarrow> cells (attach S rd a c m) d = cells m d"
  "m_fault (attach S rd a c m) = None \<Longrightarrow>
     cells (attach S rd a c m) c = (if rd then cells m c\<lparr>c_reader := a\<rparr> else cells m c\<lparr>c_writer := a\<rparr>)"
  by (auto simp: attach_def Let_def split: option.splits)

lemma del_frame:
  "registered (locals (del S a c m) i) = registered (locals m i)" "cells (del S a c m) = cells m"
  by (auto simp: del_def Let_def split: option.splits)

lemma drop_cell_frame:
  "registered (locals (drop_cell S c m) i) = registered (locals m i)"
  "d \<noteq> c \<Longrightarrow> cells (drop_cell S c m) d = cells m d"
  "m_fault (drop_cell S c m) = None \<Longrightarrow> cells (drop_cell S c m) c = cells m c\<lparr>c_pc := C_gone\<rparr>"
  by (auto simp: drop_cell_def Let_def split: option.splits)

lemma loop_frame:
  assumes "loop_step S may i evs m = Some m'"
  shows "cells m' = cells m" "registered (locals m' j) = registered (locals m j)"
  using assms by (auto simp: loop_step_def Let_def split: elpc.splits if_splits sum.splits option.splits)

lemma pick_frame: "pick_local n k m = Inr (i, m') \<Longrightarrow> cells m' = cells m \<and> locals m' = locals m \<and> m_fault m' = m_fault m"
  by (auto simp: pick_local_def mod_checked_def split: if_splits)

lemma cell_stepD:
  assumes "cell_step S n c l m = Some m'" "m_fault m' = None"
  shows "l = New \<Longrightarrow> c_pc (cells m' c) = C_insert"
    "l = Insert \<Longrightarrow> c_pc (cells m c) = C_insert \<and> c_pc (cells m' c) = C_register"
    "l = Register False \<Longrightarrow> c_pc (cells m c) = C_register \<and> c_pc (cells m' c) = C_failed"
    "l = Register True \<Longrightarrow> c_pc (cells m c) = C_register \<and> cells m' c = cells m c\<lparr>c_pc := C_live\<rparr> \<and> reg_of m' c = Some (c_key (cells m c))"
    "l \<in> {New, Insert, Register True, Register False} \<Longrightarrow> d \<noteq> c \<Longrightarrow> cells m' d = cells m d \<and> reg_of m' d = reg_of m d"
  using assms
  by (auto simp: cell_step_def Let_def split: cpc.splits if_splits sum.splits prod.splits dest!: pick_frame)

lemma net_inv_upd:
  assumes "net_inv S n s" "mio_inv S n (net_mio t)" "hnds t = (hnds s)(c := h)"
    and "\<And>d. d \<noteq> c \<Longrightarrow> cells (net_mio t) d = cells (net_mio s) d \<and> reg_of (net_mio t) d = reg_of (net_mio s) d"
    and "hnd_ok h (cells (net_mio t) c) (reg_of (net_mio t) c)"
  shows "net_inv S n t"
  unfolding net_inv_def
proof (intro conjI allI)
  fix d show "hnd_ok (hnds t d) (cells (net_mio t) d) (reg_of (net_mio t) d)"
  proof (cases "d = c")
    case False
    then have e: "cells (net_mio t) d = cells (net_mio s) d" "reg_of (net_mio t) d = reg_of (net_mio s) d" using assms(4) by blast+
    show ?thesis unfolding e(2) unfolding e(1) using assms(1,3) False by (simp add: net_inv_def)
  qed (use assms(3,5) in simp)
qed (rule assms(2))

lemma net_invD: "net_inv S n s \<Longrightarrow> mio_inv S n (net_mio s)" "net_inv S n s \<Longrightarrow> hnd_ok (hnds s c) (cells (net_mio s) c) (reg_of (net_mio s) c)"
  by (auto simp: net_inv_def)

text \<open>A handle that is not gone belongs to a live cell.\<close>

lemma half_live:
  assumes "hnd_ok h cl reg" "half rd h \<noteq> Gone"
  shows "c_pc cl = C_live" "h_drop h = Not_dropped" "handles h \<noteq> 0" "0 < h_arc h"
    "(if rd then c_reader cl else c_writer cl) = lent (half rd h)" "half rd h = Lent d \<Longrightarrow> d \<noteq> null"
  using assms by (auto simp: hnd_ok_def half_def handles_def cell_at_def split: drop_at.splits if_splits)

lemmas hnd_simps = hnd_ok_def half_def set_half_def handles_def cell_at_def lent_def

lemma hnd_ok_lend:
  "hnd_ok h cl reg \<Longrightarrow> half rd h = Owned \<Longrightarrow> d \<noteq> null \<Longrightarrow>
     hnd_ok (set_half rd (Lent d) h) (if rd then cl\<lparr>c_reader := d\<rparr> else cl\<lparr>c_writer := d\<rparr>) reg"
  by (auto simp: hnd_simps split: drop_at.splits if_splits)

lemma hnd_ok_close:
  "hnd_ok h cl reg \<Longrightarrow> half rd h = Lent d \<Longrightarrow>
     hnd_ok (set_half rd Owned h) (if rd then cl\<lparr>c_reader := null\<rparr> else cl\<lparr>c_writer := null\<rparr>) reg"
  by (auto simp: hnd_simps split: drop_at.splits if_splits)

lemma hnd_ok_drop: "hnd_ok h cl reg \<Longrightarrow> half rd h = Owned \<Longrightarrow> hnd_ok (drop_half rd h) cl reg"
  by (auto simp: hnd_simps drop_half_def Let_def split: drop_at.splits if_splits)

lemma hnd_ok_deregister:
  "hnd_ok h cl reg \<Longrightarrow> h_drop h = At_deregister \<Longrightarrow> hnd_ok (h\<lparr>h_drop := At_defer\<rparr>) (cl\<lparr>c_pc := C_defer\<rparr>) reg'"
  by (auto simp: hnd_simps)

lemma hnd_ok_defer:
  "hnd_ok h cl reg \<Longrightarrow> h_drop h = At_defer \<Longrightarrow> hnd_ok (h\<lparr>h_drop := Dropped\<rparr>) (cl\<lparr>c_pc := C_gone\<rparr>) reg'"
  by (auto simp: hnd_simps)

lemma hnd_ok_none: "c_pc cl \<in> {C_none, C_insert, C_register, C_failed} \<Longrightarrow> hnd_ok (no_handle k) cl reg"
  by (auto simp: hnd_simps no_handle_def)

lemma hnd_ok_build:
  "hnd_ok h cl reg \<Longrightarrow> c_pc cl \<in> {C_insert, C_register} \<Longrightarrow> c_pc cl' \<in> {C_register, C_failed} \<Longrightarrow> hnd_ok h cl' reg'"
  by (auto simp: hnd_simps split: drop_at.splits if_splits)

lemma hnd_ok_new:
  assumes "hnd_ok h cl reg" "c_pc cl = C_register" "c_reader cl = null" "c_writer cl = null"
  shows "hnd_ok (new_handles h) (cl\<lparr>c_pc := C_live\<rparr>) (Some (c_key cl))"
  using assms by (auto simp: hnd_simps new_handles_def split: drop_at.splits if_splits socket_kind.splits)

text \<open>Ownership gives the guards of the container: a step of a client is a step of the container, or none.\<close>

lemma net_sim:
  assumes inv: "net_inv S n s" and act: "net_act S may n l s = Some t"
  shows "net_mio t = net_mio s \<or> (\<exists>a. mio_act S may n a (net_mio s) = Some (net_mio t))"
proof -
  have ok: "m_fault (net_mio s) = None" and do: "net_do S may n l s = Some t" using act by (auto simp: net_act_def split: if_splits)
  have sim: ?thesis if "cell_step S n c l (net_mio s) = Some (net_mio t)" for c l
    using that ok by (intro disjI2 exI[of _ "Socket c l"]) simp
  have lend: ?thesis if "MIO_new S rd d c s = Some t" for rd d c
    by (rule sim[of c "Attach rd d"])
      (use that half_live[OF net_invD(2)[OF inv, of c], of rd] in
        \<open>auto simp: MIO_new_def set_hnd_def cell_step_def Let_def lent_def split: if_splits\<close>)
  show ?thesis
  proof (cases l)
    case (Close_half c rd)
    obtain d where d: "half rd (hnds s c) = Lent d" and t: "net_mio t = close_half S rd d c (net_mio s)"
      using do by (auto simp: Close_half MIO_drop_def set_hnd_def split: socket_handle.splits)
    show ?thesis
      by (rule sim[of c "if rd then Del_reader else Del_writer"])
        (use half_live[OF net_invD(2)[OF inv, of c], of rd] d in
          \<open>cases rd; simp add: t cell_step_def Let_def close_half_def lent_def\<close>)
  next
    case (Drop_cell c)
    show ?thesis
      by (rule sim[of c "if h_drop (hnds s c) = At_deregister then Deregister else Defer"])
        (use do net_invD(2)[OF inv, of c] in
          \<open>auto simp: Drop_cell MIOCell_drop_def set_hnd_def deregister_def cell_step_def Let_def hnd_simps split: drop_at.splits if_splits\<close>)
  qed (use do in \<open>auto simp: set_hnd_def TcpListenerHandle_bind_def TcpStream_connect_def TcpListenerAcceptor_accept_def
      build_handles_def TcpListenerHandle_acceptor_def TcpStreamReadHandle_reader_def TcpStreamWriteHandle_writer_def
      MIOHandle_drop_def dest!: lend simp del: mio_act.simps split: if_splits mlabel.splits\<close>)
qed

context slab_ops
begin

lemma net_sim_inv:
  assumes inv: "net_inv S n s" and n: "n \<noteq> 0" "poll_events may" and act: "net_act S may n l s = Some t"
  shows "mio_inv S n (net_mio t)"
  using net_sim[OF inv act] net_invD(1)[OF inv] mio_act_inv[OF _ n] by metis

lemma build_inv:
  assumes inv: "net_inv S n s" and mio: "mio_inv S n (net_mio t)" and "cell_step S n c l (net_mio s) = Some (net_mio t)"
    and l: "l \<in> {New, Insert, Register True, Register False}"
    and "hnds t = (hnds s)(c := if l = New then no_handle k else if l = Register True then new_handles (hnds s c) else hnds s c)"
  shows "net_inv S n t"
proof (rule net_inv_upd[OF inv mio assms(5)])
  note d = cell_stepD[OF assms(3) mio_invD(1)[OF mio]]
  note h = net_invD(2)[OF inv, of c]
  show "cells (net_mio t) d = cells (net_mio s) d \<and> reg_of (net_mio t) d = reg_of (net_mio s) d" if "d \<noteq> c" for d
    using d(5)[OF l that] .
  have "c_pc (cells (net_mio s) c) = C_register \<Longrightarrow> c_reader (cells (net_mio s) c) = null \<and> c_writer (cells (net_mio s) c) = null"
    using mio_invD(2)[OF net_invD(1)[OF inv], of c] by (simp add: cell_ok_def Let_def)
  then show "hnd_ok (if l = New then no_handle k else if l = Register True then new_handles (hnds s c) else hnds s c)
      (cells (net_mio t) c) (reg_of (net_mio t) c)"
    using l d(1-4) hnd_ok_none hnd_ok_new[OF h] hnd_ok_build[OF h, of "cells (net_mio t) c"] by auto
qed

lemma lend_inv:
  assumes inv: "net_inv S n s" and mio: "mio_inv S n (net_mio t)" and new: "MIO_new S rd d c s = Some t"
  shows "net_inv S n t"
proof -
  have t: "half rd (hnds s c) = Owned" "d \<noteq> null" "net_mio t = attach S rd d c (net_mio s)"
    "hnds t = (hnds s)(c := set_half rd (Lent d) (hnds s c))"
    using new by (auto simp: MIO_new_def set_hnd_def split: if_splits)
  note f = attach_frame[where S = S and rd = rd and a = d and c = c and m = "net_mio s", folded t(3)]
  show ?thesis
    by (rule net_inv_upd[OF inv mio t(4)])
      (use hnd_ok_lend[OF net_invD(2)[OF inv, of c] t(1,2)] f f(3)[OF mio_invD(1)[OF mio]] in \<open>auto split: if_splits\<close>)
qed

lemma drop_cell_net_inv:
  assumes inv: "net_inv S n s" and mio: "mio_inv S n (net_mio t)" and drop: "MIOCell_drop S c s = Some t"
  shows "net_inv S n t"
proof (cases "h_drop (hnds s c)")
  case At_deregister
  then have t: "net_mio t = deregister c (net_mio s)" "hnds t = (hnds s)(c := hnds s c\<lparr>h_drop := At_defer\<rparr>)"
    using drop by (auto simp: MIOCell_drop_def set_hnd_def)
  show ?thesis
    by (rule net_inv_upd[OF inv mio t(2)])
      (use hnd_ok_deregister[OF net_invD(2)[OF inv, of c] At_deregister] in \<open>auto simp: t(1) deregister_def\<close>)
next
  case At_defer
  then have t: "net_mio t = drop_cell S c (net_mio s)" "hnds t = (hnds s)(c := hnds s c\<lparr>h_drop := Dropped\<rparr>)"
    using drop by (auto simp: MIOCell_drop_def set_hnd_def)
  note f = drop_cell_frame[where S = S and c = c and m = "net_mio s", folded t(1)]
  show ?thesis
    by (rule net_inv_upd[OF inv mio t(2)])
      (use hnd_ok_defer[OF net_invD(2)[OF inv, of c] At_defer] f f(3)[OF mio_invD(1)[OF mio]] in auto)
qed (use drop in \<open>simp_all add: MIOCell_drop_def\<close>)

lemma net_act_inv:
  assumes inv: "net_inv S n s" and n: "n \<noteq> 0" "poll_events may" and act: "net_act S may n l s = Some t"
  shows "net_inv S n t"
proof -
  have do: "net_do S may n l s = Some t" using act by (auto simp: net_act_def split: if_splits)
  note mio = net_sim_inv[OF assms]
  show ?thesis
  proof (cases l)
    case (Bind c)
    then show ?thesis using do
      by (intro build_inv[OF inv mio, of c New Listener]) (auto simp: TcpListenerHandle_bind_def set_hnd_def split: if_splits)
  next
    case (Connect c)
    then show ?thesis using do
      by (intro build_inv[OF inv mio, of c New Stream]) (auto simp: TcpStream_connect_def set_hnd_def split: if_splits)
  next
    case (Accept_on k c)
    then show ?thesis using do
      by (intro build_inv[OF inv mio, of c New Stream]) (auto simp: TcpListenerAcceptor_accept_def set_hnd_def split: if_splits)
  next
    case (Build c k)
    then show ?thesis using do
      by (intro build_inv[OF inv mio, of c k Stream]) (auto simp: build_handles_def set_hnd_def split: if_splits)
  next
    case (Close_half c rd)
    obtain d where d: "half rd (hnds s c) = Lent d" and t: "net_mio t = close_half S rd d c (net_mio s)"
      "hnds t = (hnds s)(c := set_half rd Owned (hnds s c))"
      using do by (auto simp: Close_half MIO_drop_def set_hnd_def split: socket_handle.splits)
    show ?thesis
      by (rule net_inv_upd[OF inv mio t(2)])
        (use hnd_ok_close[OF net_invD(2)[OF inv, of c] d] in \<open>auto simp: t(1) close_half_def del_frame split: if_splits\<close>)
  next
    case (Drop_half c rd)
    then show ?thesis using do hnd_ok_drop[OF net_invD(2)[OF inv, of c]]
      by (intro net_inv_upd[OF inv mio, of c "drop_half rd (hnds s c)"]) (auto simp: MIOHandle_drop_def set_hnd_def split: if_splits)
  next
    case (Others a)
    have "cells (net_mio t) = cells (net_mio s) \<and> (\<forall>j. registered (locals (net_mio t) j) = registered (locals (net_mio s) j)) \<and> hnds t = hnds s"
      using do by (cases a) (auto simp: Others dest: loop_frame split: if_splits)
    then show ?thesis using mio inv by (simp add: net_inv_def)
  qed (use do in \<open>auto simp: TcpListenerHandle_acceptor_def TcpStreamReadHandle_reader_def TcpStreamWriteHandle_writer_def
      intro: lend_inv[OF inv mio] drop_cell_net_inv[OF inv mio] split: if_splits\<close>)
qed

lemma net_init_inv: "net_init S n s \<Longrightarrow> net_inv S n s"
  unfolding net_init_def net_inv_def
proof (intro conjI allI)
  fix c assume i: "mio_init S n (net_mio s) \<and> (\<forall>c. \<exists>k. hnds s c = no_handle k)"
  then obtain k where "hnds s c = no_handle k" by blast
  then show "hnd_ok (hnds s c) (cells (net_mio s) c) (reg_of (net_mio s) c)" using i by (simp add: hnd_ok_none mio_init_def)
qed (auto intro: mio_init_inv)

lemma net_reach_inv:
  assumes "n \<noteq> 0" "poll_events may" "net_reach S may n s"
  shows "net_inv S n s \<and> mio_reach S may n (net_mio s)"
  using assms(3)
proof (induction rule: reach.induct)
  case (reach_init s)
  then show ?case by (auto intro: net_init_inv reach.reach_init simp: net_init_def)
next
  case (reach_step s t)
  then obtain l where l: "net_act S may n l s = Some t" by (auto simp: enabled_def)
  from reach_step.IH net_sim[OF _ l] have "net_mio t = net_mio s \<or> enabled (mio_act S may n) (net_mio s) (net_mio t)"
    by (simp add: enabled_def)
  then have "mio_reach S may n (net_mio t)" using reach_step.IH reach.reach_step by metis
  then show ?case using net_act_inv[OF _ assms(1,2) l] reach_step.IH by blast
qed

end

section \<open>Properties\<close>

text \<open>
  C16: ownership keeps the container's rules.  Whatever tasks do with listeners, streams, acceptors, readers and
  writers they own, while the event loops run, every step is one the container allows, so that with at least one
  loop no assertion of the container fails and no freed dispatcher is used.
\<close>

theorem sockets_refine:
  assumes "slab_ops S" "poll_events may" "n \<noteq> 0" "net_reach S may n s"
  shows "mio_reach S may n (net_mio s) \<and> m_fault (net_mio s) = None"
proof -
  have "net_inv S n s \<and> mio_reach S may n (net_mio s)" by (rule slab_ops.net_reach_inv[OF assms(1,3,2,4)])
  then show ?thesis using mio_invD(1)[OF net_invD(1)] by blast
qed

text \<open>
  C29: a socket is registered exactly as long as it has a handle.  The strong count is the number of handles; a
  socket with a handle is registered under its key, and its slot holds exactly the dispatchers of the reader and
  the writer the tasks have; a registered socket has a handle or its last owner is about to deregister it.
\<close>

theorem socket_registered:
  assumes "slab_ops S" "poll_events may" "n \<noteq> 0" "net_reach S may n s"
  shows "h_arc (hnds s c) = handles (hnds s c) \<and>
    (handles (hnds s c) \<noteq> 0 \<longrightarrow> reg_of (net_mio s) c = Some (c_key (cells (net_mio s) c)) \<and>
       slot_at S (net_mio s) (c_local (cells (net_mio s) c)) (c_key (cells (net_mio s) c)) =
         Some \<lparr>readable_dispatcher = lent (h_read (hnds s c)), writable_dispatcher = lent (h_write (hnds s c))\<rparr>) \<and>
    (\<forall>i k. i < unat n \<and> registered (locals (net_mio s) i) c = Some k \<longrightarrow> handles (hnds s c) \<noteq> 0 \<or> h_drop (hnds s c) = At_deregister)"
proof -
  have inv: "net_inv S n s" using slab_ops.net_reach_inv[OF assms(1,3,2,4)] by blast
  note h = net_invD(2)[OF inv, of c] and mio = net_invD(1)[OF inv]
  have live: "c_pc (cells (net_mio s) c) = C_live" if "handles (hnds s c) \<noteq> 0"
    using h that by (auto simp: hnd_ok_def cell_at_def split: drop_at.splits)
  have "handles (hnds s c) \<noteq> 0 \<or> h_drop (hnds s c) = At_deregister"
    if "i < unat n" "registered (locals (net_mio s) i) c = Some k" for i k
    using h mio_invD(6)[OF mio that(1)] that(2) by (auto simp: hnd_ok_def cell_at_def registered_ok_def split: drop_at.splits if_splits)
  moreover have "slot_at S (net_mio s) (c_local (cells (net_mio s) c)) (c_key (cells (net_mio s) c)) =
      Some \<lparr>readable_dispatcher = lent (h_read (hnds s c)), writable_dispatcher = lent (h_write (hnds s c))\<rparr>" if "handles (hnds s c) \<noteq> 0"
    using h live[OF that] mio_invD(2)[OF mio, of c] by (simp add: hnd_ok_def cell_ok_def has_slot_def Let_def)
  moreover have "reg_of (net_mio s) c = Some (c_key (cells (net_mio s) c))" if "handles (hnds s c) \<noteq> 0"
    using h live[OF that] by (simp add: hnd_ok_def)
  ultimately show ?thesis using h unfolding hnd_ok_def by blast
qed

text \<open>
  C22: borrowing and giving back.  A task that owns a handle can turn it into an acceptor, a reader or a writer: its slot
  then holds the new dispatcher, in the field of the right direction.  The drop of what it got restores the handles,
  the cells, every slot of every loop, the dispatchers in memory, and what is registered or left to be removed, without
  a fault, also while the other half of a stream is borrowed.
\<close>

theorem half_roundtrip:
  assumes "slab_ops S" "poll_events may" "n \<noteq> 0" "net_reach S may n s"
    and own: "half rd (hnds s c) = Owned" "h_kind (hnds s c) = Listener \<longrightarrow> rd" and d: "d \<noteq> null" "d \<notin> m_heap (net_mio s)"
  shows "\<exists>m t. net_act S may n (if h_kind (hnds s c) = Listener then Acceptor c d else if rd then Reader c d else Writer c d) s = Some m \<and>
    half rd (hnds m c) = Lent d \<and>
    map_option (if rd then readable_dispatcher else writable_dispatcher)
      (slot_at S (net_mio m) (c_local (cells (net_mio s) c)) (c_key (cells (net_mio s) c))) = Some d \<and>
    net_act S may n (Close_half c rd) m = Some t \<and> m_fault (net_mio t) = None \<and> hnds t = hnds s \<and>
    cells (net_mio t) = cells (net_mio s) \<and> m_heap (net_mio t) = m_heap (net_mio s) \<and>
    (\<forall>i. (\<forall>k. slot_at S (net_mio t) i k = slot_at S (net_mio s) i k) \<and>
       registered (locals (net_mio t) i) = registered (locals (net_mio s) i) \<and>
       deferred_remove (locals (net_mio t) i) = deferred_remove (locals (net_mio s) i))"
proof -
  let ?M = "net_mio s" and ?h = "hnds s c" and ?cl = "cells (net_mio s) c"
  have inv: "net_inv S n s" using slab_ops.net_reach_inv[OF assms(1,3,2,4)] by blast
  note mio = net_invD(1)[OF inv] and h = net_invD(2)[OF inv, of c]
  have live: "c_pc ?cl = C_live" by (rule half_live(1)[OF h, of rd]) (use own in simp)
  have ptrs: "c_reader ?cl = lent (h_read ?h)" "c_writer ?cl = lent (h_write ?h)" using h live by (simp_all add: hnd_ok_def)
  have slot: "slot_at S ?M (c_local ?cl) (c_key ?cl) = Some \<lparr>readable_dispatcher = c_reader ?cl, writable_dispatcher = c_writer ?cl\<rparr>"
    using mio_invD(2)[OF mio, of c] live by (simp add: cell_ok_def has_slot_def Let_def)
  have null: "(if rd then c_reader ?cl else c_writer ?cl) = null" using own(1) ptrs by (simp add: half_def lent_def split: if_splits)
  have new: "d \<noteq> c_reader ?cl" "d \<noteq> c_writer ?cl"
    using slab_ops.heapD(1)[OF assms(1) mio live] d by auto
  have fault: "m_fault ?M = None" using mio_invD(1)[OF mio] .
  define slot' where "slot' = (if rd then \<lparr>readable_dispatcher = d, writable_dispatcher = c_writer ?cl\<rparr>
    else \<lparr>readable_dispatcher = c_reader ?cl, writable_dispatcher = d\<rparr>)"
  define cl' where "cl' = (if rd then ?cl\<lparr>c_reader := d\<rparr> else ?cl\<lparr>c_writer := d\<rparr>)"
  define M where "M = at_cell c (\<lambda>_. cl') (at_local (c_local ?cl) (dispatchers_update (sb_set S (c_key ?cl) slot')) (?M\<lparr>m_heap := insert d (m_heap ?M)\<rparr>))"
  define m where "m = set_hnd c (set_half rd (Lent d) ?h) (s\<lparr>net_mio := M\<rparr>)"
  have att: "attach S rd d c ?M = M" using slot null by (cases rd) (simp_all add: attach_def Let_def M_def cl'_def slot'_def at_cell_def at_local_def)
  have lend: "net_act S may n (if h_kind ?h = Listener then Acceptor c d else if rd then Reader c d else Writer c d) s = Some m"
  proof -
    have "MIO_new S rd d c s = Some m" using own(1) d by (simp add: MIO_new_def att m_def)
    then show ?thesis using own(2) fault
      by (cases rd; cases "h_kind ?h") (simp_all add: net_act_def TcpListenerHandle_acceptor_def TcpStreamReadHandle_reader_def
          TcpStreamWriteHandle_writer_def)
  qed
  have at': "c_local cl' = c_local ?cl" "c_key cl' = c_key ?cl" by (simp_all add: cl'_def)
  have got: "slot_at S M (c_local ?cl) k = (if k = c_key ?cl then Some slot' else slot_at S ?M (c_local ?cl) k)" for k
    using slab_ops.get_set[OF assms(1), of "c_key ?cl" "dispatchers (locals ?M (c_local ?cl))"] slot by (simp add: M_def)
  have m: "half rd (hnds m c) = Lent d" "net_mio m = M" by (simp_all add: m_def set_hnd_def half_def set_half_def)
  define N where "N = (at_local (c_local ?cl) (dispatchers_update (sb_set S (c_key ?cl)
    \<lparr>readable_dispatcher = c_reader ?cl, writable_dispatcher = c_writer ?cl\<rparr>)) M)\<lparr>m_heap := m_heap M - {d}\<rparr>"
  have del: "del S d c M = N"
    using got[of "c_key ?cl"] new null at' by (cases rd) (simp_all add: del_def Let_def N_def slot'_def M_def)
  define t where "t = set_hnd c (set_half rd Owned (hnds m c)) (m\<lparr>net_mio := close_half S rd d c M\<rparr>)"
  have close: "net_act S may n (Close_half c rd) m = Some t"
    using m fault by (simp add: net_act_def MIO_drop_def t_def M_def)
  have tn: "net_mio t = at_cell c (if rd then c_reader_update (\<lambda>_. null) else c_writer_update (\<lambda>_. null)) N"
    by (simp add: t_def set_hnd_def close_half_def del)
  have restored: "slot_at S N (c_local ?cl) k = slot_at S ?M (c_local ?cl) k" for k
    using slab_ops.get_set[OF assms(1), of "c_key ?cl" "dispatchers (locals M (c_local ?cl))"] got slot by (simp add: N_def)
  have "hnds t = hnds s" using own(1) by (auto simp: t_def m_def set_hnd_def set_half_def half_def)
  moreover have "cells (net_mio t) = cells ?M" using null by (auto simp: tn N_def M_def cl'_def)
  moreover have "m_heap (net_mio t) = m_heap ?M" using d by (simp add: tn N_def M_def)
  moreover have "m_fault (net_mio t) = None" using fault by (simp add: tn N_def M_def)
  moreover have "slot_at S (net_mio t) i k = slot_at S ?M i k" for i k
    using restored[of k] by (cases "i = c_local ?cl") (simp_all add: tn N_def M_def)
  moreover have "registered (locals (net_mio t) i) = registered (locals ?M i) \<and> deferred_remove (locals (net_mio t) i) = deferred_remove (locals ?M i)" for i
    by (simp add: tn N_def M_def)
  moreover have "map_option (if rd then readable_dispatcher else writable_dispatcher) (slot_at S (net_mio m) (c_local ?cl) (c_key ?cl)) = Some d"
    using got[of "c_key ?cl"] by (simp add: m slot'_def)
  ultimately show ?thesis using lend m(1) close by blast
qed

text \<open>
  C40: dropping the last handle closes the socket.  When a task drops the last handle and runs the drop of the cell, the
  socket is deregistered, its key is left to the event loop for removal but still has its slot, now empty, so that
  events already polled find it, and there is no fault.
\<close>

theorem last_handle_closes:
  assumes "slab_ops S" "poll_events may" "n \<noteq> 0" "net_reach S may n s"
    and "half rd (hnds s c) = Owned" "h_arc (hnds s c) = 1"
  shows "\<exists>t. run (net_act S may n) [Drop_half c rd, Drop_cell c, Drop_cell c] s = Some t \<and> m_fault (net_mio t) = None \<and>
    reg_of (net_mio t) c = None \<and> c_key (cells (net_mio s) c) \<in> set (deferred_remove (locals (net_mio t) (c_local (cells (net_mio s) c)))) \<and>
    slot_at S (net_mio t) (c_local (cells (net_mio s) c)) (c_key (cells (net_mio s) c)) = Some Slot_new"
proof -
  have inv: "net_inv S n s" using slab_ops.net_reach_inv[OF assms(1,3,2,4)] by blast
  have h: "hnd_ok (hnds s c) (cells (net_mio s) c) (reg_of (net_mio s) c)" "c_pc (cells (net_mio s) c) = C_live"
    using net_invD(2)[OF inv, of c] half_live(1)[OF net_invD(2)[OF inv, of c], of rd] assms(5) by simp_all
  have gone: "half (\<not> rd) (hnds s c) = Gone"
  proof -
    have "handles (hnds s c) = 1" using h(1) assms(6) by (simp add: hnd_ok_def)
    then show ?thesis using assms(5) by (cases rd) (simp_all add: half_def handles_def split: if_splits)
  qed
  have slot: "slot_at S (net_mio s) (c_local (cells (net_mio s) c)) (c_key (cells (net_mio s) c)) = Some Slot_new"
  proof -
    have "lent (h_read (hnds s c)) = null \<and> lent (h_write (hnds s c)) = null"
      using gone assms(5) by (cases rd) (simp_all add: half_def lent_def)
    then have "c_reader (cells (net_mio s) c) = null" "c_writer (cells (net_mio s) c) = null" using h by (simp_all add: hnd_ok_def)
    then show ?thesis using mio_invD(2)[OF net_invD(1)[OF inv], of c] h(2) by (simp add: cell_ok_def has_slot_def Let_def Slot_new_def)
  qed
  show ?thesis
    using mio_invD(1)[OF net_invD(1)[OF inv]] assms(5,6) slot
    by (simp add: net_act_def MIOHandle_drop_def MIOCell_drop_def drop_half_def set_half_def set_hnd_def deregister_def drop_cell_def
        Slot_new_def Let_def)
qed

section \<open>A run\<close>

text \<open>A listener, its acceptor, and a connection it accepts, of which a reader is used and dropped and the write handle is dropped.\<close>

definition net_start :: "Slot option list net" where
  "net_start = \<lparr>net_mio = one_loop, hnds = (\<lambda>_. no_handle Stream)\<rparr>"

definition net_schedule :: "net_label list" where
  "net_schedule = [Bind 0, Build 0 Insert, Build 0 (Register True), Acceptor 0 5, Accept_on 0 1, Build 1 Insert,
     Build 1 (Register True), Reader 1 6, Others (Loop 0 []), Others (Loop 0 []), Close_half 1 True, Drop_half 1 False]"

lemmas net_replay = net_act_def TcpListenerHandle_bind_def TcpListenerAcceptor_accept_def build_handles_def
  TcpListenerHandle_acceptor_def TcpStreamReadHandle_reader_def MIO_new_def MIO_drop_def MIOHandle_drop_def
  drop_half_def close_half_def del_def half_def set_half_def set_hnd_def no_handle_def new_handles_def

lemma net_run:
  "\<exists>s. run (net_act vec_slab any_poll 1) net_schedule net_start = Some s \<and> h_read (hnds s 1) = Owned \<and> h_arc (hnds s 1) = 1 \<and>
     h_read (hnds s 0) = Lent 5 \<and> h_kind (hnds s 1) = Stream \<and> 6 \<notin> m_heap (net_mio s)"
  by (simp add: net_schedule_def net_start_def net_replay mio_replay)

lemma net_start_reach:
  "\<exists>s. net_reach vec_slab any_poll 1 s \<and> h_read (hnds s 1) = Owned \<and> h_arc (hnds s 1) = 1 \<and> h_read (hnds s 0) = Lent 5 \<and>
     h_kind (hnds s 1) = Stream \<and> 6 \<notin> m_heap (net_mio s)"
proof -
  have "net_init vec_slab 1 net_start" using one_init by (auto simp: net_init_def net_start_def)
  then show ?thesis using net_run reach_run[of "net_init vec_slab 1"] by blast
qed

theorem sockets_refine_witness:
  "\<exists>s. net_reach vec_slab any_poll 1 s \<and> h_read (hnds s 0) = Lent 5 \<and> m_fault (net_mio s) = None"
proof -
  obtain s where s: "net_reach vec_slab any_poll 1 s" "h_read (hnds s 0) = Lent 5" using net_start_reach by blast
  with sockets_refine[OF vec.slab_ops_axioms any.poll_events_axioms _ s(1)] show ?thesis by auto
qed

theorem socket_registered_witness:
  "\<exists>s. net_reach vec_slab any_poll 1 s \<and> h_arc (hnds s 1) = 1 \<and> reg_of (net_mio s) 1 = Some (c_key (cells (net_mio s) 1))"
proof -
  obtain s where s: "net_reach vec_slab any_poll 1 s" "h_arc (hnds s 1) = 1" using net_start_reach by blast
  with socket_registered[OF vec.slab_ops_axioms any.poll_events_axioms _ s(1), of 1] show ?thesis by auto
qed

theorem half_roundtrip_witness:
  "\<exists>s m t. net_reach vec_slab any_poll 1 s \<and> net_act vec_slab any_poll 1 (Reader 1 6) s = Some m \<and> h_read (hnds m 1) = Lent 6 \<and>
     net_act vec_slab any_poll 1 (Close_half 1 True) m = Some t \<and> hnds t = hnds s"
proof -
  obtain s where s: "net_reach vec_slab any_poll 1 s" "h_read (hnds s 1) = Owned" "h_kind (hnds s 1) = Stream" "6 \<notin> m_heap (net_mio s)"
    using net_start_reach by blast
  have "half True (hnds s 1) = Owned" using s(2) by (simp add: half_def)
  from half_roundtrip[OF vec.slab_ops_axioms any.poll_events_axioms _ s(1) this _ _ s(4)] s(3)
  obtain m t where "net_act vec_slab any_poll 1 (Reader 1 6) s = Some m" "half True (hnds m 1) = Lent 6"
    "net_act vec_slab any_poll 1 (Close_half 1 True) m = Some t" "hnds t = hnds s" by auto
  with s(1) show ?thesis by (auto simp: half_def)
qed

theorem last_handle_closes_witness:
  "\<exists>s t. net_reach vec_slab any_poll 1 s \<and>
     run (net_act vec_slab any_poll 1) [Drop_half 1 True, Drop_cell 1, Drop_cell 1] s = Some t \<and> reg_of (net_mio t) 1 = None"
proof -
  obtain s where s: "net_reach vec_slab any_poll 1 s" "h_read (hnds s 1) = Owned" "h_arc (hnds s 1) = 1" using net_start_reach by blast
  have "half True (hnds s 1) = Owned" using s(2) by (simp add: half_def)
  from last_handle_closes[OF vec.slab_ops_axioms any.poll_events_axioms _ s(1) this s(3)] s(1) show ?thesis by auto
qed

end
