(* ===== verification/Reactor.thy ===== *)
theory Reactor
  imports Dispatcher Lifecycle_Safety Sockets
begin

text \<open>
  The runtime with its reactor: \<open>run_with\<close> (\<open>runtime.rs\<close>) with \<open>mio_spawn_event_loop\<close>, \<open>mio_shutdown\<close> and
  \<open>mio_exit\<close> (\<open>yaay-mio/src/prelude.rs\<close>) as its callbacks, the way \<open>mio_ping_pong.rs\<close> calls it.

  The theory composes the life of a runtime (theory \<open>Lifecycle\<close>) with the sockets and the event loops (theory
  \<open>Sockets\<close>): event loop \<open>i\<close> is thread \<open>n + i\<close> of the runtime, holds a \<open>BatchGuard\<close>, and wakes tasks through the
  wakers in the dispatchers; \<open>on_start\<close> starts the loops, \<open>on_shutdown\<close> stops and joins them.  \<open>Lifecycle\<close> takes
  it as the user's obligation that no batch is started late, that no waker is used after the tear-down or on a
  worker thread, and that \<open>on_shutdown\<close> ends all batches.  For the reactor threads, the wakers in dispatchers and the
  callbacks none of this is a guard here: their steps are restricted by the program, by the allocator, and by who owns
  which waker.  What remains with the user is about wakers that tasks have cloned and given away: other threads of the
  user may invoke them (\<open>X_wake\<close>), but not after the tear-down, and a future may invoke only the waker of its own task.

  The start of the loops up to \<open>shared.rs\<close> 93 is the subject of \<open>Loop_Startup\<close>.  A dispatcher has its status word; the
  accesses to it are single steps, and how they interleave inside \<open>notify\<close> is the subject of \<open>Dispatcher\<close>.
\<close>

section \<open>Definitions\<close>

datatype x_pc =
    X_none
  | X_guard                \<comment> \<open>shared.rs 94\<close>
  | X_loop                 \<comment> \<open>shared.rs 98-129\<close>
  | X_notify "notice list" \<comment> \<open>shared.rs 101-112, with the lock of the slab\<close>
  | X_end                  \<comment> \<open>shared.rs 130: the guard is dropped\<close>

text \<open>
  \<open>rx_status\<close> and \<open>rx_waker\<close> are the fields of a \<open>DispatcherInner\<close>, \<open>rx_boxed\<close> are the wakers that are in one; \<open>rx_join\<close> is the next
  loop that \<open>mio_shutdown\<close> joins; \<open>rx_bad\<close> is set when a dispatcher without a waker is used.
\<close>

record ('u, 's) reactor =
  rx_life :: "'u life"
  rx_net :: "'s net"
  rx_at :: "nat \<Rightarrow> x_pc"
  rx_status :: "addr \<Rightarrow> u8"
  rx_waker :: "addr \<rightharpoonup> nat"
  rx_boxed :: "nat set"
  rx_join :: "nat option"
  rx_bad :: bool

definition rt_do :: "nat \<Rightarrow> 'u llabel \<Rightarrow> ('u, 's) reactor \<Rightarrow> ('u, 's) reactor option" where
  "rt_do n a s = map_option (\<lambda>L. s\<lparr>rx_life := L\<rparr>) (life_act n a (rx_life s))"

definition net_go :: "'s slab \<Rightarrow> os_poll \<Rightarrow> usize \<Rightarrow> net_label \<Rightarrow>
    ('u, 's) reactor \<Rightarrow> ('u, 's) reactor option" where
  "net_go S may m l s = map_option (\<lambda>N. s\<lparr>rx_net := N\<rparr>) (net_act S may m l (rx_net s))"

definition x_go :: "nat \<Rightarrow> x_pc \<Rightarrow> ('u, 's) reactor \<Rightarrow> ('u, 's) reactor" where
  "x_go i pc s = s\<lparr>rx_at := (rx_at s)(i := pc)\<rparr>"

text \<open>The waker inside dispatcher \<open>d\<close>, as long as both exist.\<close>

definition live_waker :: "addr \<Rightarrow> ('u, 's) reactor \<Rightarrow> nat option" where
  "live_waker d s = (case rx_waker s d of None \<Rightarrow> None | Some w \<Rightarrow> if l_wakers (rx_life s) w = None then None else Some w)"

subsection \<open>The event loops\<close>

abbreviation notices_of :: "nat \<Rightarrow> ('u, 's) reactor \<Rightarrow> notice list" where
  "notices_of i s \<equiv> l_notices (locals (net_mio (rx_net s)) i)"

text \<open>\<open>DispatcherInner::notify\<close>, on loop \<open>i\<close>\<close>

definition rx_notify :: "nat \<Rightarrow> nat \<Rightarrow> addr \<Rightarrow> ('u, 's) reactor \<Rightarrow> ('u, 's) reactor option" where
  "rx_notify n i d s =
     (case live_waker d s of
        None \<Rightarrow> Some (s\<lparr>rx_bad := True\<rparr>)
      | Some w \<Rightarrow>
          let prev = rx_status s d; s = s\<lparr>rx_status := (rx_status s)(d := D_NOTIFIED OR D_MUTED)\<rparr>
          in if prev AND (D_MUTED OR D_NOTIFIED) = 0 then rt_do n (Wake (n + i) w) s else Some s)"

text \<open>One step of loop \<open>i\<close>: \<open>evs\<close> are what the poll returns, \<open>p\<close> is a result of the allocator.\<close>

definition rx_loop :: "'s slab \<Rightarrow> os_poll \<Rightarrow> usize \<Rightarrow> nat \<Rightarrow> nat \<Rightarrow> io_event list \<Rightarrow> addr \<Rightarrow>
    ('u, 's) reactor \<Rightarrow> ('u, 's) reactor option" where
  "rx_loop S may m n i evs p s =
    (let turn = net_go S may m (Others (Loop i evs)) in
     case rx_at s i of
       X_none \<Rightarrow> None
     | X_guard \<Rightarrow>
         if fresh_for (l_rt (rx_life s)) p then map_option (x_go i X_loop) (rt_do n (Batch_new (n + i) p) s) else None
     | X_loop \<Rightarrow>
         (case l_pc (locals (net_mio (rx_net s)) i) of
            E_dispatch _ \<Rightarrow> map_option (\<lambda>t. x_go i (X_notify (drop (length (notices_of i s)) (notices_of i t))) t) (turn s)
          | E_flush \<Rightarrow> Option.bind (rt_do n (Batch_push (n + i)) s) turn
          | E_done \<Rightarrow> map_option (x_go i X_end) (rt_do n (Batch_drop (n + i)) s)
          | _ \<Rightarrow> turn s)
     | X_notify [] \<Rightarrow> Some (x_go i X_loop s)
     | X_notify (x # ns) \<Rightarrow>
         map_option (x_go i (X_notify ns))
           (case x of Push_batch \<Rightarrow> rt_do n (Batch_push (n + i)) s | Notify d \<Rightarrow> rx_notify n i d s)
     | X_end \<Rightarrow> None)"

subsection \<open>The main thread\<close>

definition mio_spawn_event_loop :: "usize \<Rightarrow> ('u, 's) reactor \<Rightarrow> ('u, 's) reactor" where
  "mio_spawn_event_loop m s = s\<lparr>rx_at := (\<lambda>i. if i < unat m then X_guard else X_none)\<rparr>"

text \<open>One step of \<open>mio_shutdown\<close>; \<open>None\<close> while it waits for a loop.\<close>

definition rx_mio_shutdown :: "'s slab \<Rightarrow> os_poll \<Rightarrow> usize \<Rightarrow> ('u, 's) reactor \<Rightarrow> ('u, 's) reactor option" where
  "rx_mio_shutdown S may m s =
     (case rx_join s of
        None \<Rightarrow> map_option (\<lambda>t. t\<lparr>rx_join := Some 0\<rparr>) (net_go S may m (Others Set_shutdown) s)
      | Some k \<Rightarrow> if k < unat m \<and> rx_at s k = X_end then Some (s\<lparr>rx_join := Some (Suc k)\<rparr>) else None)"

definition rx_main :: "'s slab \<Rightarrow> os_poll \<Rightarrow> usize \<Rightarrow> nat \<Rightarrow> addr \<Rightarrow> 'u \<Rightarrow>
    ('u, 's) reactor \<Rightarrow> ('u, 's) reactor option" where
  "rx_main S may m n p u s =
    (let run_with = rt_do n (Main_thread p u) in
     if \<not> fresh_for (l_rt (rx_life s)) p then None
     else case l_main (rx_life s) of
       M_on_start \<Rightarrow> map_option (mio_spawn_event_loop m) (run_with s)
     | M_on_shutdown \<Rightarrow> if rx_join s = Some (unat m) then run_with s else rx_mio_shutdown S may m s
     | _ \<Rightarrow> run_with s)"

subsection \<open>The tasks\<close>

text \<open>A loop that notifies has locked its slab.\<close>

definition unlocked :: "nat \<Rightarrow> ('u, 's) reactor \<Rightarrow> bool" where
  "unlocked c s = (case rx_at s (c_local (cells (net_mio (rx_net s)) c)) of X_notify _ \<Rightarrow> False | _ \<Rightarrow> True)"

fun may_lock :: "net_label \<Rightarrow> ('u, 's) reactor \<Rightarrow> bool" where
  "may_lock (net_label.Build c l) s = (l = Insert \<longrightarrow> unlocked c s)"
| "may_lock (Acceptor c d) s = unlocked c s"
| "may_lock (Reader c d) s = unlocked c s"
| "may_lock (Writer c d) s = unlocked c s"
| "may_lock (Close_half c rd) s = unlocked c s"
| "may_lock (Drop_cell c) s = (h_drop (hnds (rx_net s) c) = At_defer \<longrightarrow> unlocked c s)"
| "may_lock (Others a) s = False"
| "may_lock _ s = True"

text \<open>\<open>DispatcherInner::new(waker)\<close>: the dispatcher takes the waker over.\<close>

definition rx_attach :: "addr \<Rightarrow> nat \<Rightarrow> ('u, 's) reactor \<Rightarrow> ('u, 's) reactor" where
  "rx_attach d w s = s\<lparr>rx_status := (rx_status s)(d := D_MUTED), rx_waker := (rx_waker s)(d \<mapsto> w), rx_boxed := insert w (rx_boxed s)\<rparr>"

text \<open>
  \<open>Dispatcher::prepare_io\<close>, and one round of the loop of \<open>wait_io\<close>: \<open>weak\<close> makes its compare-exchange fail spuriously.
  A task takes these steps on a dispatcher it has; here they are possible at any time.
\<close>

definition prepare_io :: "addr \<Rightarrow> ('u, 's) reactor \<Rightarrow> ('u, 's) reactor" where
  "prepare_io d s = s\<lparr>rx_status := (rx_status s)(d := D_MUTED)\<rparr>"

definition wait_io :: "bool \<Rightarrow> addr \<Rightarrow> ('u, 's) reactor \<Rightarrow> ('u, 's) reactor" where
  "wait_io weak d s =
     (if rx_status s d = D_MUTED \<and> \<not> weak then s\<lparr>rx_status := (rx_status s)(d := 0)\<rparr> else s)"

definition on_half :: "bool \<Rightarrow> nat \<Rightarrow> (addr \<Rightarrow> ('u, 's) reactor \<Rightarrow> ('u, 's) reactor) \<Rightarrow> ('u, 's) reactor \<Rightarrow> ('u, 's) reactor option" where
  "on_half rd c f s = (case half rd (hnds (rx_net s) c) of Lent d \<Rightarrow> Some (f d s) | _ \<Rightarrow> None)"

text \<open>The end of \<open>Dispatcher::del\<close>: the dispatcher is dropped with its waker.\<close>

definition rx_detach :: "nat \<Rightarrow> addr \<Rightarrow> ('u, 's) reactor \<Rightarrow> ('u, 's) reactor option" where
  "rx_detach n d s =
     (case live_waker d s of
        None \<Rightarrow> Some (s\<lparr>rx_bad := True\<rparr>)
      | Some w \<Rightarrow> rt_do n (Drop_waker w) (s\<lparr>rx_waker := (rx_waker s)(d := None), rx_boxed := rx_boxed s - {w}\<rparr>))"

fun opens :: "net_label \<Rightarrow> addr option" where
  "opens (Acceptor c d) = Some d"
| "opens (Reader c d) = Some d"
| "opens (Writer c d) = Some d"
| "opens _ = None"

text \<open>A call of the socket interface; \<open>w\<close> is the waker that an acceptor, a reader or a writer gets.\<close>

definition rx_net_call :: "'s slab \<Rightarrow> os_poll \<Rightarrow> usize \<Rightarrow> nat \<Rightarrow> net_label \<Rightarrow> nat \<Rightarrow>
    ('u, 's) reactor \<Rightarrow> ('u, 's) reactor option" where
  "rx_net_call S may m n l w s =
     (if l_main (rx_life s) = M_on_start \<or> \<not> may_lock l s then None
      else case opens l of
        Some d \<Rightarrow> if l_wakers (rx_life s) w \<noteq> None \<and> w \<notin> rx_boxed s then map_option (rx_attach d w) (net_go S may m l s) else None
      | None \<Rightarrow>
         (case l of
            Close_half c rd \<Rightarrow>
              (case half rd (hnds (rx_net s) c) of Lent d \<Rightarrow> Option.bind (net_go S may m l s) (rx_detach n d) | _ \<Rightarrow> None)
          | _ \<Rightarrow> net_go S may m l s))"

datatype 'u xlabel =
    X_main addr 'u
  | X_event_loop nat "io_event list" addr
  | X_work nat "addr list" "'u call"
  | X_clone nat nat
  | X_drop_waker nat
  | X_net net_label nat
  | X_prepare_io bool nat
  | X_wait_io bool bool nat
  | X_wake nat nat         \<comment> \<open>a thread of the user invokes a waker\<close>

fun rx_do :: "'s slab \<Rightarrow> os_poll \<Rightarrow> usize \<Rightarrow> nat \<Rightarrow> 'u xlabel \<Rightarrow> ('u, 's) reactor \<Rightarrow> ('u, 's) reactor option" where
  "rx_do S may m n (X_main p u) s = rx_main S may m n p u s"
| "rx_do S may m n (X_event_loop i evs p) s = rx_loop S may m n i evs p s"
| "rx_do S may m n (X_work k ps c) s = (if life_env n (Work k ps c) (rx_life s) then rt_do n (Work k ps c) s else None)"
| "rx_do S may m n (X_clone w v) s = (if fresh_waker (rx_life s) v then rt_do n (Clone w v) s else None)"
| "rx_do S may m n (X_drop_waker w) s = (if w \<notin> rx_boxed s then rt_do n (Drop_waker w) s else None)"
| "rx_do S may m n (X_net l w) s = rx_net_call S may m n l w s"
| "rx_do S may m n (X_prepare_io rd c) s = on_half rd c prepare_io s"
| "rx_do S may m n (X_wait_io weak rd c) s = on_half rd c (wait_io weak) s"
| "rx_do S may m n (X_wake i w) s =
     (if n + unat m \<le> i \<and> w \<notin> rx_boxed s \<and> \<not> torn_down (l_main (rx_life s)) then rt_do n (Wake i w) s else None)"

text \<open>A fault ends the program.\<close>

definition rx_act :: "'s slab \<Rightarrow> os_poll \<Rightarrow> usize \<Rightarrow> nat \<Rightarrow> 'u xlabel \<Rightarrow> ('u, 's) reactor \<Rightarrow> ('u, 's) reactor option" where
  "rx_act S may m n a s = (if l_fault (rx_life s) = None \<and> \<not> rx_bad s then rx_do S may m n a s else None)"

text \<open>
  \<open>Dispatcher::new\<close>, called by a task that worker \<open>k\<close> runs: the \<open>WakerFuture\<close> clones the waker of the context, which
  becomes waker \<open>w\<close>, and \<open>new_from_waker\<close> is the step \<open>l\<close> of the sockets.
\<close>

definition WakerFuture_poll :: "nat \<Rightarrow> addr list \<Rightarrow> nat \<Rightarrow> 'u xlabel" where
  "WakerFuture_poll k ps w = X_work k ps (C_clone w)"

definition Dispatcher_new :: "nat \<Rightarrow> addr list \<Rightarrow> nat \<Rightarrow> net_label \<Rightarrow> 'u xlabel list" where
  "Dispatcher_new k ps w l = [WakerFuture_poll k ps w, X_net l w]"

definition rx_init :: "'s slab \<Rightarrow> usize \<Rightarrow> 'l parking_lot \<Rightarrow> u32 \<Rightarrow> 'u life \<Rightarrow> ('u, 's) reactor \<Rightarrow> bool" where
  "rx_init S m P n L0 s \<longleftrightarrow> life_init P n L0 \<and> rx_life s = L0 \<and> net_init S m (rx_net s) \<and> rx_at s = (\<lambda>_. X_none) \<and>
     rx_waker s = Map.empty \<and> rx_boxed s = {} \<and> rx_join s = None \<and> \<not> rx_bad s"

abbreviation rx_reach where
  "rx_reach S may m P n L0 \<equiv> reach (rx_init S m P n L0) (enabled (rx_act S may m (unat n)))"

end
