(* ===== verification/Reactor_Invariant.thy ===== *)
theory Reactor_Invariant
  imports Reactor
begin

text \<open>
  The invariant of the runtime with its reactor, and the simulation: every step of the composition is a step, or a
  few steps, of \<open>Lifecycle\<close> and of \<open>Sockets\<close>, each with its guards met.
\<close>

section \<open>What a step of the runtime leaves alone\<close>

text \<open>The batch of a thread, the main thread's place, and the live wakers.\<close>

lemma batch_LOCAL:
  "BatchGuard_new p i s = Inr s' \<Longrightarrow> LOCAL s' i = p"
  "BatchGuard_drop i s = Inr s' \<Longrightarrow> LOCAL s' i = null"
  by (auto simp: BatchGuard_new_def BatchGuard_drop_def bind_r_Inr_iff new_obj_def do_new_eq set_local_def on_mem_def Let_def
      split: if_splits)

text \<open>The frame of each sort of step, on the runtime threads from \<open>n\<close> on.\<close>

definition life_frame :: "nat \<Rightarrow> 'u llabel \<Rightarrow> 'u life \<Rightarrow> 'u life \<Rightarrow> bool" where
  "life_frame n a L M \<longleftrightarrow>
     (\<forall>i\<ge>n. LOCAL (l_rt M) i =
        (case a of Batch_new j p \<Rightarrow> if i = j then p else LOCAL (l_rt L) i
         | Batch_drop j \<Rightarrow> if i = j then null else LOCAL (l_rt L) i
         | _ \<Rightarrow> LOCAL (l_rt L) i)) \<and>
     (\<forall>w. l_wakers L w \<noteq> None \<longrightarrow> l_wakers M w \<noteq> None \<or> a = Drop_waker w) \<and>
     ((\<forall>p u. a \<noteq> Main_thread p u) \<longrightarrow> l_main M = l_main L)"

lemma life_frameI:
  assumes "LOCAL (l_rt M) = LOCAL (l_rt L)" "\<And>w. l_wakers L w \<noteq> None \<Longrightarrow> l_wakers M w \<noteq> None \<or> a = Drop_waker w"
    and "l_main M = l_main L \<or> (\<exists>p u. a = Main_thread p u)" "\<And>j p. a \<noteq> Batch_new j p" "\<And>j. a \<noteq> Batch_drop j"
  shows "life_frame n a L M"
  using assms by (cases a) (auto simp: life_frame_def)

lemma work_frame:
  assumes "work_ok n base k L M" "\<And>j p. a \<noteq> Batch_new j p" "\<And>j. a \<noteq> Batch_drop j"
  shows "life_frame n a L M"
  using assms by (intro life_frameI) (auto simp: work_ok_def)

lemma life_view: "life_inv n base L \<Longrightarrow> \<not> torn_down (l_main L) \<Longrightarrow> \<exists>ep e wps qs bs K. up_view n base L ep e wps qs bs K"
  by (drule life_invD(5)) (auto simp: life_up_def)

lemma main_frame:
  assumes inv: "life_inv n base L" and p: "fresh_for (l_rt L) p" and M: "life_main n p u L = Some M"
  shows "life_frame n (Main_thread p u) L M"
proof (cases "l_main L")
  case M_run
  then obtain ep e wps qs bs K where v: "up_view n base L ep e wps qs bs K" using life_view[OF inv] by (auto simp: torn_down_def)
  from run_main_ok[OF v p, of "User u" n] show ?thesis using M M_run
    by (auto simp: life_main_def l_do_def work_ok_def intro!: life_frameI)
next
  case M_drop
  then obtain ep e wps qs bs K where v: "up_view n base L ep e wps qs bs K" using life_view[OF inv] by (auto simp: torn_down_def)
  have "\<forall>k<n. l_pcs L k = W_exited" "\<forall>i\<ge>n. LOCAL (l_rt L) i = null"
    using life_invD(4)[OF inv] M_drop by (auto simp: life_main_ok_def)
  from teardown_ok[OF v this, of M_on_exit] show ?thesis using M M_drop
    by (auto simp: life_main_def l_do_def intro!: life_frameI)
qed (use M in \<open>auto simp: life_main_def Let_def intro!: life_frameI split: if_splits\<close>)

lemma life_act_frame:
  assumes inv: "life_inv n base L" and env: "life_env n a L" and M: "life_act n a L = Some M"
  shows "life_frame n a L M"
proof -
  note d = life_invD[OF inv]
  have down: "\<forall>k<n. l_pcs L k = W_exited" "\<forall>i\<ge>n. LOCAL (l_rt L) i = null" if "torn_down (l_main L)"
    using that d(4) by (auto simp: torn_down_def life_main_ok_def)
  have inv': "life_inv n base M" by (rule life_step_inv[OF inv]) (use env M d(1) in \<open>auto simp: life_step_def\<close>)
  show ?thesis
  proof (cases a)
    case (Work k ps c)
    then have k: "k < n" "fresh_list n (l_rt L) ps" "call_env n c L" "life_work k ps c L = Some M" using env M by auto
    have "\<not> torn_down (l_main L)" using down(1) k(1,4) by (auto simp: life_work_def)
    then obtain ep e wps qs bs K where "up_view n base L ep e wps qs bs K" using life_view[OF inv] by blast
    from life_work_ok[OF this k(1-3) d(2) k(4)] show ?thesis using work_frame Work by blast
  next
    case (Main_thread p u)
    then show ?thesis using main_frame[OF inv] env M by simp
  next
    case (Wake i w)
    then obtain t where t: "l_wakers L w = Some t" "M = on_rt (fn_wake_by_ref i t) L" "n \<le> i" "\<not> torn_down (l_main L)" using env M by auto
    then obtain ep e wps qs bs K where "up_view n base L ep e wps qs bs K" using life_view[OF inv] by blast
    from wake_ok[OF this d(2) t(1,3), of n] show ?thesis using work_frame t(2) Wake by blast
  next
    case (Clone w v)
    then obtain t where t: "l_wakers L w = Some t" "fresh_waker L v"
      "M = l_do (fn_clone t (l_rt L)) (\<lambda>s. L\<lparr>l_rt := s, l_wakers := (l_wakers L)(v \<mapsto> t)\<rparr>) L" using env M by auto
    obtain s' where "fn_clone t (l_rt L) = Inr s'" "LOCAL s' = LOCAL (l_rt L)"
    proof (cases "torn_down (l_main L)")
      case True
      then show ?thesis using clone_down[OF d(6)[OF True] d(2) t(1,2)] that by blast
    next
      case False
      then obtain ep e wps qs bs K where v: "up_view n base L ep e wps qs bs K" using life_view[OF inv] by blast
      have "K t \<noteq> Absent" by (rule waker_task[OF mem_viewD(3)[OF up_viewD(3)[OF v]] d(2) t(1)])
      from clone_ok[OF v this t(2) d(2), of n] d(1) show ?thesis by (auto simp: work_ok_def l_do_def intro: that split: sum.splits)
    qed
    then show ?thesis using t(3) Clone by (auto simp: l_do_def intro!: life_frameI)
  next
    case (Drop_waker w)
    then obtain t where t: "l_wakers L w = Some t"
      "M = l_do (fn_drop t (l_rt L)) (\<lambda>s. L\<lparr>l_rt := s, l_wakers := (l_wakers L)(w := None)\<rparr>) L" using M by auto
    obtain s' where "fn_drop t (l_rt L) = Inr s'" "LOCAL s' = LOCAL (l_rt L)"
      using drop_waker_down[OF d(6) d(2) t(1)] drop_waker_up[OF _ d(2) t(1)] life_view[OF inv] by metis
    then show ?thesis using t(2) Drop_waker by (auto simp: l_do_def intro!: life_frameI)
  next
    case (Batch_new i p)
    then have i: "n \<le> i" "LOCAL (l_rt L) i = null" "fresh_for (l_rt L) p" "\<not> torn_down (l_main L)"
      "M = on_rt (BatchGuard_new p i) L" using env M by auto
    then obtain ep e wps qs bs K where v: "up_view n base L ep e wps qs bs K" using life_view[OF inv] by blast
    have "LOCAL (l_rt M) i = p" using i(5) life_invD(1)[OF inv'] batch_LOCAL(1) by (auto simp: on_rt_def l_do_def split: sum.splits)
    then show ?thesis using batch_new_ok[OF v i(1-3)] Batch_new i(5) by (auto simp: batch_ok_def life_frame_def)
  next
    case (Batch_push i)
    then have i: "n \<le> i" "LOCAL (l_rt L) i \<noteq> null" "M = on_rt (push_batch i) L" using env M by auto
    then have "\<not> torn_down (l_main L)" using down(2) by auto
    then obtain ep e wps qs bs K where v: "up_view n base L ep e wps qs bs K" using life_view[OF inv] by blast
    from push_batch_view[OF v i(1,2)] obtain s' where "push_batch i (l_rt L) = Inr s'" "LOCAL s' = LOCAL (l_rt L)" by blast
    then show ?thesis using Batch_push i(3) by (auto simp: on_rt_def l_do_def intro!: life_frameI)
  next
    case (Batch_drop i)
    then have i: "n \<le> i" "LOCAL (l_rt L) i \<noteq> null" "M = on_rt (BatchGuard_drop i) L" using env M by auto
    then have "\<not> torn_down (l_main L)" using down(2) by auto
    then obtain ep e wps qs bs K where v: "up_view n base L ep e wps qs bs K" using life_view[OF inv] by blast
    have "LOCAL (l_rt M) i = null" using i(3) life_invD(1)[OF inv'] batch_LOCAL(2) by (auto simp: on_rt_def l_do_def split: sum.splits)
    then show ?thesis using batch_drop_ok[OF v i(1,2)] Batch_drop i(3) by (auto simp: batch_ok_def life_frame_def)
  qed
qed


section \<open>What a call of the sockets leaves alone\<close>

text \<open>What is lent stays lent, in the same loop, until it is given back.\<close>

lemma half_upd:
  "half rd' (set_half rd x h) = (if rd' = rd then x else half rd' h)" "half rd (h\<lparr>h_drop := a\<rparr>) = half rd h"
  "half rd' (drop_half rd h) = (if rd' = rd then Gone else half rd' h)" "half rd (no_handle k) = Gone" "half rd (new_handles h) \<noteq> Lent d \<or> half rd h = Lent d"
  by (auto simp: half_def set_half_def drop_half_def no_handle_def new_handles_def Let_def split: socket_kind.splits)

lemma lent_live:
  assumes "net_inv S m N" "half rd (hnds N c) = Lent d"
  shows "c_pc (cells (net_mio N) c) = C_live" "d \<noteq> null"
  using half_live[OF net_invD(2)[OF assms(1), of c], of rd] assms(2) by simp_all

lemma lent_unique:
  assumes inv: "net_inv S m N" and d: "half rd (hnds N c) = Lent d" "half rd' (hnds N c') = Lent d"
  shows "c' = c \<and> rd' = rd"
proof -
  have at: "d \<in> ptrs (cells (net_mio N) e) \<and> (if r then c_reader (cells (net_mio N) e) else c_writer (cells (net_mio N) e)) = d"
    if "half r (hnds N e) = Lent d" for r e
    using half_live[OF net_invD(2)[OF inv, of e], of r] lent_live[OF inv that] that
    by (auto simp: ptrs_def lent_def split: if_splits)
  note heap = mio_invD(4)[OF net_invD(1)[OF inv], unfolded heap_ok_def]
  have "c' = c" using at[OF d(1)] at[OF d(2)] heap by blast
  moreover have "c_reader (cells (net_mio N) c) \<noteq> c_writer (cells (net_mio N) c) \<or> c_reader (cells (net_mio N) c) = null"
    using heap lent_live(1)[OF inv d(1)] by blast
  then have "rd' = rd" using at[OF d(1)] at[OF d(2)] lent_live(2)[OF inv d(1)] unfolding \<open>c' = c\<close> by (cases rd; cases rd') auto
  ultimately show ?thesis by blast
qed

lemma mio_act_live:
  assumes "c_pc (cells M c) = C_live"
  shows "l \<in> {New, Insert, Register True, Register False} \<Longrightarrow> mio_act S may m (Socket c l) M = None"
    "mio_act S may m a M = Some M' \<Longrightarrow> c_local (cells M' c) = c_local (cells M c)"
proof -
  show "mio_act S may m (Socket c l) M = None" if "l \<in> {New, Insert, Register True, Register False}"
    using assms that by (auto simp: cell_step_def)
  show "c_local (cells M' c) = c_local (cells M c)" if "mio_act S may m a M = Some M'"
    using that assms loop_frame
    by (cases a) (fastforce simp: cell_step_def attach_def del_def drop_cell_def Let_def pick_local_def mod_checked_def
        split: cpc.splits clabel.splits if_splits sum.splits option.splits prod.splits)+
qed

lemma net_act_lent:
  assumes inv: "net_inv S m N" and act: "net_act S may m l N = Some N'"
  shows "half rd (hnds N' c) = Lent d \<Longrightarrow> half rd (hnds N c) = Lent d \<or> opens l = Some d"
    "half rd (hnds N c) = Lent d \<Longrightarrow> l \<noteq> Close_half c rd \<Longrightarrow> half rd (hnds N' c) = Lent d"
proof -
  have do: "net_do S may m l N = Some N'" using act by (auto simp: net_act_def split: if_splits)
  note defs = TcpListenerHandle_bind_def TcpStream_connect_def TcpListenerAcceptor_accept_def build_handles_def
    TcpListenerHandle_acceptor_def TcpStreamReadHandle_reader_def TcpStreamWriteHandle_writer_def MIO_new_def MIO_drop_def
    MIOHandle_drop_def MIOCell_drop_def set_hnd_def
  show "half rd (hnds N c) = Lent d \<or> opens l = Some d" if "half rd (hnds N' c) = Lent d"
    using that do half_upd(5)[of rd "hnds N c" d]
    by (cases l) (auto simp: defs half_upd(1-4) simp del: mio_act.simps split: if_splits socket_handle.splits drop_at.splits mlabel.splits)
  show "half rd (hnds N' c) = Lent d" if lent: "half rd (hnds N c) = Lent d" "l \<noteq> Close_half c rd"
  proof -
    note none = mio_act_live(1)[OF lent_live(1)[OF inv lent(1)], where S = S and may = may and m = m]
    have new: "mio_act S may m (Socket c New) (net_mio N) = None" by (rule none) simp
    have build: "mio_act S may m (Socket c Insert) (net_mio N) = None" "mio_act S may m (Socket c (Register b)) (net_mio N) = None" for b
      by (rule none, simp) (rule none, cases b, simp_all)
    show ?thesis using lent do new build
      by (cases l) (auto simp: defs half_upd(1-4) simp del: mio_act.simps split: if_splits socket_handle.splits drop_at.splits mlabel.splits)
  qed
qed

lemma net_act_local:
  assumes "net_inv S m N" "net_act S may m l N = Some N'" "half rd (hnds N c) = Lent d"
  shows "c_local (cells (net_mio N') c) = c_local (cells (net_mio N) c)"
  using net_sim[OF assms(1,2)] mio_act_live(2)[OF lent_live(1)[OF assms(1,3)]] by metis

section \<open>The invariant\<close>

text \<open>The loops exist from \<open>on_start\<close> on; \<open>on_shutdown\<close> returns when all of them have ended.\<close>

definition past_shutdown :: "main_pc \<Rightarrow> bool" where
  "past_shutdown pc \<longleftrightarrow> pc = M_drop \<or> torn_down pc"

definition shutdown_phase :: "usize \<Rightarrow> main_pc \<Rightarrow> nat option \<Rightarrow> (nat \<Rightarrow> x_pc) \<Rightarrow> bool" where
  "shutdown_phase m pc jn at \<longleftrightarrow> (pc = M_on_start \<longrightarrow> jn = None \<and> at = (\<lambda>_. X_none)) \<and> (\<forall>i\<ge>unat m. at i = X_none) \<and>
     (\<forall>k. jn = Some k \<longrightarrow> k \<le> unat m \<and> (\<forall>i<k. at i = X_end)) \<and> (past_shutdown pc \<longrightarrow> jn = Some (unat m))"

text \<open>A loop has a \<open>BatchGuard\<close> while it runs, and no other thread has.\<close>

definition in_batch :: "x_pc \<Rightarrow> bool" where
  "in_batch pc \<longleftrightarrow> (case pc of X_loop \<Rightarrow> True | X_notify _ \<Rightarrow> True | _ \<Rightarrow> False)"

definition guards_ok :: "nat \<Rightarrow> (tid \<Rightarrow> addr) \<Rightarrow> (nat \<Rightarrow> x_pc) \<Rightarrow> bool" where
  "guards_ok n loc at \<longleftrightarrow> (\<forall>i. loc (n + i) \<noteq> null \<longleftrightarrow> in_batch (at i))"

text \<open>Every dispatcher that a socket has lent owns a waker of its own, which is live.\<close>

definition boxed_ok :: "(nat \<rightharpoonup> addr) \<Rightarrow> (addr \<rightharpoonup> nat) \<Rightarrow> nat set \<Rightarrow> (nat \<Rightarrow> shared_cell) \<Rightarrow> bool" where
  "boxed_ok W V B H \<longleftrightarrow> (\<forall>d w. V d = Some w \<longrightarrow> w \<in> B \<and> W w \<noteq> None) \<and> (\<forall>d e w. V d = Some w \<and> V e = Some w \<longrightarrow> d = e) \<and>
     (\<forall>c rd d. half rd (H c) = Lent d \<longrightarrow> V d \<noteq> None)"

text \<open>What a loop is about to notify is lent by a socket of that loop.\<close>

definition notices_ok :: "(nat \<Rightarrow> x_pc) \<Rightarrow> 's net \<Rightarrow> bool" where
  "notices_ok at N \<longleftrightarrow> (\<forall>i ns d. at i = X_notify ns \<and> Notify d \<in> set ns \<longrightarrow>
     (\<exists>c rd. half rd (hnds N c) = Lent d \<and> c_local (cells (net_mio N) c) = i))"

definition rx_inv :: "'s slab \<Rightarrow> usize \<Rightarrow> nat \<Rightarrow> 'u fut obj heap \<Rightarrow> ('u, 's) reactor \<Rightarrow> bool" where
  "rx_inv S m n base s \<longleftrightarrow> life_inv n base (rx_life s) \<and> net_inv S m (rx_net s) \<and> \<not> rx_bad s \<and>
     shutdown_phase m (l_main (rx_life s)) (rx_join s) (rx_at s) \<and> guards_ok n (LOCAL (l_rt (rx_life s))) (rx_at s) \<and>
     boxed_ok (l_wakers (rx_life s)) (rx_waker s) (rx_boxed s) (hnds (rx_net s)) \<and> notices_ok (rx_at s) (rx_net s)"

lemma rx_invD:
  assumes "rx_inv S m n base s"
  shows "life_inv n base (rx_life s)" "net_inv S m (rx_net s)" "\<not> rx_bad s"
    "shutdown_phase m (l_main (rx_life s)) (rx_join s) (rx_at s)" "guards_ok n (LOCAL (l_rt (rx_life s))) (rx_at s)"
    "boxed_ok (l_wakers (rx_life s)) (rx_waker s) (rx_boxed s) (hnds (rx_net s))" "notices_ok (rx_at s) (rx_net s)"
  using assms by (simp_all add: rx_inv_def)

lemma rx_inv_status [simp]: "rx_inv S m n base (s\<lparr>rx_status := f\<rparr>) = rx_inv S m n base s"
  by (simp add: rx_inv_def)

text \<open>A step of the composition, as steps of the two parts.\<close>

definition sim :: "'s slab \<Rightarrow> os_poll \<Rightarrow> usize \<Rightarrow> nat \<Rightarrow> 'u fut obj heap \<Rightarrow>
    ('u, 's) reactor \<Rightarrow> ('u, 's) reactor \<Rightarrow> bool" where
  "sim S may m n base s t \<longleftrightarrow> rx_inv S m n base t \<and> (life_step n)\<^sup>*\<^sup>* (rx_life s) (rx_life t) \<and>
     (enabled (net_act S may m))\<^sup>*\<^sup>* (rx_net s) (rx_net t)"

lemma sim_status: "rx_inv S m n base s \<Longrightarrow> sim S may m n base s (s\<lparr>rx_status := f\<rparr>)"
  by (simp add: sim_def)

lemma sim_trans: "sim S may m n base s t \<Longrightarrow> sim S may m n base t u \<Longrightarrow> sim S may m n base s u"
  by (auto simp: sim_def)

text \<open>A step of the runtime.\<close>

lemma rt_doD:
  assumes inv: "rx_inv S m n base s" and env: "life_env n a (rx_life s)" and do: "rt_do n a s = Some t"
  shows "t = s\<lparr>rx_life := rx_life t\<rparr>" "life_step n (rx_life s) (rx_life t)" "life_inv n base (rx_life t)"
    "life_frame n a (rx_life s) (rx_life t)"
proof -
  obtain L where L: "life_act n a (rx_life s) = Some L" "t = s\<lparr>rx_life := L\<rparr>" using do by (auto simp: rt_do_def)
  have step: "life_step n (rx_life s) L" using env L(1) life_invD(1)[OF rx_invD(1)[OF inv]] by (auto simp: life_step_def)
  show "t = s\<lparr>rx_life := rx_life t\<rparr>" "life_step n (rx_life s) (rx_life t)" using L step by simp_all
  show "life_inv n base (rx_life t)" using life_step_inv[OF rx_invD(1)[OF inv] step] L by simp
  show "life_frame n a (rx_life s) (rx_life t)" using life_act_frame[OF rx_invD(1)[OF inv] env L(1)] L by simp
qed

lemma boxed_frame:
  assumes "boxed_ok W V B H" "\<And>w. w \<in> B \<Longrightarrow> W w \<noteq> None \<Longrightarrow> W' w \<noteq> None"
  shows "boxed_ok W' V B H"
  unfolding boxed_ok_def
proof (intro conjI allI impI)
  fix d w assume "V d = Some w"
  then have "w \<in> B \<and> W w \<noteq> None" using assms(1) unfolding boxed_ok_def by blast
  then show "w \<in> B" "W' w \<noteq> None" using assms(2) by blast+
qed (use assms(1) in \<open>unfold boxed_ok_def, blast\<close>)+

lemma rt_quiet:
  assumes inv: "rx_inv S m n base s" and env: "life_env n a (rx_life s)" and do: "rt_do n a s = Some t"
    and a: "\<And>j p. a \<noteq> Batch_new j p" "\<And>j. a \<noteq> Batch_drop j" "\<And>p u. a \<noteq> Main_thread p u" "\<And>w. a = Drop_waker w \<Longrightarrow> w \<notin> rx_boxed s"
  shows "sim S may m n base s t"
proof -
  note t = rt_doD[OF inv env do] and d = rx_invD[OF inv]
  have f: "\<forall>i\<ge>n. LOCAL (l_rt (rx_life t)) i = LOCAL (l_rt (rx_life s)) i" "l_main (rx_life t) = l_main (rx_life s)"
    "\<And>w. w \<in> rx_boxed s \<Longrightarrow> l_wakers (rx_life s) w \<noteq> None \<Longrightarrow> l_wakers (rx_life t) w \<noteq> None"
    using t(4) a by (cases a; auto simp: life_frame_def)+
  obtain L where L: "t = s\<lparr>rx_life := L\<rparr>" using t(1) by blast
  have "guards_ok n (LOCAL (l_rt (rx_life t))) (rx_at s)" using d(5) f(1) by (simp add: guards_ok_def)
  moreover have "boxed_ok (l_wakers (rx_life t)) (rx_waker s) (rx_boxed s) (hnds (rx_net s))"
    by (rule boxed_frame[OF d(6)]) (rule f(3))
  ultimately have "rx_inv S m n base t" using d t(3) f(2) unfolding rx_inv_def by (simp add: L)
  then show ?thesis using t(2) by (simp add: sim_def L)
qed

text \<open>A step of the sockets or of a loop that neither lends nor takes back a dispatcher.\<close>

lemma net_goD:
  assumes ops: "slab_ops S" "poll_events may" "m \<noteq> 0"
    and inv: "rx_inv S m n base s" and go: "net_go S may m l s = Some t"
  shows "t = s\<lparr>rx_net := rx_net t\<rparr>" "net_act S may m l (rx_net s) = Some (rx_net t)" "net_inv S m (rx_net t)"
  using go slab_ops.net_act_inv[OF ops(1) rx_invD(2)[OF inv] ops(3,2)] by (auto simp: net_go_def)

lemma boxed_net:
  assumes "boxed_ok W V B H" "\<And>c rd d. half rd (H' c) = Lent d \<Longrightarrow> half rd (H c) = Lent d"
  shows "boxed_ok W V B H'"
  using assms unfolding boxed_ok_def by blast

lemma notices_net:
  assumes inv: "net_inv S m N" and act: "net_act S may m l N = Some N'" and ok: "notices_ok at N"
    and close: "\<And>c rd ns. l = Close_half c rd \<Longrightarrow> at (c_local (cells (net_mio N) c)) \<noteq> X_notify ns"
  shows "notices_ok at N'"
  unfolding notices_ok_def
proof (intro allI impI, elim conjE)
  fix i ns d assume x: "at i = X_notify ns" "Notify d \<in> set ns"
  then obtain c rd where c: "half rd (hnds N c) = Lent d" "c_local (cells (net_mio N) c) = i"
    using ok unfolding notices_ok_def by blast
  have "l \<noteq> Close_half c rd" using close x(1) c(2) by blast
  then have "half rd (hnds N' c) = Lent d" "c_local (cells (net_mio N') c) = i"
    using net_act_lent(2)[OF inv act c(1)] net_act_local[OF inv act c(1)] c(2) by simp_all
  then show "\<exists>c rd. half rd (hnds N' c) = Lent d \<and> c_local (cells (net_mio N') c) = i" by blast
qed

lemma net_quiet:
  assumes ops: "slab_ops S" "poll_events may" "m \<noteq> 0"
    and inv: "rx_inv S m n base s" and go: "net_go S may m l s = Some t" and l: "opens l = None" "\<And>c rd. l \<noteq> Close_half c rd"
  shows "sim S may m n base s t"
proof -
  note t = net_goD[OF ops inv go] and d = rx_invD[OF inv]
  obtain N where N: "t = s\<lparr>rx_net := N\<rparr>" using t(1) by blast
  have "boxed_ok (l_wakers (rx_life s)) (rx_waker s) (rx_boxed s) (hnds N)"
    by (rule boxed_net[OF d(6)]) (use net_act_lent(1)[OF d(2) t(2)] l(1) N in auto)
  moreover have "notices_ok (rx_at s) N"
    by (rule notices_net[OF d(2) _ d(7), of may l]) (use t(2) l(2) N in auto)
  ultimately have "rx_inv S m n base t" using d t(3) by (simp add: rx_inv_def N)
  moreover have "enabled (net_act S may m) (rx_net s) (rx_net t)" using t(2) by (auto simp: enabled_def)
  ultimately show ?thesis by (simp add: sim_def N)
qed

text \<open>An acceptor, a reader or a writer is made, or dropped.\<close>

lemma boxed_attach:
  assumes ok: "boxed_ok W V B H" and w: "W w \<noteq> None" "w \<notin> B"
    and lent: "\<And>rd c e. half rd (H' c) = Lent e \<Longrightarrow> half rd (H c) = Lent e \<or> e = d"
  shows "boxed_ok W (V(d \<mapsto> w)) (insert w B) H'"
proof -
  have v: "x \<in> B \<and> W x \<noteq> None" if "V e = Some x" for e x using ok that unfolding boxed_ok_def by blast
  have inj: "e = f" if "V e = Some x" "V f = Some x" for e f x using ok that unfolding boxed_ok_def by blast
  have dom: "V e \<noteq> None \<or> e = d" if "half rd (H' c) = Lent e" for rd c e using ok lent[OF that] unfolding boxed_ok_def by blast
  show ?thesis unfolding boxed_ok_def
  proof (intro conjI allI impI)
    fix e x assume "(V(d \<mapsto> w)) e = Some x"
    then show "x \<in> insert w B" "W x \<noteq> None" using v[of e x] w(1) by (cases "e = d"; auto)+
  next
    fix e f x assume "(V(d \<mapsto> w)) e = Some x \<and> (V(d \<mapsto> w)) f = Some x"
    then show "e = f" using v[of e x] v[of f x] inj[of e x f] w(2) by (cases "e = d"; cases "f = d") auto
  next
    fix c rd e assume "half rd (H' c) = Lent e"
    then show "(V(d \<mapsto> w)) e \<noteq> None" using dom[of rd c e] by auto
  qed
qed

lemma boxed_detach:
  assumes ok: "boxed_ok W V B H" and w: "V d = Some w"
    and lent: "\<And>rd c e. half rd (H' c) = Lent e \<Longrightarrow> half rd (H c) = Lent e \<and> e \<noteq> d"
  shows "boxed_ok W (V(d := None)) (B - {w}) H'"
proof -
  have v: "x \<in> B \<and> W x \<noteq> None" if "V e = Some x" for e x using ok that unfolding boxed_ok_def by blast
  have inj: "e = f" if "V e = Some x" "V f = Some x" for e f x using ok that unfolding boxed_ok_def by blast
  have dom: "V e \<noteq> None \<and> e \<noteq> d" if "half rd (H' c) = Lent e" for rd c e using ok lent[OF that] unfolding boxed_ok_def by blast
  show ?thesis unfolding boxed_ok_def
  proof (intro conjI allI impI)
    fix e x assume "(V(d := None)) e = Some x"
    then show "x \<in> B - {w}" "W x \<noteq> None" using v[of e x] inj[of e x d] w by (cases "e = d"; auto)+
  next
    fix e f x assume "(V(d := None)) e = Some x \<and> (V(d := None)) f = Some x"
    then show "e = f" using inj[of e x f] by (cases "e = d"; cases "f = d") auto
  next
    fix c rd e assume "half rd (H' c) = Lent e"
    then show "(V(d := None)) e \<noteq> None" using dom[of rd c e] by auto
  qed
qed

lemma attach_sim:
  assumes ops: "slab_ops S" "poll_events may" "m \<noteq> 0"
    and inv: "rx_inv S m n base s" and go: "net_go S may m l s = Some t" and l: "opens l = Some d"
    and w: "l_wakers (rx_life s) w \<noteq> None" "w \<notin> rx_boxed s"
  shows "sim S may m n base s (rx_attach d w t)"
proof -
  note t = net_goD[OF ops inv go] and d = rx_invD[OF inv]
  obtain N where N: "t = s\<lparr>rx_net := N\<rparr>" using t(1) by blast
  have lent: "half rd (hnds (rx_net s) c) = Lent e \<or> e = d" if "half rd (hnds N c) = Lent e" for rd c e
    using net_act_lent(1)[OF d(2) t(2), of rd c e] that l N by auto
  have "boxed_ok (l_wakers (rx_life s)) ((rx_waker s)(d \<mapsto> w)) (insert w (rx_boxed s)) (hnds N)"
    by (rule boxed_attach[OF d(6) w lent])
  moreover have "notices_ok (rx_at s) N"
    by (rule notices_net[OF d(2) _ d(7), of may l]) (use t(2) l N in auto)
  ultimately have "rx_inv S m n base (rx_attach d w t)" using d t(3) by (simp add: rx_inv_def rx_attach_def N)
  moreover have "enabled (net_act S may m) (rx_net s) (rx_net t)" using t(2) by (auto simp: enabled_def)
  ultimately show ?thesis by (simp add: sim_def rx_attach_def N)
qed

lemma live_waker_lent:
  assumes "boxed_ok (l_wakers (rx_life s)) (rx_waker s) B H" "half rd (H c) = Lent d"
  shows "\<exists>w. live_waker d s = Some w \<and> rx_waker s d = Some w \<and> w \<in> B"
proof -
  obtain w where w: "rx_waker s d = Some w" using assms unfolding boxed_ok_def by blast
  then have "w \<in> B \<and> l_wakers (rx_life s) w \<noteq> None" using assms(1) unfolding boxed_ok_def by blast
  then show ?thesis using w by (simp add: live_waker_def)
qed

lemma detach_sim:
  assumes ops: "slab_ops S" "poll_events may" "m \<noteq> 0"
    and inv: "rx_inv S m n base s" and go: "net_go S may m (Close_half c rd) s = Some t"
    and c: "half rd (hnds (rx_net s) c) = Lent d" "unlocked c s" and u: "rx_detach n d t = Some u"
  shows "sim S may m n base s u"
proof -
  note t = net_goD[OF ops inv go] and d = rx_invD[OF inv]
  obtain N where N: "t = s\<lparr>rx_net := N\<rparr>" using t(1) by blast
  obtain w where w: "live_waker d s = Some w" "rx_waker s d = Some w" "w \<in> rx_boxed s" using live_waker_lent[OF d(6) c(1)] by blast
  let ?s = "t\<lparr>rx_waker := (rx_waker s)(d := None), rx_boxed := rx_boxed s - {w}\<rparr>"
  have owned: "half rd (hnds N c) = Owned"
    using t(2) c(1) by (auto simp: N net_act_def MIO_drop_def set_hnd_def half_upd(1) split: if_splits)
  have lent: "half r (hnds (rx_net s) b) = Lent e \<and> e \<noteq> d" if "half r (hnds N b) = Lent e" for r b e
  proof -
    have "half r (hnds (rx_net s) b) = Lent e" using net_act_lent(1)[OF d(2) t(2), of r b e] that N by simp
    then show ?thesis using lent_unique[OF d(2) c(1), of r b] that owned by auto
  qed
  have "boxed_ok (l_wakers (rx_life s)) ((rx_waker s)(d := None)) (rx_boxed s - {w}) (hnds N)"
    by (rule boxed_detach[OF d(6) w(2) lent])
  moreover have "notices_ok (rx_at s) N"
    by (rule notices_net[OF d(2) _ d(7), of may "Close_half c rd"]) (use t(2) c(2) N in \<open>auto simp: unlocked_def\<close>)
  ultimately have inv': "rx_inv S m n base ?s" using d t(3) by (simp add: rx_inv_def N)
  have "enabled (net_act S may m) (rx_net s) (rx_net t)" using t(2) by (auto simp: enabled_def)
  with inv' have "sim S may m n base s ?s" by (simp add: sim_def N)
  moreover have "live_waker d t = Some w" using w(1) by (simp add: live_waker_def N cong: if_cong option.case_cong)
  then have "rt_do n (Drop_waker w) (t\<lparr>rx_waker := (rx_waker t)(d := None), rx_boxed := rx_boxed t - {w}\<rparr>) = Some u"
    using u by (simp add: rx_detach_def)
  then have "rt_do n (Drop_waker w) ?s = Some u" by (simp add: N)
  from rt_quiet[OF inv' _ this] have "sim S may m n base ?s u" by simp
  ultimately show ?thesis by (rule sim_trans)
qed

lemma net_call_sim:
  assumes ops: "slab_ops S" "poll_events may" "m \<noteq> 0"
    and inv: "rx_inv S m n base s" and call: "rx_net_call S may m n l w s = Some t"
  shows "sim S may m n base s t"
proof (cases "opens l")
  case (Some d)
  then obtain u where "net_go S may m l s = Some u" "t = rx_attach d w u" "l_wakers (rx_life s) w \<noteq> None" "w \<notin> rx_boxed s"
    using call by (auto simp: rx_net_call_def split: if_splits)
  then show ?thesis using attach_sim[OF ops inv _ Some] by blast
next
  case None
  have lock: "may_lock l s" using call by (auto simp: rx_net_call_def split: if_splits)
  show ?thesis
  proof (cases "\<exists>c rd. l = Close_half c rd")
    case True
    then obtain c rd where l: "l = Close_half c rd" by blast
    obtain d u where "half rd (hnds (rx_net s) c) = Lent d" "net_go S may m l s = Some u" "rx_detach n d u = Some t"
      using call by (auto simp: rx_net_call_def l split: if_splits socket_handle.splits bind_splits)
    then show ?thesis using detach_sim[OF ops inv, of c rd] lock by (auto simp: l)
  next
    case False
    then have "net_go S may m l s = Some t" using call None by (auto simp: rx_net_call_def split: if_splits net_label.splits)
    then show ?thesis using net_quiet[OF ops inv _ None] False by blast
  qed
qed

section \<open>The event loops\<close>

lemma phase_go:
  assumes "shutdown_phase m pc jn at" "at i \<noteq> X_none" "at i \<noteq> X_end"
  shows "shutdown_phase m pc jn (at(i := x))" "\<not> past_shutdown pc" "pc \<noteq> M_on_start"
proof -
  have i: "i < unat m" using assms(1,2) by (meson not_le shutdown_phase_def)
  then show "\<not> past_shutdown pc" "pc \<noteq> M_on_start" using assms by (auto simp: shutdown_phase_def)
  then show "shutdown_phase m pc jn (at(i := x))" using assms i by (auto simp: shutdown_phase_def)
qed

lemma x_go_sim:
  assumes inv: "rx_inv S m n base s" and pc: "in_batch (rx_at s i)" "in_batch pc"
    and ns: "\<And>ns d. pc = X_notify ns \<Longrightarrow> Notify d \<in> set ns \<Longrightarrow>
      \<exists>c rd. half rd (hnds (rx_net s) c) = Lent d \<and> c_local (cells (net_mio (rx_net s)) c) = i"
  shows "sim S may m n base s (x_go i pc s)"
proof -
  note d = rx_invD[OF inv]
  have at: "rx_at s i \<noteq> X_none" "rx_at s i \<noteq> X_end" using pc(1) by (auto simp: in_batch_def)
  have "guards_ok n (LOCAL (l_rt (rx_life s))) ((rx_at s)(i := pc))" using d(5) pc by (simp add: guards_ok_def)
  moreover have "notices_ok ((rx_at s)(i := pc)) (rx_net s)" using d(7) ns by (auto simp: notices_ok_def)
  ultimately have "rx_inv S m n base (x_go i pc s)" using d phase_go(1)[OF d(4) at] by (simp add: rx_inv_def x_go_def)
  then show ?thesis by (simp add: sim_def x_go_def)
qed

text \<open>The guard is made and dropped.\<close>

lemma guard_sim:
  assumes inv: "rx_inv S m n base s" and at: "rx_at s i \<noteq> X_none" "rx_at s i \<noteq> X_end"
    and env: "life_env n a (rx_life s)" and do: "rt_do n a s = Some t"
    and a: "a = Batch_new (n + i) p \<and> p \<noteq> null \<and> pc = X_loop \<or> a = Batch_drop (n + i) \<and> pc = X_end"
  shows "sim S may m n base s (x_go i pc t)"
proof -
  note t = rt_doD[OF inv env do] and d = rx_invD[OF inv]
  obtain L where L: "t = s\<lparr>rx_life := L\<rparr>" using t(1) by blast
  have f: "LOCAL (l_rt L) (n + i) \<noteq> null \<longleftrightarrow> in_batch pc" "\<And>j. j \<noteq> i \<Longrightarrow> LOCAL (l_rt L) (n + j) = LOCAL (l_rt (rx_life s)) (n + j)"
    "l_main L = l_main (rx_life s)" "\<And>w. l_wakers (rx_life s) w \<noteq> None \<Longrightarrow> l_wakers L w \<noteq> None"
    using t(4) a by (auto simp: life_frame_def L in_batch_def)
  have "guards_ok n (LOCAL (l_rt L)) ((rx_at s)(i := pc))" using d(5) f(1,2) by (simp add: guards_ok_def)
  moreover have "boxed_ok (l_wakers L) (rx_waker s) (rx_boxed s) (hnds (rx_net s))" by (rule boxed_frame[OF d(6)]) (rule f(4))
  moreover have "notices_ok ((rx_at s)(i := pc)) (rx_net s)" using d(7) a by (auto simp: notices_ok_def)
  ultimately have "rx_inv S m n base (x_go i pc t)"
    using d t(3) f(3) phase_go(1)[OF d(4) at] by (simp add: rx_inv_def x_go_def L)
  then show ?thesis using t(2) by (simp add: sim_def x_go_def L)
qed

text \<open>What a loop finds out from the events is lent by its own sockets.\<close>

lemma dispatch_lent:
  assumes ops: "slab_ops S" and inv: "net_inv S m N" and i: "i < unat m" and at: "l_pc (locals (net_mio N) i) = E_dispatch es"
    and act: "net_act S may m (Others (Loop i evs)) N = Some N'"
    and d: "Notify d \<in> set (drop (length (l_notices (locals (net_mio N) i))) (l_notices (locals (net_mio N') i)))"
  shows "\<exists>c rd. half rd (hnds N' c) = Lent d \<and> c_local (cells (net_mio N') c) = i"
proof -
  let ?M = "net_mio N"
  note mio = net_invD(1)[OF inv]
  have es: "\<forall>e\<in>set es. event_ok ?M i e" using mio_invD(7)[OF mio i] at by (simp add: events_ok_def)
  from slab_ops.dispatch_ok[OF ops mio i es, of 0] obtain ns where
    ns: "dispatch_events S (dispatchers (locals ?M i)) 0 es = Inr ns" "notified_ok (m_heap ?M) ns"
      "filter (\<lambda>x. x \<noteq> Push_batch) ns = concat (map (event_notices ?M) es)" by blast
  have N': "N' = N\<lparr>net_mio := at_local i (\<lambda>l. l\<lparr>l_pc := E_flush, l_notices := l_notices l @ ns\<rparr>) ?M\<rparr>"
    using act ns(1,2) at by (auto simp: net_act_def loop_step_def Let_def split: if_splits)
  have "Notify d \<in> set (filter (\<lambda>x. x \<noteq> Push_batch) ns)" using d by (simp add: N')
  then obtain e where e: "e \<in> set es" "Notify d \<in> set (event_notices ?M e)" unfolding ns(3) by auto
  let ?c = "e_socket e"
  have ptr: "d \<noteq> null" "d = c_reader (cells ?M ?c) \<or> d = c_writer (cells ?M ?c)"
    using e(2) by (auto simp: event_notices_def Let_def split: if_splits)
  have "c_pc (cells ?M ?c) = C_live" using mio_invD(2)[OF mio, of ?c] es e(1) ptr by (auto simp: cell_ok_def event_ok_def Let_def)
  then have "\<exists>rd. lent (half rd (hnds N ?c)) = d" using net_invD(2)[OF inv, of ?c] ptr(2) by (auto simp: hnd_ok_def half_def)
  then obtain rd where "lent (half rd (hnds N ?c)) = d" by blast
  then have "half rd (hnds N ?c) = Lent d" using ptr(1) by (cases "half rd (hnds N ?c)") (simp_all add: lent_def)
  moreover have "c_local (cells ?M ?c) = i" using es e(1) by (auto simp: event_ok_def Let_def)
  ultimately show ?thesis by (auto simp: N')
qed

lemma guard_iff: "rx_inv S m n base s \<Longrightarrow> LOCAL (l_rt (rx_life s)) (n + i) \<noteq> null \<longleftrightarrow> in_batch (rx_at s i)"
  by (drule rx_invD(5)) (simp add: guards_ok_def)

lemma loop_less: "rx_inv S m n base s \<Longrightarrow> rx_at s i \<noteq> X_none \<Longrightarrow> i < unat m"
  using rx_invD(4) by (metis not_le shutdown_phase_def)

lemma push_sim:
  assumes inv: "rx_inv S m n base s" and at: "in_batch (rx_at s i)" and do: "rt_do n (Batch_push (n + i)) s = Some u"
  shows "sim S may m n base s u \<and> rx_at u = rx_at s \<and> rx_net u = rx_net s"
proof -
  have "sim S may m n base s u" by (rule rt_quiet[OF inv _ do]) (use guard_iff[OF inv, of i] at in simp_all)
  then show ?thesis using do by (auto simp: rt_do_def)
qed

lemma notify_sim:
  assumes inv: "rx_inv S m n base s" and at: "rx_at s i = X_notify ns" "Notify e \<in> set ns" and do: "rx_notify n i e s = Some u"
  shows "sim S may m n base s u \<and> rx_at u = rx_at s \<and> rx_net u = rx_net s"
proof -
  note d = rx_invD[OF inv]
  obtain c rd where "half rd (hnds (rx_net s) c) = Lent e" using d(7) at unfolding notices_ok_def by blast
  then obtain w where w: "live_waker e s = Some w" using live_waker_lent[OF d(6)] by blast
  let ?s = "s\<lparr>rx_status := (rx_status s)(e := D_NOTIFIED OR D_MUTED)\<rparr>"
  have inv': "rx_inv S m n base ?s" and ss: "sim S may m n base s ?s" using inv by (simp_all add: sim_status)
  have env: "life_env n (Wake (n + i) w) (rx_life ?s)" using phase_go(2)[OF d(4), of i] at(1) by (simp add: past_shutdown_def)
  show ?thesis
  proof (cases "rx_status s e AND (D_MUTED OR D_NOTIFIED) = 0")
    case True
    then have u: "rt_do n (Wake (n + i) w) ?s = Some u" using do w by (simp add: rx_notify_def)
    then have "rx_at u = rx_at s \<and> rx_net u = rx_net s" by (auto simp: rt_do_def)
    moreover have "sim S may m n base ?s u" using rt_quiet[OF inv' env u] by simp
    ultimately show ?thesis using sim_trans[OF ss] by blast
  next
    case False
    then have "u = ?s" using do w by (simp add: rx_notify_def)
    then show ?thesis using ss by simp
  qed
qed

text \<open>A step of a loop that is not notifying, and one that is.\<close>

lemma loop_turn_sim:
  assumes ops: "slab_ops S" "poll_events may" "m \<noteq> 0"
    and inv: "rx_inv S m n base s" and at: "rx_at s i = X_loop" and step: "rx_loop S may m n i evs p s = Some t"
  shows "sim S may m n base s t"
proof -
  note d = rx_invD[OF inv]
  have quiet: "sim S may m n base u v" if "rx_inv S m n base u" "net_go S may m (Others (Loop i evs)) u = Some v" for u v
    by (rule net_quiet[OF ops that]) simp_all
  have b: "in_batch (rx_at s i)" using at by (simp add: in_batch_def)
  have i: "i < unat m" using loop_less[OF inv] at by simp
  show ?thesis
  proof (cases "l_pc (locals (net_mio (rx_net s)) i)")
    case (E_dispatch es)
    then obtain u where u: "net_go S may m (Others (Loop i evs)) s = Some u"
      "t = x_go i (X_notify (drop (length (notices_of i s)) (notices_of i u))) u"
      using step at by (auto simp: rx_loop_def Let_def)
    note su = quiet[OF inv u(1)] and g = net_goD[OF ops inv u(1)]
    have "rx_at u = rx_at s" by (subst g(1)) simp
    then have "sim S may m n base u t" unfolding u(2)
      by (intro x_go_sim) (use su b dispatch_lent[OF ops(1) d(2) i E_dispatch g(2)] in \<open>auto simp: sim_def in_batch_def\<close>)
    with su show ?thesis by (rule sim_trans)
  next
    case E_flush
    then obtain u where u: "rt_do n (Batch_push (n + i)) s = Some u" "net_go S may m (Others (Loop i evs)) u = Some t"
      using step at by (auto simp: rx_loop_def Let_def split: bind_splits)
    have su: "sim S may m n base s u" using push_sim[OF inv b u(1)] by blast
    then have "sim S may m n base u t" using quiet[OF _ u(2)] by (simp add: sim_def)
    with su show ?thesis by (rule sim_trans)
  next
    case E_done
    then obtain u where u: "rt_do n (Batch_drop (n + i)) s = Some u" "t = x_go i X_end u"
      using step at by (auto simp: rx_loop_def Let_def)
    from guard_sim[OF inv _ _ _ u(1)] show ?thesis using at guard_iff[OF inv, of i] u(2) by (auto simp: in_batch_def)
  qed (use step at quiet[OF inv] in \<open>simp_all add: rx_loop_def Let_def\<close>)
qed

lemma loop_notify_sim:
  assumes inv: "rx_inv S m n base s" and at: "rx_at s i = X_notify ns" and step: "rx_loop S may m n i evs p s = Some t"
  shows "sim S may m n base s t"
proof (cases ns)
  case Nil
  then have "t = x_go i X_loop s" using step at by (simp add: rx_loop_def)
  then show ?thesis using x_go_sim[OF inv, of i X_loop may] at by (simp add: in_batch_def)
next
  case (Cons x xs)
  have b: "in_batch (rx_at s i)" using at by (simp add: in_batch_def)
  obtain u where u: "(case x of Push_batch \<Rightarrow> rt_do n (Batch_push (n + i)) s | Notify d \<Rightarrow> rx_notify n i d s) = Some u"
    "t = x_go i (X_notify xs) u" using step at Cons by (auto simp: rx_loop_def)
  have su: "sim S may m n base s u \<and> rx_at u = rx_at s \<and> rx_net u = rx_net s"
  proof (cases x)
    case (Notify e)
    then have "Notify e \<in> set ns" "rx_notify n i e s = Some u" using u(1) Cons by simp_all
    from notify_sim[OF inv at this] show ?thesis .
  next
    case Push_batch
    then have "rt_do n (Batch_push (n + i)) s = Some u" using u(1) by simp
    from push_sim[OF inv b this] show ?thesis .
  qed
  have "\<exists>c rd. half rd (hnds (rx_net s) c) = Lent e \<and> c_local (cells (net_mio (rx_net s)) c) = i" if "Notify e \<in> set xs" for e
    using rx_invD(7)[OF inv] at Cons that unfolding notices_ok_def by (metis list.set_intros(2))
  then have "sim S may m n base u t" unfolding u(2)
    by (intro x_go_sim) (use su b in \<open>auto simp: sim_def in_batch_def\<close>)
  then show ?thesis using su sim_trans by blast
qed

lemma loop_sim:
  assumes ops: "slab_ops S" "poll_events may" "m \<noteq> 0"
    and inv: "rx_inv S m n base s" and step: "rx_loop S may m n i evs p s = Some t"
  shows "sim S may m n base s t"
proof (cases "rx_at s i")
  case X_guard
  then obtain u where u: "fresh_for (l_rt (rx_life s)) p" "rt_do n (Batch_new (n + i) p) s = Some u" "t = x_go i X_loop u"
    using step by (auto simp: rx_loop_def Let_def split: if_splits)
  have "life_env n (Batch_new (n + i) p) (rx_life s)"
    using phase_go(2)[OF rx_invD(4)[OF inv], of i] u(1) X_guard guard_iff[OF inv, of i] by (auto simp: past_shutdown_def in_batch_def)
  from guard_sim[OF inv _ _ this u(2)] show ?thesis using X_guard u(1,3) by (auto simp: fresh_for_def)
qed (use step loop_turn_sim[OF ops inv] loop_notify_sim[OF inv] in \<open>auto simp: rx_loop_def\<close>)

section \<open>The main thread\<close>

lemma main_phase:
  assumes "life_main n p u L = Some M" "l_fault M = None"
  shows "l_main M \<noteq> M_on_start" "past_shutdown (l_main M) \<Longrightarrow> past_shutdown (l_main L) \<or> l_main L = M_on_shutdown"
    "l_main L = M_on_start \<Longrightarrow> l_main M = M_run"
proof -
  have "l_main M = M_on_exit" if at: "l_main L = M_drop"
  proof -
    obtain r where "M = l_do r (\<lambda>s. L\<lparr>l_rt := s, l_main := M_on_exit\<rparr>) L" using assms(1) at by (auto simp: life_main_def Let_def)
    then show ?thesis using assms(2) by (cases r) (auto simp: l_do_def)
  qed
  then show "l_main M \<noteq> M_on_start" "past_shutdown (l_main M) \<Longrightarrow> past_shutdown (l_main L) \<or> l_main L = M_on_shutdown"
    "l_main L = M_on_start \<Longrightarrow> l_main M = M_run"
    using assms by (auto simp: life_main_def Let_def past_shutdown_def torn_down_def l_do_def split: main_pc.splits sum.splits if_splits)
qed

lemma main_rt_sim:
  assumes inv: "rx_inv S m n base s" and env: "life_env n (Main_thread p u) (rx_life s)"
    and do: "rt_do n (Main_thread p u) s = Some t"
    and at: "l_main (rx_life s) = M_on_shutdown \<Longrightarrow> rx_join s = Some (unat m)"
    and f: "f = (if l_main (rx_life s) = M_on_start then mio_spawn_event_loop m else id)"
  shows "sim S may m n base s (f t)"
proof -
  note t = rt_doD[OF inv env do] and d = rx_invD[OF inv]
  obtain L where L: "t = s\<lparr>rx_life := L\<rparr>" using t(1) by blast
  have "life_main n p u (rx_life s) = Some (rx_life t)" using do by (auto simp: rt_do_def)
  then have "life_main n p u (rx_life s) = Some L" by (simp add: L)
  note ph = main_phase[OF this] and nf = life_invD(1)[OF t(3)]
  have fr: "\<forall>i\<ge>n. LOCAL (l_rt L) i = LOCAL (l_rt (rx_life s)) i"
    "\<And>w. l_wakers (rx_life s) w \<noteq> None \<Longrightarrow> l_wakers L w \<noteq> None" using t(4) by (auto simp: life_frame_def L)
  have b: "boxed_ok (l_wakers L) (rx_waker s) (rx_boxed s) (hnds (rx_net s))" by (rule boxed_frame[OF d(6)]) (rule fr(2))
  have g: "guards_ok n (LOCAL (l_rt L)) (rx_at s)" using d(5) fr(1) by (simp add: guards_ok_def)
  have "rx_inv S m n base (f t)"
  proof (cases "l_main (rx_life s) = M_on_start")
    case True
    have "guards_ok n (LOCAL (l_rt L)) (\<lambda>i. if i < unat m then X_guard else X_none)"
      using g d(4) True by (auto simp: guards_ok_def in_batch_def shutdown_phase_def)
    moreover have "shutdown_phase m (l_main L) (rx_join s) (\<lambda>i. if i < unat m then X_guard else X_none)"
      using d(4) True ph(3) nf by (auto simp: shutdown_phase_def L past_shutdown_def torn_down_def)
    ultimately show ?thesis using d t(3) b True
      by (simp add: rx_inv_def f mio_spawn_event_loop_def L notices_ok_def)
  next
    case False
    have "shutdown_phase m (l_main L) (rx_join s) (rx_at s)" using d(4) at ph(1,2) nf by (auto simp: shutdown_phase_def L)
    then show ?thesis using d t(3) b g False by (simp add: rx_inv_def f L)
  qed
  then show ?thesis using t(2) by (simp add: sim_def f mio_spawn_event_loop_def L)
qed

lemma shutdown_sim:
  assumes ops: "slab_ops S" "poll_events may" "m \<noteq> 0"
    and inv: "rx_inv S m n base s" and at: "l_main (rx_life s) = M_on_shutdown" and step: "rx_mio_shutdown S may m s = Some t"
  shows "sim S may m n base s t"
proof (cases "rx_join s")
  case None
  then obtain u where u: "net_go S may m (Others Set_shutdown) s = Some u" "t = u\<lparr>rx_join := Some 0\<rparr>"
    using step by (auto simp: rx_mio_shutdown_def)
  have su: "sim S may m n base s u" by (rule net_quiet[OF ops inv u(1)]) simp_all
  obtain N where "u = s\<lparr>rx_net := N\<rparr>" using net_goD(1)[OF ops inv u(1)] by blast
  then have "l_main (rx_life u) = M_on_shutdown" "rx_join u = None" using at None by simp_all
  then have "rx_inv S m n base t" using su by (auto simp: sim_def rx_inv_def u(2) shutdown_phase_def past_shutdown_def torn_down_def)
  then show ?thesis using su by (simp add: sim_def u(2))
next
  case (Some k)
  then have k: "k < unat m" "rx_at s k = X_end" "t = s\<lparr>rx_join := Some (Suc k)\<rparr>"
    using step by (auto simp: rx_mio_shutdown_def split: if_splits)
  have "shutdown_phase m (l_main (rx_life s)) (Some (Suc k)) (rx_at s)"
    using rx_invD(4)[OF inv] Some k(1,2) at by (auto simp: shutdown_phase_def past_shutdown_def torn_down_def less_Suc_eq)
  then have "rx_inv S m n base t" using rx_invD[OF inv] by (simp add: rx_inv_def k(3))
  then show ?thesis by (simp add: sim_def k(3))
qed

lemma main_sim:
  assumes ops: "slab_ops S" "poll_events may" "m \<noteq> 0"
    and inv: "rx_inv S m n base s" and step: "rx_main S may m n p u s = Some t"
  shows "sim S may m n base s t"
proof -
  note d = rx_invD[OF inv]
  have p: "fresh_for (l_rt (rx_life s)) p" using step by (auto simp: rx_main_def Let_def split: if_splits)
  show ?thesis
  proof (cases "l_main (rx_life s) = M_on_shutdown")
    case True
    show ?thesis
    proof (cases "rx_join s = Some (unat m)")
      case all: True
      have "LOCAL (l_rt (rx_life s)) (n + i) = null" for i
      proof -
        have "rx_at s i = X_end \<or> rx_at s i = X_none" using d(4) all unfolding shutdown_phase_def by (meson not_le)
        moreover have "LOCAL (l_rt (rx_life s)) (n + i) \<noteq> null \<longleftrightarrow> in_batch (rx_at s i)" using d(5) by (simp add: guards_ok_def)
        ultimately show ?thesis by (auto simp: in_batch_def)
      qed
      then have "\<forall>i\<ge>n. LOCAL (l_rt (rx_life s)) i = null" by (metis le_add_diff_inverse)
      then have env: "life_env n (Main_thread p u) (rx_life s)" using p by simp
      have "rt_do n (Main_thread p u) s = Some t" using step True all p by (simp add: rx_main_def Let_def)
      from main_rt_sim[OF inv env this _ refl] show ?thesis using True all by simp
    next
      case False
      then have "rx_mio_shutdown S may m s = Some t" using step True p by (simp add: rx_main_def Let_def)
      then show ?thesis by (rule shutdown_sim[OF ops inv True])
    qed
  next
    case False
    then have env: "life_env n (Main_thread p u) (rx_life s)" using p by simp
    obtain v where v: "rt_do n (Main_thread p u) s = Some v"
      "t = (if l_main (rx_life s) = M_on_start then mio_spawn_event_loop m else id) v"
      using step False p by (auto simp: rx_main_def Let_def split: main_pc.splits)
    from main_rt_sim[OF inv env v(1) _ refl] show ?thesis using False v(2) by simp
  qed
qed

section \<open>Every run\<close>

lemma rx_act_sim:
  assumes ops: "slab_ops S" "poll_events may" "m \<noteq> 0"
    and inv: "rx_inv S m n base s" and act: "rx_act S may m n a s = Some t"
  shows "sim S may m n base s t"
proof -
  have do: "rx_do S may m n a s = Some t" using act by (auto simp: rx_act_def split: if_splits)
  show ?thesis
  proof (cases a)
    case (X_main p u)
    then show ?thesis using main_sim[OF ops inv] do by simp
  next
    case (X_event_loop i evs p)
    then show ?thesis using loop_sim[OF ops inv] do by simp
  next
    case (X_work k ps c)
    then show ?thesis using do rt_quiet[OF inv, of "Work k ps c"] by (simp split: if_splits)
  next
    case (X_clone w v)
    then show ?thesis using do rt_quiet[OF inv, of "Clone w v"] by (simp split: if_splits)
  next
    case (X_drop_waker w)
    then show ?thesis using do rt_quiet[OF inv, of "Drop_waker w"] by (simp split: if_splits)
  next
    case (X_net l w)
    then show ?thesis using net_call_sim[OF ops inv] do by simp
  next
    case (X_prepare_io rd c)
    then obtain f where "t = s\<lparr>rx_status := f\<rparr>" using do by (auto simp: on_half_def prepare_io_def split: socket_handle.splits)
    then show ?thesis using sim_status[OF inv] by simp
  next
    case (X_wait_io weak rd c)
    then obtain d where "t = wait_io weak d s" using do by (auto simp: on_half_def split: socket_handle.splits)
    then show ?thesis using sim_status[OF inv] sim_status[OF inv, of _ "rx_status s"] by (auto simp: wait_io_def)
  next
    case (X_wake i w)
    then show ?thesis using do rt_quiet[OF inv, of "Wake i w"] by (simp split: if_splits)
  qed
qed

lemma rx_init_inv:
  assumes P: "parking_lot_ops P" and S: "slab_ops S" and init: "rx_init S m P n L0 s"
  shows "rx_inv S m (unat n) (outside (l_rt L0)) s"
proof -
  note i = init[unfolded rx_init_def]
  have L0: "\<forall>i\<ge>unat n. LOCAL (l_rt L0) i = null" "l_main L0 = M_on_start" using i by (auto simp: life_init_def)
  have "half rd (hnds (rx_net s) c) \<noteq> Lent d" for rd c d
  proof -
    obtain k where "hnds (rx_net s) c = no_handle k" using i by (auto simp: net_init_def)
    then show ?thesis by (simp add: half_upd(4))
  qed
  then show ?thesis using i L0 life_init_inv[OF P] slab_ops.net_init_inv[OF S]
    by (auto simp: rx_inv_def shutdown_phase_def past_shutdown_def torn_down_def guards_ok_def in_batch_def boxed_ok_def notices_ok_def)
qed

lemma rx_reach_sim:
  assumes ops: "parking_lot_ops P" "slab_ops S" "poll_events may" "m \<noteq> 0" and reach: "rx_reach S may m P n L0 s"
  shows "life_init P n L0 \<and> rx_inv S m (unat n) (outside (l_rt L0)) s \<and> (life_step (unat n))\<^sup>*\<^sup>* L0 (rx_life s) \<and> net_reach S may m (rx_net s)"
  using reach
proof (induction rule: reach.induct)
  case (reach_init s)
  then show ?case using rx_init_inv[OF ops(1,2)] by (auto simp: rx_init_def intro: reach.reach_init)
next
  case (reach_step s t)
  then obtain a where "rx_act S may m (unat n) a s = Some t" by (auto simp: enabled_def)
  from rx_act_sim[OF ops(2-4) _ this] reach_step.IH show ?case by (auto simp: sim_def intro: reach_steps rtranclp_trans)
qed

end
