(* ===== verification/Reactor_Safety.thy ===== *)
theory Reactor_Safety
  imports Reactor_Invariant
begin

text \<open>
  What holds of the runtime with its reactor: the loops and callbacks meet the obligations that \<open>Lifecycle\<close> leaves to the
  user, it is shut down in order, and an event gets its task into the queue of a worker.  The run at the end goes through a whole life.
\<close>

section \<open>Properties\<close>

text \<open>
  A dispatcher gets the waker of the task that asks for it: when a task is running and may make an acceptor, a reader
  or a writer, \<open>Dispatcher::new\<close> succeeds, and the new dispatcher's waker points to this task.
\<close>

lemma dispatcher_new_binds:
  assumes "parking_lot_ops P" and "slab_ops S" and "poll_events may" and "m \<noteq> 0" and "rx_reach S may m P n L0 s"
    and k: "k < unat n" "l_pcs (rx_life s) k = W_run t" "fn_poll t (l_rt (rx_life s)) = Inr (User f)"
    and env: "fresh_list (unat n) (l_rt (rx_life s)) ps" "fresh_waker (rx_life s) w" "w \<notin> rx_boxed s" "l_main (rx_life s) \<noteq> M_on_start"
    and l: "opens l = Some d" "may_lock l s" "net_act S may m l (rx_net s) = Some N"
  shows "\<exists>v. run (rx_act S may m (unat n)) (Dispatcher_new k ps w l) s = Some v \<and> rx_net v = N \<and>
    rx_waker v d = Some w \<and> l_wakers (rx_life v) w = Some t"
proof -
  let ?L = "rx_life s" and ?a = "Work k ps (C_clone w)"
  have inv: "rx_inv S m (unat n) (outside (l_rt L0)) s" using rx_reach_sim[OF assms(1-5)] by blast
  have env': "life_env (unat n) ?a ?L" using k(1) env(1,2) by simp
  define M where "M = call_step k t (C_clone w) ?L"
  have "life_act (unat n) ?a ?L = Some M" using k(2,3) by (simp add: life_work_def l_do_def M_def)
  then have go: "rt_do (unat n) ?a s = Some (s\<lparr>rx_life := M\<rparr>)" by (simp add: rt_do_def)
  have "l_fault M = None" using life_invD(1)[OF rt_doD(3)[OF inv env' go]] by simp
  then obtain s' where M: "M = ?L\<lparr>l_rt := s', l_wakers := (l_wakers ?L)(w \<mapsto> t)\<rparr>"
    by (cases "fn_clone t (l_rt ?L)") (auto simp: M_def l_do_def)
  have lock: "may_lock l (s\<lparr>rx_life := M\<rparr>)" using l(2) by (cases l) (simp_all add: unlocked_def)
  have "rx_act S may m (unat n) (WakerFuture_poll k ps w) s = Some (s\<lparr>rx_life := M\<rparr>)"
    using go env' life_invD(1)[OF rx_invD(1)[OF inv]] rx_invD(3)[OF inv] by (simp add: rx_act_def WakerFuture_poll_def)
  moreover have "rx_act S may m (unat n) (X_net l w) (s\<lparr>rx_life := M\<rparr>) = Some (rx_attach d w (s\<lparr>rx_life := M, rx_net := N\<rparr>))"
    using lock l(1,3) env(3,4) rx_invD(3)[OF inv] life_invD(1)[OF rx_invD(1)[OF inv]]
    by (simp add: rx_act_def rx_net_call_def net_go_def M)
  ultimately show ?thesis by (simp add: Dispatcher_new_def rx_attach_def M)
qed

text \<open>
  C7: the runtime with its reactor is a runtime and a reactor.  In every run of the composition, the runtime does
  what theory \<open>Lifecycle\<close> allows and the sockets and the loops do what theory \<open>Sockets\<close> allows, so that the theorems of
  both apply; and no part faults, nor is a dispatcher notified or dropped without a live waker in it.  Lifecycle's
  obligations on batches, on \<open>on_start\<close> and \<open>on_shutdown\<close> and on the wakers in dispatchers are not assumed here: the loops
  and the callbacks meet them.  The remaining conditions are part of \<open>rx_do\<close>: a poll on a worker invokes the waker of its own
  task only and spawns only from a task, other threads of the user invoke the wakers they hold only before the
  tear-down (the runtime faults otherwise, see \<open>wake_on_worker_faults\<close>), nobody invokes a waker that is in a
  dispatcher but the loops, and each operation of the runtime is one step.
\<close>

theorem mio_runtime_refines:
  assumes "parking_lot_ops P" and "slab_ops S" and "poll_events may" and "m \<noteq> 0" and "rx_reach S may m P n L0 s"
  shows "life_init P n L0 \<and> (life_step (unat n))\<^sup>*\<^sup>* L0 (rx_life s) \<and> net_reach S may m (rx_net s) \<and>
    l_fault (rx_life s) = None \<and> m_fault (net_mio (rx_net s)) = None \<and> \<not> rx_bad s"
proof -
  note r = rx_reach_sim[OF assms]
  then show ?thesis using life_invD(1)[OF rx_invD(1)] mio_invD(1)[OF net_invD(1)[OF rx_invD(2)]] rx_invD(3) by blast
qed

text \<open>
  C8: the order of the shutdown.  When the workers are torn down, every event loop has ended and no thread is
  left that batches; before that, a loop has a \<open>BatchGuard\<close> exactly while it runs.  At all times, also
  while what is left of the runtime is torn down, the dispatcher of every reader, writer or acceptor has a live waker,
  which no other dispatcher has and which points to a task.
\<close>

theorem mio_runtime_order:
  assumes "parking_lot_ops P" and "slab_ops S" and "poll_events may" and "m \<noteq> 0" and "rx_reach S may m P n L0 s"
  shows "(past_shutdown (l_main (rx_life s)) \<longrightarrow> (\<forall>i<unat m. rx_at s i = X_end) \<and> (\<forall>i\<ge>unat n. LOCAL (l_rt (rx_life s)) i = null)) \<and>
    (\<forall>i. LOCAL (l_rt (rx_life s)) (unat n + i) \<noteq> null \<longleftrightarrow> in_batch (rx_at s i)) \<and>
    (\<forall>c rd d. half rd (hnds (rx_net s) c) = Lent d \<longrightarrow>
      (\<exists>w t. rx_waker s d = Some w \<and> l_wakers (rx_life s) w = Some t \<and> is_task (l_rt (rx_life s)) t \<and>
        (\<forall>e. rx_waker s e = Some w \<longrightarrow> e = d)))"
proof (intro conjI impI allI)
  have inv: "rx_inv S m (unat n) (outside (l_rt L0)) s" using rx_reach_sim[OF assms] by blast
  note d = rx_invD[OF inv]
  show g: "LOCAL (l_rt (rx_life s)) (unat n + i) \<noteq> null \<longleftrightarrow> in_batch (rx_at s i)" for i using d(5) by (simp add: guards_ok_def)
  assume past: "past_shutdown (l_main (rx_life s))"
  then have all: "\<forall>i<unat m. rx_at s i = X_end" "\<forall>i\<ge>unat m. rx_at s i = X_none" using d(4) by (auto simp: shutdown_phase_def)
  show "rx_at s i = X_end" if "i < unat m" for i using all(1) that by blast
  have "LOCAL (l_rt (rx_life s)) (unat n + i) = null" for i using all g[of i] by (cases "i < unat m") (auto simp: in_batch_def)
  then show "LOCAL (l_rt (rx_life s)) i = null" if "unat n \<le> i" for i using that by (metis le_add_diff_inverse)
next
  fix c rd d assume h: "half rd (hnds (rx_net s) c) = Lent d"
  have inv: "rx_inv S m (unat n) (outside (l_rt L0)) s" using rx_reach_sim[OF assms] by blast
  note b = rx_invD(6)[OF inv]
  obtain w where w: "rx_waker s d = Some w" using b h unfolding boxed_ok_def by blast
  then obtain t where t: "l_wakers (rx_life s) w = Some t" using b unfolding boxed_ok_def by blast
  have "e = d" if "rx_waker s e = Some w" for e using b w that unfolding boxed_ok_def by blast
  then show "\<exists>w t. rx_waker s d = Some w \<and> l_wakers (rx_life s) w = Some t \<and> is_task (l_rt (rx_life s)) t \<and>
      (\<forall>e. rx_waker s e = Some w \<longrightarrow> e = d)"
    using w t wakers_counted[OF rx_invD(1)[OF inv] t] by blast
qed

text \<open>What a wake-up by a thread that batches does to the status and to the batches.\<close>

lemma loop_wakes:
  assumes inv: "life_inv n base L" and t: "l_wakers L w = Some t" and up: "\<not> torn_down (l_main L)"
    and g: "LOCAL (l_rt L) (n + i) \<noteq> null"
  obtains s' where "wake (n + i) t (l_rt L) = Inr s'"
    "t_status (task_at s' t) = t_status (task_at (l_rt L) t) OR (MUTED OR NOTIFIED)"
    "t_status (task_at (l_rt L) t) = 0 \<Longrightarrow> \<exists>b bs. batch s' (n + i) b bs \<and> t \<in> set (concat bs)"
proof -
  let ?s = "l_rt L" and ?i = "n + i" and ?st = "t_status (task_at (l_rt L) t)"
  obtain ep e wps qs bs K where v: "up_view n base L ep e wps qs bs K" using life_view[OF inv up] by blast
  note vd = up_viewD[OF v]
  note ok = mem_viewD(3)[OF vd(3)]
  have K: "K t \<noteq> Absent" by (rule waker_task[OF ok life_invD(2)[OF inv] t])
  show thesis
  proof (cases "K t = Idle")
    case True
    note wk = wake_kind[OF ok True]
    have ba: "batch ?s ?i (LOCAL ?s ?i) (bs ?i)" "length (bs ?i) = n"
      using batchesD(1)[OF mem_viewD(2)[OF vd(3)], of ?i] g by simp_all
    have jb: "unat (t_worker_id (task_at ?s t)) < length (bs ?i)" using wk(3) ba(2) by simp
    have "t \<notin> set (concat (bs ?i))" using sched_viewD(1)[OF vd(4), of t] True by auto
    from wake_idle_batch[OF vd(1) ba(1) wk(1) this wk(2) refl jb sched_viewD(2)[OF vd(4)]] obtain s' where
      s': "wake ?i t ?s = Inr s'" "t_status (task_at s' t) = MUTED OR NOTIFIED"
        "batch s' ?i (LOCAL ?s ?i) ((bs ?i)[unat (t_worker_id (task_at ?s t)) := bs ?i ! unat (t_worker_id (task_at ?s t)) @ [t]])"
      by blast
    show thesis
    proof (rule that[OF s'(1)])
      show "t_status (task_at s' t) = ?st OR (MUTED OR NOTIFIED)" using s'(2) wk(2) by simp
      show "\<exists>b bs. batch s' ?i b bs \<and> t \<in> set (concat bs)" using s'(3) set_concat_upd_append[OF jb, of t] by blast
    qed
  next
    case False
    obtain live st c x where tv: "tview ?s t = Some (live, st, c, x)" using wakers_counted[OF inv t] by blast
    have busy: "K t \<in> {Sched, Held, Done}" using K False by (cases "K t") auto
    have ne: "?st \<noteq> 0"
      using tasks_okD(1)[OF ok, of t] tview_task_at[OF tv] tv K False by (cases "K t") (auto simp: status_bits)
    note wb = wake_busy(1)[OF ok busy]
    show thesis by (rule that[OF wb]) (use kind_task[OF ok K] ne in simp_all)
  qed
qed

text \<open>
  C17: what an event does to the task.  When a loop is about to notify a dispatcher, the dispatcher has a live waker,
  which points to a task, and the notification succeeds and marks the dispatcher \<open>MUTED | NOTIFIED\<close>.  If one of the two bits
  was set before - a dispatcher on which nobody waits, or which is notified already - nothing happens to the
  task.  Otherwise the task is marked \<open>MUTED | NOTIFIED\<close>, and if it was idle it is now in the loop's own batch.
\<close>

theorem event_schedules_task:
  assumes "parking_lot_ops P" and "slab_ops S" and "poll_events may" and "m \<noteq> 0" and "rx_reach S may m P n L0 s"
    and "rx_at s i = X_notify (Notify d # ns)"
  shows "\<exists>w t u. live_waker d s = Some w \<and> l_wakers (rx_life s) w = Some t \<and> is_task (l_rt (rx_life s)) t \<and>
    rx_act S may m (unat n) (X_event_loop i evs p) s = Some u \<and> rx_at u i = X_notify ns \<and> rx_status u d = D_NOTIFIED OR D_MUTED \<and>
    (if rx_status s d AND (D_MUTED OR D_NOTIFIED) \<noteq> 0 then rx_life u = rx_life s
     else t_status (task_at (l_rt (rx_life u)) t) = t_status (task_at (l_rt (rx_life s)) t) OR (MUTED OR NOTIFIED) \<and>
       (t_status (task_at (l_rt (rx_life s)) t) = 0 \<longrightarrow>
         (\<exists>b bs. batch (l_rt (rx_life u)) (unat n + i) b bs \<and> t \<in> set (concat bs))))"
proof -
  let ?L = "rx_life s" and ?s = "l_rt (rx_life s)" and ?i = "unat n + i"
  have inv: "rx_inv S m (unat n) (outside (l_rt L0)) s" using rx_reach_sim[OF assms(1-5)] by blast
  note r = rx_invD[OF inv]
  have "\<exists>c rd. half rd (hnds (rx_net s) c) = Lent d \<and> c_local (cells (net_mio (rx_net s)) c) = i"
    using r(7) assms(6) unfolding notices_ok_def by (meson list.set_intros(1))
  then obtain w where w: "live_waker d s = Some w" "rx_waker s d = Some w" using live_waker_lent[OF r(6)] by blast
  then obtain t where t: "l_wakers ?L w = Some t" using r(6) unfolding boxed_ok_def by blast
  have g: "LOCAL ?s ?i \<noteq> null" using r(5) assms(6) by (simp add: guards_ok_def in_batch_def)
  have up: "\<not> torn_down (l_main ?L)" using phase_go(2)[OF r(4), of i] assms(6) by (simp add: past_shutdown_def)
  have task: "is_task ?s t" using wakers_counted[OF r(1) t] by blast
  obtain s' where s': "wake ?i t ?s = Inr s'" "t_status (task_at s' t) = t_status (task_at ?s t) OR (MUTED OR NOTIFIED)"
      "t_status (task_at ?s t) = 0 \<Longrightarrow> \<exists>b bs. batch s' ?i b bs \<and> t \<in> set (concat bs)"
    by (rule loop_wakes[OF r(1) t up g]) blast
  define u where "u = x_go i (X_notify ns)
    (if rx_status s d AND (D_MUTED OR D_NOTIFIED) = 0
     then s\<lparr>rx_status := (rx_status s)(d := D_NOTIFIED OR D_MUTED), rx_life := ?L\<lparr>l_rt := s'\<rparr>\<rparr>
     else s\<lparr>rx_status := (rx_status s)(d := D_NOTIFIED OR D_MUTED)\<rparr>)"
  have "rx_act S may m (unat n) (X_event_loop i evs p) s = Some u"
    using assms(6) w t s'(1) life_invD(1)[OF r(1)] r(3)
    by (simp add: rx_act_def rx_loop_def rx_notify_def rt_do_def on_rt_def l_do_def fn_wake_by_ref_def u_def Let_def)
  moreover have "rx_at u i = X_notify ns" "rx_status u d = D_NOTIFIED OR D_MUTED" by (simp_all add: u_def x_go_def)
  moreover have "if rx_status s d AND (D_MUTED OR D_NOTIFIED) \<noteq> 0 then rx_life u = ?L
     else t_status (task_at (l_rt (rx_life u)) t) = t_status (task_at ?s t) OR (MUTED OR NOTIFIED) \<and>
       (t_status (task_at ?s t) = 0 \<longrightarrow> (\<exists>b bs. batch (l_rt (rx_life u)) ?i b bs \<and> t \<in> set (concat bs)))"
    using s'(2,3) by (simp add: u_def x_go_def)
  ultimately show ?thesis using w(1) t task by blast
qed

text \<open>
  C18: a turn of an event loop ends with a flush.  After the events of a poll are handled the step of the loop
  succeeds; every task it has held back is then in the queue of a worker, and its batches are empty.
\<close>

theorem turn_flushes_batch:
  assumes "parking_lot_ops P" and "slab_ops S" and "poll_events may" and "m \<noteq> 0" and "rx_reach S may m P n L0 s"
    and "rx_at s i = X_loop" and "l_pc (locals (net_mio (rx_net s)) i) = E_flush"
  shows "\<exists>u b bs ep e wps qs. rx_act S may m (unat n) (X_event_loop i evs p) s = Some u \<and>
    l_pc (locals (net_mio (rx_net u)) i) = E_pop False \<and> batch (l_rt (rx_life s)) (unat n + i) b bs \<and>
    runtime (l_rt (rx_life u)) ep e wps qs \<and> set (concat bs) \<subseteq> set (concat qs) \<and>
    batch (l_rt (rx_life u)) (unat n + i) b (replicate (unat n) [])"
proof -
  let ?L = "rx_life s" and ?s = "l_rt (rx_life s)" and ?i = "unat n + i"
  have inv: "rx_inv S m (unat n) (outside (l_rt L0)) s" using rx_reach_sim[OF assms(1-5)] by blast
  note r = rx_invD[OF inv]
  have "\<not> torn_down (l_main ?L)" using phase_go(2)[OF r(4), of i] assms(6) by (simp add: past_shutdown_def)
  then obtain ep e wps qs bs K where v: "up_view (unat n) (outside (l_rt L0)) ?L ep e wps qs bs K" using life_view[OF r(1)] by blast
  note vd = up_viewD[OF v]
  have loc: "LOCAL ?s ?i \<noteq> null" using r(5) assms(6) by (simp add: guards_ok_def in_batch_def)
  then have ba: "batch ?s ?i (LOCAL ?s ?i) (bs ?i)" "length (bs ?i) = length wps"
    using batchesD(1)[OF mem_viewD(2)[OF vd(3)], of ?i] vd(2) by simp_all
  from push_batch_ok[OF vd(1) ba sched_viewD(2)[OF vd(4)], unfolded vd(2)] obtain s' e' where
    s': "push_batch ?i ?s = Inr s'" "batch s' ?i (LOCAL ?s ?i) (replicate (unat n) [])" "runtime s' ep e' wps (map2 (@) qs (bs ?i))" by blast
  have "length qs = length (bs ?i)" using vd(1) ba(2) by (simp add: runtime_def)
  from set_concat_map2[OF this] have sub: "set (concat (bs ?i)) \<subseteq> set (concat (map2 (@) qs (bs ?i)))" by blast
  have i: "i < unat m" using r(4) assms(6) by (metis not_le shutdown_phase_def x_pc.distinct(3))
  define u where "u = s\<lparr>rx_life := ?L\<lparr>l_rt := s'\<rparr>, rx_net := rx_net s\<lparr>net_mio :=
    at_local i (\<lambda>l. l\<lparr>l_pc := E_pop False, l_notices := l_notices l @ [Push_batch]\<rparr>) (net_mio (rx_net s))\<rparr>\<rparr>"
  have "rx_act S may m (unat n) (X_event_loop i evs p) s = Some u"
    using assms(6,7) s'(1) i life_invD(1)[OF r(1)] r(3) mio_invD(1)[OF net_invD(1)[OF r(2)]]
    by (simp add: rx_act_def rx_loop_def rt_do_def net_go_def net_act_def on_rt_def l_do_def loop_step_def u_def Let_def)
  moreover have "l_pc (locals (net_mio (rx_net u)) i) = E_pop False" "l_rt (rx_life u) = s'" by (simp_all add: u_def)
  ultimately show ?thesis using ba(1) s'(2,3) sub by blast
qed

section \<open>A run\<close>

text \<open>
  One worker, one event loop.  The main task binds a listener, gets an acceptor and waits; an event of the listener
  is polled and dispatched.
\<close>

definition rx_start :: "(unit, Slot option list) reactor" where
  "rx_start = \<lparr>rx_life = leak_life, rx_net = net_start, rx_at = (\<lambda>_. X_none), rx_status = (\<lambda>_. D_MUTED), rx_waker = Map.empty, rx_boxed = {},
     rx_join = None, rx_bad = False\<rparr>"

definition rx_to_notify :: "unit xlabel list" where
  "rx_to_notify = [X_main 9 (), X_event_loop 0 [] 20, X_main 4 (), X_work 0 [9] C_rng, X_work 0 [9] C_rng, X_work 0 [9] (C_clone 0),
     X_net (Bind 0) 0, X_net (net_label.Build 0 Insert) 0, X_net (net_label.Build 0 (Register True)) 0, X_net (Acceptor 0 5) 0,
     X_prepare_io True 0, X_wait_io False True 0, X_work 0 [9] (C_return False), X_work 0 [9] C_rng, X_event_loop 0 [] 9,
     X_event_loop 0 [one_event] 9, X_event_loop 0 [] 9]"

text \<open>The task is woken, and the loop goes on to flush its batch.\<close>

definition rx_to_flush :: "unit xlabel list" where
  "rx_to_flush = [X_event_loop 0 [] 9, X_event_loop 0 [] 9]"

lemmas rx_eval = rx_act_def rx_main_def rx_loop_def rx_notify_def rx_net_call_def rx_mio_shutdown_def rt_do_def net_go_def x_go_def
  rx_attach_def rx_detach_def unlocked_def live_waker_def mio_spawn_event_loop_def BatchGuard_new_def RuntimeLocalData_new_def
  fn_wake_by_ref_def wake_def RuntimeLocalData_get_def get_unchecked_def deref_local_def get_worker_id_def set_local_def
  push_batch_def RuntimeLocalData_get_unchecked_def BatchGuard_drop_def pop_all_def notified_ok_def
  prepare_io_def wait_io_def on_half_def D_MUTED_def D_NOTIFIED_def

text \<open>
  A thread of the user wakes the task, which is running, through a clone of its waker.  The task asks for the shutdown,
  drops the acceptor and the listener, and returns; the loop removes the key and ends.
\<close>

definition rx_to_end :: "unit xlabel list" where
  "rx_to_end = [X_event_loop 0 [] 9, X_event_loop 0 [] 9, X_work 0 [9] C_rng, X_work 0 [9] C_rng, X_work 0 [9] C_rng, X_work 0 [9]
     (C_clone 1), X_wake 2 1, X_drop_waker 1, X_work 0 [9] (C_shutdown_async [5]), X_net (Close_half 0 True) 0, X_net (Drop_half 0 True) 0, X_net (Drop_cell 0) 0, X_net (Drop_cell 0)
     0, X_work 0 [9] (C_return True), X_work 0 [9] C_rng, X_work 0 [9] C_rng, X_work 0 [9] C_rng, X_work 0 [9] C_rng, X_work 0 [9]
     C_rng, X_work 0 [9] C_rng, X_work 0 [9] C_rng, X_main 9 (), X_main 9 (), X_main 9 (), X_event_loop 0 [] 9, X_event_loop
     0 [] 9, X_event_loop 0 [] 9, X_event_loop 0 [] 9, X_event_loop 0 [] 9, X_main 9 (), X_main 9 (), X_main 9
     (), X_main 9 ()]"

lemma one_active: "(1 :: u32) AND mask 9 = 1" "(mask 9 :: u32) = 511"
  by (simp_all add: mask_eq_exp_minus_1)

lemmas rx_replay = one_active rx_start_def leak_life_def leak_rt_def leak_worker_def net_start_def rx_eval leak_eval net_replay mio_replay
  MIOCell_drop_def deregister_def drop_cell_def

lemma rx_run:
  "\<exists>s. run (rx_act vec_slab any_poll 1 1) rx_to_notify rx_start = Some s \<and> rx_at s 0 = X_notify [Notify 5] \<and>
     l_wakers (rx_life s) 0 = Some 4 \<and> rx_waker s 5 = Some 0 \<and> t_status (task_at (l_rt (rx_life s)) 4) = 0 \<and> rx_status s 5 = 0 \<and>
     (\<exists>t. run (rx_act vec_slab any_poll 1 1) rx_to_flush s = Some t \<and> rx_at t 0 = X_loop \<and>
        l_pc (locals (net_mio (rx_net t)) 0) = E_flush \<and> h_read (hnds (rx_net t) 0) = Lent 5 \<and>
        (\<exists>u. run (rx_act vec_slab any_poll 1 1) rx_to_end t = Some u \<and> l_main (rx_life u) = M_end))"
  by (simp add: torn_down_def rx_to_notify_def rx_to_flush_def rx_to_end_def rx_replay task_at_def for_each_none)

lemma rx_start_init: "rx_init vec_slab 1 fifo_lot 1 leak_life rx_start"
  using leak_init one_init by (auto simp: rx_init_def net_init_def rx_start_def net_start_def)

abbreviation rx_example :: "(unit, Slot option list) reactor \<Rightarrow> bool" where
  "rx_example \<equiv> rx_reach vec_slab any_poll 1 fifo_lot 1 leak_life"

lemma rx_example_reach:
  "\<exists>s t u. rx_example s \<and> rx_at s 0 = X_notify [Notify 5] \<and> l_wakers (rx_life s) 0 = Some 4 \<and> rx_waker s 5 = Some 0 \<and>
     t_status (task_at (l_rt (rx_life s)) 4) = 0 \<and> rx_status s 5 = 0 \<and>
     rx_example t \<and> rx_at t 0 = X_loop \<and> l_pc (locals (net_mio (rx_net t)) 0) = E_flush \<and> h_read (hnds (rx_net t) 0) = Lent 5 \<and>
     rx_example u \<and> l_main (rx_life u) = M_end"
proof -
  obtain s t u where r: "run (rx_act vec_slab any_poll 1 1) rx_to_notify rx_start = Some s"
    "run (rx_act vec_slab any_poll 1 1) rx_to_flush s = Some t" "run (rx_act vec_slab any_poll 1 1) rx_to_end t = Some u"
    and at: "rx_at s 0 = X_notify [Notify 5]" "l_wakers (rx_life s) 0 = Some 4" "rx_waker s 5 = Some 0"
      "t_status (task_at (l_rt (rx_life s)) 4) = 0" "rx_status s 5 = 0" "rx_at t 0 = X_loop"
      "l_pc (locals (net_mio (rx_net t)) 0) = E_flush" "h_read (hnds (rx_net t) 0) = Lent 5" "l_main (rx_life u) = M_end"
    using rx_run by blast
  have one: "unat (1 :: u32) = 1" by simp
  have s: "rx_example s" unfolding one by (rule reach_run[of "rx_init vec_slab 1 fifo_lot 1 leak_life", OF rx_start_init r(1)])
  have t: "rx_example t" using reach_steps[OF s] run_steps[OF r(2)] unfolding one by blast
  have u: "rx_example u" using reach_steps[OF t] run_steps[OF r(3)] unfolding one by blast
  show ?thesis using s t u at by blast
qed

lemmas example_ops = fifo.parking_lot_ops_axioms vec.slab_ops_axioms any.poll_events_axioms

theorem mio_runtime_refines_witness:
  "\<exists>s. rx_example s \<and> l_main (rx_life s) = M_end \<and> (life_step (unat (1 :: u32)))\<^sup>*\<^sup>* leak_life (rx_life s) \<and> \<not> rx_bad s"
proof -
  obtain s where s: "rx_example s" "l_main (rx_life s) = M_end" using rx_example_reach by blast
  from mio_runtime_refines[OF example_ops _ s(1)] s show ?thesis by auto
qed

theorem mio_runtime_order_witness:
  "(\<exists>s. rx_example s \<and> l_main (rx_life s) = M_end \<and> rx_at s 0 = X_end) \<and>
   (\<exists>s. rx_example s \<and> (\<exists>w t. rx_waker s 5 = Some w \<and> l_wakers (rx_life s) w = Some t \<and> is_task (l_rt (rx_life s)) t))"
proof
  obtain s where s: "rx_example s" "l_main (rx_life s) = M_end" using rx_example_reach by blast
  have "past_shutdown (l_main (rx_life s))" using s(2) by (simp add: past_shutdown_def torn_down_def)
  with mio_runtime_order[OF example_ops _ s(1)] have "rx_at s 0 = X_end" by simp
  with s show "\<exists>s. rx_example s \<and> l_main (rx_life s) = M_end \<and> rx_at s 0 = X_end" by blast
next
  obtain s where s: "rx_example s" "h_read (hnds (rx_net s) 0) = Lent 5" using rx_example_reach by blast
  have "half True (hnds (rx_net s) 0) = Lent 5" using s(2) by (simp add: half_def)
  with mio_runtime_order[OF example_ops _ s(1)] s(1)
  show "\<exists>s. rx_example s \<and> (\<exists>w t. rx_waker s 5 = Some w \<and> l_wakers (rx_life s) w = Some t \<and> is_task (l_rt (rx_life s)) t)"
    by (metis one_neq_zero)
qed

theorem event_schedules_task_witness:
  "\<exists>s u b bs. rx_example s \<and> rx_act vec_slab any_poll 1 1 (X_event_loop 0 [] 9) s = Some u \<and>
     batch (l_rt (rx_life u)) 1 b bs \<and> 4 \<in> set (concat bs)"
proof -
  obtain s where s: "rx_example s" "rx_at s 0 = X_notify [Notify 5]" "l_wakers (rx_life s) 0 = Some 4" "rx_waker s 5 = Some 0"
    "t_status (task_at (l_rt (rx_life s)) 4) = 0" "rx_status s 5 = 0" using rx_example_reach by blast
  have "live_waker 5 s = Some 0" using s(3,4) by (simp add: live_waker_def)
  with event_schedules_task[OF example_ops _ s(1,2), of "[]" 9] s(3,5,6) have
    "\<exists>u b bs. rx_act vec_slab any_poll 1 1 (X_event_loop 0 [] 9) s = Some u \<and> batch (l_rt (rx_life u)) 1 b bs \<and> 4 \<in> set (concat bs)"
    by auto
  then show ?thesis using s(1) by blast
qed

theorem turn_flushes_batch_witness:
  "\<exists>s u. rx_example s \<and> rx_act vec_slab any_poll 1 1 (X_event_loop 0 [] 9) s = Some u \<and>
     (\<exists>b. batch (l_rt (rx_life u)) 1 b [[]])"
proof -
  obtain s where s: "rx_example s" "rx_at s 0 = X_loop" "l_pc (locals (net_mio (rx_net s)) 0) = E_flush" using rx_example_reach by blast
  from turn_flushes_batch[OF example_ops _ s, of "[]" 9] s(1) show ?thesis by auto
qed

end
