(* ===== verification/Benchmarks.thy ===== *)
theory Benchmarks
  imports Prelude
begin

text \<open>
  The counters of two small programs of \<open>yaay-tests/src\<close>, at their width.  \<open>mutex_and_faa.rs\<close> locks a mutex and
  increments a counter until the counter was zero, and prints the time divided by \<open>u32::max_value()\<close>;
  \<open>mio_empty.rs\<close> spawns \<open>N\<close> tasks that count, and the task that finds \<open>N - 1\<close> ends the process.
\<close>

section \<open>Definitions\<close>

text \<open>The number of rounds of the loop, and the last value of the counter.\<close>

function faa_loop :: "u32 \<Rightarrow> nat \<times> u32" where
  "faa_loop counter =
     (if counter = 0 then (1, counter + 1) else let (k, c) = faa_loop (counter + 1) in (Suc k, c))"
  by auto

definition rounds_left :: "u32 \<Rightarrow> nat" where
  "rounds_left c = (if c = 0 then 0 else 2 ^ 32 - unat c)"

lemma u32_less: "unat (c :: u32) < 4294967296"
  using unsigned_less[of c] by simp

lemma unat_Suc_u32: "unat (c + 1 :: u32) = (if Suc (unat c) = 4294967296 then 0 else Suc (unat c))"
  using u32_less[of c] by (simp add: unat_word_ariths)

lemma rounds_left_Suc:
  assumes "c \<noteq> 0"
  shows "rounds_left c = Suc (rounds_left (c + 1))"
proof -
  have "c + 1 = 0 \<longleftrightarrow> unat (c + 1) = 0" by (simp add: unat_eq_0)
  then show ?thesis using assms u32_less[of c] unat_Suc_u32[of c] by (auto simp: rounds_left_def split: if_splits)
qed

termination faa_loop
  by (relation "measure rounds_left") (simp_all add: rounds_left_Suc)

text \<open>The tasks \<open>empty\<close> of \<open>mio_empty.rs\<close>, \<open>k\<close> of them, one after the other: \<open>Some\<close> how many ran when the process ended.\<close>

fun empty_tasks :: "u32 \<Rightarrow> nat \<Rightarrow> u32 \<Rightarrow> nat option" where
  "empty_tasks N 0 COUNT = None"
| "empty_tasks N (Suc k) COUNT =
     (if COUNT = N - 1 then Some 1 else map_option Suc (empty_tasks N k (COUNT + 1)))"

lemma faa_loop_rounds: "faa_loop c = (Suc (rounds_left c), 1)"
proof (induction c rule: faa_loop.induct)
  case (1 c)
  show ?case
  proof (cases "c = 0")
    case True
    then show ?thesis by (subst faa_loop.simps) (simp add: rounds_left_def)
  next
    case False
    then show ?thesis using 1 rounds_left_Suc[OF False] by (subst faa_loop.simps) (simp del: faa_loop.simps)
  qed
qed

lemma empty_tasks_count:
  "unat c + k \<le> unat N \<Longrightarrow> empty_tasks N k c = (if 0 < k \<and> unat c + k = unat N then Some k else None)"
proof (induction k arbitrary: c)
  case (Suc k)
  have "c = N - 1 \<longleftrightarrow> c + 1 = N" by auto
  also have "\<dots> \<longleftrightarrow> unat (c + 1) = unat N" by (simp add: word_unat_eq_iff)
  finally have last: "c = N - 1 \<longleftrightarrow> unat c + 1 = unat N"
    using Suc.prems u32_less[of N] by (simp add: unat_Suc_u32)
  show ?case
  proof (cases "c = N - 1")
    case True
    then show ?thesis using last Suc.prems by simp
  next
    case False
    then have "unat (c + 1) = Suc (unat c)" using Suc.prems last u32_less[of N] by (simp add: unat_Suc_u32)
    then show ?thesis using False last Suc.IH[of "c + 1"] Suc.prems by auto
  qed
qed simp

section \<open>Properties\<close>

text \<open>
  \<open>mutex_and_faa\<close> ends, by the wrap-around of its counter.  The loop runs exactly \<open>2 ^ 32\<close> times, one more than
  the \<open>u32::max_value()\<close> the elapsed time is divided by, and leaves the counter at 1 again.
\<close>

lemma faa_loop_wraps: "faa_loop 1 = (2 ^ 32, 1)"
  by (simp add: faa_loop_rounds rounds_left_def del: faa_loop.simps)

text \<open>\<open>mio_empty\<close>: of \<open>N\<close> tasks it is the last one that ends the process, none before.\<close>

lemma mio_empty_exits: "N \<noteq> 0 \<Longrightarrow> empty_tasks N (unat N) 0 = Some (unat N)" "k < unat N \<Longrightarrow> empty_tasks N k 0 = None"
  by (simp_all add: empty_tasks_count unat_gt_0)

end
