(* ===== verification/Spawn_Defer.thy ===== *)
theory Spawn_Defer
  imports Runtime
begin

text \<open>
  The benchmarks of \<open>spawn\<close> and \<open>defer\<close> (\<open>yaay-tests/src/spawn_defer_bench.rs\<close>): the main task creates one task
  \<open>work\<close> per iteration and then shuts the runtime down.  How many iterations there are is the bencher's choice:
  there is one address for each.  \<open>sd\<close> is the future \<open>Shutdown\<close> and \<open>ds\<close> are the addresses of its tasks.
\<close>

section \<open>Definitions\<close>

fun bench_iter :: "(addr \<Rightarrow> 'f rt \<Rightarrow> 'f rt res) \<Rightarrow> addr list \<Rightarrow> 'f rt \<Rightarrow> 'f rt res" where
  "bench_iter body [] s = Inr s"
| "bench_iter body (p # ps) s = bind_r (body p s) (bench_iter body ps)"

definition spawn_bench_async_main :: "'f \<Rightarrow> 'f \<Rightarrow> addr list \<Rightarrow> addr list \<Rightarrow> tid \<Rightarrow> 'f rt \<Rightarrow> 'f rt res" where
  "spawn_bench_async_main work sd ps ds i s =
     bind_r (bench_iter (\<lambda>p. MTRuntime_spawn p work i) ps s) (shutdown_async sd ds)"

definition defer_bench_async_main :: "'f \<Rightarrow> 'f \<Rightarrow> addr list \<Rightarrow> addr list \<Rightarrow> tid \<Rightarrow> 'f rt \<Rightarrow> 'f rt res" where
  "defer_bench_async_main work sd ps ds i s =
     bind_r (bench_iter (\<lambda>p. MTRuntime_defer p work i) ps s) (shutdown_async sd ds)"

section \<open>One iteration\<close>

lemma spawn_iteration:
  assumes rt: "runtime s ep e wps qs" and k: "k < length wps" "LOCAL s i = wps ! k"
    and p: "p \<noteq> null" "p \<notin> dom (mem s)" and j: "j = spawn_target (length wps) k (seed_of s (wps ! k))"
  shows "\<exists>s' e'. MTRuntime_spawn p fut i s = Inr s' \<and> runtime s' ep e' wps (qs[j := qs ! j @ [p]]) \<and>
    seed_of s' (wps ! k) = next_seed (seed_of s (wps ! k)) \<and> LOCAL s' = LOCAL s \<and> dom (mem s') = insert p (dom (mem s))"
proof -
  from Task_new_ok[OF rt p(1), of fut] p(2) obtain s1 where
    s1: "Task_new p fut s = Inr (p, s1)" "runtime s1 ep e wps qs" "p \<notin> set (concat qs)"
      "is_task s1 p" "\<forall>a. a \<noteq> p \<longrightarrow> mem s1 a = mem s a" "LOCAL s1 = LOCAL s" by (auto simp: alloc_ok_def)
  obtain w where w: "Worker_get i s1 = Inr (wps ! k, w)" using local_worker[OF s1(2) k(1)] k(2) s1(6) by auto
  obtain u where "mem s (wps ! k) = Some (Init (Obj_worker u))" using runtime_worker[OF rt k(1)] by blast
  then have "wps ! k \<noteq> p" using p by auto
  then have sd: "seed_of s1 (wps ! k) = seed_of s (wps ! k)" using s1(5) by (simp add: seed_of_def)
  from spawn_ok[OF s1(2) k(1) s1(4,3) j[folded sd]] obtain s2 where
    s2: "spawn_w (wps ! k) p s1 = Inr s2" "runtime s2 ep (if j = k then e else e + EPOCH) wps (qs[j := qs ! j @ [p]])"
      "seed_of s2 (wps ! k) = next_seed (seed_of s1 (wps ! k))" "touches (set (concat qs)) (insert ep (set wps)) s1 s2" by blast
  have "dom (mem s1) = insert p (dom (mem s))" using s1(4,5) by (auto simp: is_task_def dom_def)
  then have "dom (mem s2) = insert p (dom (mem s))" using touches_dom[OF s2(4)] by (auto simp: dom_def)
  then show ?thesis using s1(1,6) w s2 sd s2(4) by (auto simp: MTRuntime_spawn_def touches_def)
qed

lemma defer_iteration:
  assumes rt: "runtime s ep e wps qs" and k: "k < length wps" "LOCAL s i = wps ! k" and p: "p \<noteq> null" "p \<notin> dom (mem s)"
  shows "\<exists>s'. MTRuntime_defer p fut i s = Inr s' \<and> runtime s' ep e wps (qs[k := p # qs ! k]) \<and>
    LOCAL s' = LOCAL s \<and> dom (mem s') = insert p (dom (mem s))"
proof -
  from Task_new_ok[OF rt p(1), of fut] p(2) obtain s1 where
    s1: "Task_new p fut s = Inr (p, s1)" "runtime s1 ep e wps qs" "p \<notin> set (concat qs)"
      "is_task s1 p" "\<forall>a. a \<noteq> p \<longrightarrow> mem s1 a = mem s a" "LOCAL s1 = LOCAL s" by (auto simp: alloc_ok_def)
  obtain w where w: "Worker_get i s1 = Inr (wps ! k, w)" using local_worker[OF s1(2) k(1)] k(2) s1(6) by auto
  from on_queue_push_front[OF s1(2) k(1) s1(4,3)] obtain s2 where
    s2: "on_queue (wps ! k) (\<lambda>l. push_front l p) s1 = Inr s2" "runtime s2 ep e wps (qs[k := p # qs ! k])" "keeps s1 s2" by blast
  have "dom (mem s2) = insert p (dom (mem s))" using s2(3) s1(4,5) unfolding keeps_def is_task_def by (auto simp: dom_def)
  then show ?thesis using s1(1,6) w s2 by (auto simp: MTRuntime_defer_def defer_w_def keeps_def)
qed

section \<open>Behaviour\<close>

lemma spawn_iter_ok:
  assumes "runtime s ep e wps qs" "k < length wps" "LOCAL s i = wps ! k" "length wps dvd 32"
    and "distinct ps" "null \<notin> set ps" "set ps \<inter> dom (mem s) = {}" "j = spawn_target (length wps) k (seed_of s (wps ! k))"
  shows "\<exists>s' e'. bench_iter (\<lambda>p. MTRuntime_spawn p fut i) ps s = Inr s' \<and> runtime s' ep e' wps (qs[j := qs ! j @ ps]) \<and>
    dom (mem s') = set ps \<union> dom (mem s)"
  using assms
proof (induction ps arbitrary: s e qs)
  case (Cons p ps)
  have jl: "j < length qs" using Cons.prems(1,2,8) spawn_target_less by (simp add: runtime_def)
  from spawn_iteration[OF Cons.prems(1-3) _ _ Cons.prems(8), of p fut] Cons.prems(6,7) obtain s1 e1 where
    s1: "MTRuntime_spawn p fut i s = Inr s1" "runtime s1 ep e1 wps (qs[j := qs ! j @ [p]])"
      "seed_of s1 (wps ! k) = next_seed (seed_of s (wps ! k))" "LOCAL s1 = LOCAL s" "dom (mem s1) = insert p (dom (mem s))" by auto
  have "\<exists>s' e'. bench_iter (\<lambda>p. MTRuntime_spawn p fut i) ps s1 = Inr s' \<and>
      runtime s' ep e' wps ((qs[j := qs ! j @ [p]])[j := (qs[j := qs ! j @ [p]]) ! j @ ps]) \<and> dom (mem s') = set ps \<union> dom (mem s1)"
    by (rule Cons.IH[OF s1(2)]) (use Cons.prems s1 spawn_target_same[OF Cons.prems(4)] in auto)
  then show ?case using s1(1,5) jl by auto
qed (auto simp: list_update_id)

lemma defer_iter_ok:
  assumes "runtime s ep e wps qs" "k < length wps" "LOCAL s i = wps ! k"
    and "distinct ps" "null \<notin> set ps" "set ps \<inter> dom (mem s) = {}"
  shows "\<exists>s'. bench_iter (\<lambda>p. MTRuntime_defer p fut i) ps s = Inr s' \<and> runtime s' ep e wps (qs[k := rev ps @ qs ! k]) \<and>
    dom (mem s') = set ps \<union> dom (mem s)"
  using assms
proof (induction ps arbitrary: s qs)
  case (Cons p ps)
  have kl: "k < length qs" using Cons.prems(1,2) by (simp add: runtime_def)
  from defer_iteration[OF Cons.prems(1-3), of p fut] Cons.prems(5,6) obtain s1 where
    s1: "MTRuntime_defer p fut i s = Inr s1" "runtime s1 ep e wps (qs[k := p # qs ! k])"
      "LOCAL s1 = LOCAL s" "dom (mem s1) = insert p (dom (mem s))" by auto
  have "\<exists>s'. bench_iter (\<lambda>p. MTRuntime_defer p fut i) ps s1 = Inr s' \<and>
      runtime s' ep e wps ((qs[k := p # qs ! k])[k := rev ps @ (qs[k := p # qs ! k]) ! k]) \<and> dom (mem s') = set ps \<union> dom (mem s1)"
    by (rule Cons.IH[OF s1(2)]) (use Cons.prems s1 in auto)
  then show ?case using s1(1,4) kl by auto
qed (auto simp: list_update_id)

text \<open>
  \<open>spawn_bench\<close>: with 4 workers, as in the benchmark, every \<open>work\<close> task of the run goes to one queue, and when the
  main task returns each queue starts with a \<open>Shutdown\<close> task: no worker needs to run any \<open>work\<close> that is still
  queued.  \<open>defer_bench\<close> leaves them in the main task's own queue, the last one first.
\<close>

lemma spawn_bench_queues:
  assumes "runtime s ep e wps qs" and "k < length wps" and "LOCAL s i = wps ! k" and "length wps dvd 32"
    and "distinct (ps @ ds)" and "null \<notin> set (ps @ ds)" and "set (ps @ ds) \<inter> dom (mem s) = {}" and "length ds = length wps"
    and "j = spawn_target (length wps) k (seed_of s (wps ! k))"
  shows "\<exists>s' e'. spawn_bench_async_main work sd ps ds i s = Inr s' \<and> runtime s' ep e' wps (map2 (#) ds (qs[j := qs ! j @ ps]))"
proof -
  from spawn_iter_ok[OF assms(1-4) _ _ _ assms(9), of ps work] assms(5-7) obtain s1 e1 where
    s1: "bench_iter (\<lambda>p. MTRuntime_spawn p work i) ps s = Inr s1" "runtime s1 ep e1 wps (qs[j := qs ! j @ ps])"
      "dom (mem s1) = set ps \<union> dom (mem s)" by (auto simp: Int_Un_distrib2)
  have "\<forall>p\<in>set ds. p \<noteq> null \<and> alloc_ok p (mem s1)" using assms(5-7) s1(3) by (auto simp: alloc_ok_def)
  from shutdown_async_pushes[OF s1(2) assms(8) _ this, of sd] assms(5) s1(1) show ?thesis
    by (auto simp: spawn_bench_async_main_def)
qed

lemma defer_bench_queues:
  assumes "runtime s ep e wps qs" and "k < length wps" and "LOCAL s i = wps ! k"
    and "distinct (ps @ ds)" and "null \<notin> set (ps @ ds)" and "set (ps @ ds) \<inter> dom (mem s) = {}" and "length ds = length wps"
  shows "\<exists>s' e'. defer_bench_async_main work sd ps ds i s = Inr s' \<and> runtime s' ep e' wps (map2 (#) ds (qs[k := rev ps @ qs ! k]))"
proof -
  from defer_iter_ok[OF assms(1-3), of ps work] assms(4-6) obtain s1 where
    s1: "bench_iter (\<lambda>p. MTRuntime_defer p work i) ps s = Inr s1" "runtime s1 ep e wps (qs[k := rev ps @ qs ! k])"
      "dom (mem s1) = set ps \<union> dom (mem s)" by (auto simp: Int_Un_distrib2)
  have "\<forall>p\<in>set ds. p \<noteq> null \<and> alloc_ok p (mem s1)" using assms(4-6) s1(3) by (auto simp: alloc_ok_def)
  from shutdown_async_pushes[OF s1(2) assms(7) _ this, of sd] assms(4) s1(1) show ?thesis
    by (auto simp: defer_bench_async_main_def)
qed

lemma example_space: "set ([9, 10] @ [11, 12]) \<inter> dom (mem example_rt) = {}"
  by (simp add: example_rt_def)

lemma spawn_bench_queues_example:
  "\<exists>s' e'. spawn_bench_async_main () () [9, 10] [11, 12] 0 example_rt = Inr s' \<and> runtime s' 2 e' [3, 4] [[11, 9, 10], [12, 5]]"
proof -
  have "Suc (Suc 0) dvd (32 :: nat)" by (simp flip: numeral_2_eq_2)
  moreover have "0 = spawn_target 2 0 (seed_of example_rt 3)" by (simp add: example_seed spawn_target_def)
  ultimately show ?thesis
    using spawn_bench_queues[OF example_runtime _ _ _ _ _ example_space, of 0 0 0 "()" "()"]
    by (simp add: example_objects numeral_2_eq_2)
qed

end
