(* ===== verification/Spec2Isabelle.thy ===== *)
theory Spec2Isabelle
  imports Scheduler_Jobs Scheduler_Shutdown Startup Loop_Startup Dispatcher Tcp Lifecycle_Safety Concurrent_Wakeup Ping_Pong
    Mio_Shutdown Reactor_Safety Benchmarks Spawn_Defer
begin

text \<open>
  \<^bold>\<open>A verification of the yaay crates\<close>

  The program.  yaay is a multi-threaded runtime for Rust futures.  A \<open>Task\<close> wraps a future in a
  manually managed, reference counted block of memory with an atomic status byte; a waker is a counted
  pointer to it.  Each worker thread owns a locked queue of tasks, an intrusive linked list; it drains
  its queue, then steals from others, then sleeps in a parking lot guarded by the packed epoch word.
  Reactor threads wake tasks in batches.  \<open>shutdown_async\<close> sends every worker a \<open>Shutdown\<close> task, and
  the main thread tears the memory down.  The crate \<open>yaay-mio\<close> is such a reactor: event loops poll
  sockets and notify dispatchers, through which a task waits for its socket.

  \<^bold>\<open>Theories and the code they model\<close> (files under \<open>src/yaay-mt-runtime/src\<close>, and
  under \<open>src/yaay-mio/src\<close> for \<open>Dispatcher\<close>, \<open>Event_Loop\<close>, \<open>Loop_Startup\<close>, \<open>Mio_Shutdown\<close>, \<open>Sockets\<close> and
  \<open>Tcp\<close>, and under \<open>src/yaay-tests/src\<close> for the test programs)

  \<^item> \<open>Prelude\<close>: machine integers, \<open>fault\<close> (every undefined behaviour and panic the code can run into),
    the result type \<open>res\<close>, checked arithmetic and slice access; shared lemmas.
  \<^item> \<open>Transition\<close>: reachable states of an interleaving system, the locale \<open>inductive_invariant\<close>,
    \<open>avoiding\<close>, which counts the helpful steps of a run that has not reached its goal, and \<open>run\<close>, which replays a schedule.
  \<^item> \<open>Rng\<close> (\<open>rng.rs\<close>), \<open>Epoch\<close> (\<open>epoch.rs\<close>): the seed and the packed word, one definition per
    function.  The locale \<open>activity_counter\<close> is the contract of the word as a pair of counters.
  \<^item> \<open>Memory\<close> (\<open>mem.rs\<close>), \<open>Runtime_State\<close> (\<open>shared.rs\<close> and the structs of \<open>task.rs\<close>,
    \<open>task_list.rs\<close>, \<open>worker.rs\<close>, \<open>worker_manager.rs\<close>): one heap of typed blocks for all objects the
    crate allocates, the untyped pointers \<open>GLOBAL\<close> and \<open>LOCAL\<close>, and the accesses through them.
  \<^item> \<open>Task_List\<close> (\<open>task_list.rs\<close>): the linked list on that heap; the locale \<open>node_store\<close> is the
    interface of the nodes, \<open>queue_at s l xs\<close> says that list \<open>l\<close> holds the tasks \<open>xs\<close>.
  \<^item> \<open>Task\<close> (\<open>task.rs\<close>, \<open>task_waker.rs\<close>, \<open>batch.rs\<close>), \<open>Worker\<close> (\<open>worker.rs\<close>),
    \<open>Worker_Manager\<close> (\<open>worker_manager.rs\<close>), \<open>Runtime\<close> (\<open>runtime.rs\<close>): the operations as sequential
    functions on the state \<open>rt\<close>, which return the new state or the fault they run into.  \<open>Runtime_View\<close>
    defines the view \<open>runtime s ep e wps qs\<close> of such a state as an epoch word and a list of queues;
    \<open>Wake\<close>, \<open>Worker\<close>, \<open>Worker_Manager\<close> and \<open>Runtime\<close> show what each operation does to it.
  \<^item> \<open>Task_Protocol\<close> (\<open>task.rs\<close>, \<open>task_waker.rs\<close>): the life of one task under concurrency.  Every
    atomic access of the status and the count is one step; any number of threads and wakers.
  \<^item> \<open>Scheduler\<close> (\<open>worker.rs\<close>, \<open>epoch.rs\<close>, \<open>batch.rs\<close>, \<open>runtime.rs\<close>): \<open>main_loop\<close> of all workers
    under concurrency, with outside threads that push and a clock.  One step is one atomic access, one
    locked section of a queue, or one call into the parking lot.  \<open>Scheduler_Invariant\<close>,
    \<open>Scheduler_Jobs\<close>, \<open>Scheduler_Shutdown\<close>: its invariants and properties.
  \<^item> \<open>Parking\<close>: the interface of \<open>parking_lot_core\<close> and of the condition variables of \<open>parking_lot\<close>;
    \<open>Rendezvous\<close>: the locale \<open>rendezvous\<close>, threads that meet at a condition variable, interpreted by
    both starts.
  \<^item> \<open>Startup\<close> (\<open>worker_manager.rs\<close>, \<open>runtime.rs\<close>): \<open>WorkerManager::new\<close>, \<open>builder\<close>, \<open>wait\<close> and
    \<open>WorkerBuilder::build\<close> under concurrency, on the memory of the sequential model: what it ends with
    is a state \<open>runtime s ep n wps [[], \<dots>, []]\<close>, from which the lemmas on the operations start.
  \<^item> \<open>Lifecycle\<close> (\<open>runtime.rs\<close>, with \<open>worker.rs\<close> and \<open>task.rs\<close>): the second half of \<open>run_with\<close>, from there to
    its end.  The main thread, the workers in \<open>main_loop\<close> and \<open>Task::poll\<close>, the futures they poll, reactor
    threads and owners of wakers interleave, one step being one operation of the sequential model on the
    memory \<open>rt\<close>.  \<open>Lifecycle_Invariant\<close> defines what every reachable memory looks like, by giving each block a
    \<open>kind\<close>; \<open>Lifecycle_Workers\<close> and \<open>Lifecycle_Others\<close> show that the steps keep it, \<open>Lifecycle_Safety\<close>
    draws the conclusions.
  \<^item> \<open>Dispatcher\<close> (\<open>dispatcher.rs\<close>, \<open>macros.rs\<close>, \<open>shared.rs\<close>): one dispatcher between the task that
    waits for its socket and the event loop, every atomic access of the status one step.
  \<^item> \<open>Event_Loop\<close> (\<open>container.rs\<close>, \<open>shared.rs\<close>, \<open>dispatcher.rs\<close>): any number of sockets and loops, the
    slab of slots, the deferred removal of keys, every locked section one step.  \<open>Loop_Startup\<close>
    (\<open>shared.rs\<close>): \<open>GlobalData::build\<close> under concurrency, which ends in a start state of
    \<open>Event_Loop\<close>.  \<open>Mio_Shutdown\<close> (\<open>prelude.rs\<close>): \<open>mio_shutdown\<close>, which ends them.
  \<^item> \<open>Sockets\<close> (\<open>net/tcp_listener.rs\<close>, \<open>net/tcp_stream.rs\<close>, \<open>container.rs\<close>): the handles, acceptors, readers and
    writers that tasks own, with the \<open>Arc\<close> they share, on top of \<open>Event_Loop\<close>; its only guards are ownership.
    \<open>Tcp\<close> (\<open>macros.rs\<close>, \<open>net/tcp_stream.rs\<close>): the loop of \<open>io_poll!\<close> and the reads and writes of a stream.
  \<^item> \<open>Reactor\<close> (\<open>runtime.rs\<close>, \<open>prelude.rs\<close>, \<open>shared.rs\<close> 94 to 130, \<open>dispatcher.rs\<close>): the two crates together, the way
    \<open>mio_ping_pong.rs\<close> puts them together.  It composes \<open>Lifecycle\<close> with \<open>Sockets\<close>: the event loops are
    threads of the runtime with a \<open>BatchGuard\<close>, the dispatchers own wakers of its tasks, and \<open>on_start\<close> and
    \<open>on_shutdown\<close> start, stop and join the loops.  \<open>Reactor_Invariant\<close> shows that every step of the composition is
    made of steps of the two parts, with all their guards met; \<open>Reactor_Safety\<close> draws the conclusions.
  \<^item> \<open>Concurrent_Wakeup\<close> (\<open>concurrent_wakeup.rs\<close>): the test, on top of \<open>Task_Protocol\<close>.  \<open>Ping_Pong\<close>
    (\<open>mio_ping_pong.rs\<close>): the benchmark, on top of the operations of \<open>Tcp\<close>.  \<open>Benchmarks\<close>
    (\<open>mutex_and_faa.rs\<close>, \<open>mio_empty.rs\<close>): the counters of two small programs.  \<open>Spawn_Defer\<close>
    (\<open>spawn_defer_bench.rs\<close>): the main tasks of the two benchmarks, on the sequential model.

  \<^bold>\<open>What is shown\<close>

  \<^item> Tasks: a task is in at most one queue and polled by at most one thread; its memory is never
    touched after it is freed, its future is dropped at most once, and the count, a wrapping word, is the number of live
    wakers plus the runtime's reference; no wake-up is lost, and a woken task is polled again after at most two
    more steps of the thread on duty for it, whatever the other threads do (\<open>woken_task_gets_polled\<close>).
  \<^item> Scheduling: Lemmas A, B and D of the documentation in \<open>epoch.rs\<close> (a parked worker with work is about to be
    released, no deadlock; Lemma C does not hold of the code, see \<open>shutdown_can_hang\<close>), exactness of the active
    count, absence of panics in the loop, conservation of tasks, propagation of the shutdown.
  \<^item> Operations: list operations refine lists; \<open>wake\<close>, \<open>push_batch\<close>, \<open>spawn\<close>, \<open>defer\<close>, \<open>try_steal\<close>,
    \<open>shutdown_async\<close>, \<open>WorkerGuard::run\<close> act on the queues as documented and without faults; the
    tear-down drops each queued future once and frees everything but the tasks other wakers keep, for futures whose
    destructors drop any wakers, those of their own task included.
  \<^item> Start: whatever the interleaving of the builders, nobody sees a worker that is not written, the
    start ends after at most \<open>13 * n + 4\<close> steps, and its result is a complete runtime; likewise
    the event loops start after at most \<open>6 * n + 4\<close> steps.
  \<^item> The whole life of a runtime: within the obligations below, whatever the futures and the other threads do, no
    operation of it faults, the memory stays well typed, a task is held by one worker or in one queue, and \<open>run_with\<close> frees all it
    allocated but the tasks that wakers keep and the tasks that wait for a wake-up.
  \<^item> Reactor: no event is lost between a dispatcher and its task; the unchecked slab accesses, the
    assertions and the raw pointers of the event loops are safe while sockets come and go, and an event
    is never delivered to a socket that reuses the key; \<open>write\<close> sends what it reports.  The ownership of handles
    gives what the container relies on (\<open>sockets_refine\<close>), a socket is registered exactly as long as it has a
    handle, what a task borrows from a handle it can give back (\<open>half_roundtrip\<close>), the last handle closes the socket
    (\<open>last_handle_closes\<close>), and \<open>mio_shutdown\<close> returns after a bounded number of steps, because \<open>poll\<close> has a timeout.
  \<^item> The runtime with its reactor: the event loops, the dispatchers and the callbacks meet the obligations that
    \<open>Lifecycle\<close> has for the user (\<open>mio_runtime_refines\<close>), and nothing faults in a run of both crates in which the user meets the
    remaining ones; the workers are torn down after
    all loops have ended, and a dispatcher always has a live waker of a task (\<open>mio_runtime_order\<close>).  An event on
    a dispatcher that its task waits for puts the task into the batch of the loop, and on a muted one leaves the task
    alone (\<open>event_schedules_task\<close>), and the turn of the loop ends with all its batch in
    the queues of the workers (\<open>turn_flushes_batch\<close>).
  \<^item> Programs: the assertions of \<open>concurrent_wakeup\<close> never fail; the ping-pong benchmark ends after at most
    \<open>n * (4 * r + 4) + 2\<close> steps with every byte exchanged, over ideal pipes (\<open>ping_pong_ends\<close>, \<open>ping_pong_exact\<close>).
  \<^item> Deviations: the shutdown can hang (\<open>shutdown_can_hang\<close>); waking from a worker thread
    (\<open>wake_on_worker_faults\<close>) and after the tear-down (\<open>wake_after_shutdown_faults\<close>) is undefined
    behaviour; the seed's low bits never change (\<open>spawn_all_one_queue\<close>, \<open>next_seed_keeps_low_bits\<close>);
    \<open>write_all\<close> and \<open>read_exact\<close> repeat or lose bytes when they block in the middle
    (\<open>write_all_resends\<close>, \<open>read_exact_loses\<close>); tasks that wait for a wake-up are leaked by the tear-down
    (\<open>idle_task_leaks\<close>); \<open>concurrent_wakeup\<close> can hang (\<open>concurrent_wakeup_can_hang\<close>); event loops started after
    a \<open>mio_shutdown\<close> never poll (\<open>restart_never_polls\<close>).

  \<^bold>\<open>Assumptions and bounds\<close>

  Interleavings are sequentially consistent at the granularity of atomic operations, and a locked
  section is one step.  \<open>slab\<close>, \<open>mio::Poll\<close> and the socket are parameters with the laws of the locales
  \<open>slab_ops\<close>, \<open>poll_events\<close>, \<open>byte_sink\<close> and \<open>byte_source\<close>, interpreted by a vector of entries, a poll
  over the registered sockets, and a bounded pipe; \<open>poll\<close> without a timeout may block for ever, with one it may return no
  events; the connections of \<open>Ping_Pong\<close> have the laws of the locale
  \<open>pipe\<close>, ideal ones that TCP does not promise, interpreted by a pipe of one byte.  \<open>parking_lot_core\<close> is a parameter \<open>P\<close> with the two
  laws of the locale \<open>parking_lot_ops\<close>, interpreted by a queue of threads (\<open>fifo_lot\<close>).  The assumption \<open>timely\<close> of
  the scheduler is the one \<open>epoch.rs\<close> states (lines 145-150): fewer than \<open>2 ^ 23\<close> calls of
  \<open>next_epoch\<close> within \<open>MAX_DURATION\<close> of reading a status.  The allocator's answers and the clock are
  arguments.  The count of a task is a \<open>usize\<close> that wraps; in \<open>Task_Protocol\<close> a waker is cloned only
  while fewer than \<open>max_wakers = 2 ^ 60\<close> of them exist, since each takes 16 bytes of memory and none is
  forgotten (\<open>mem::forget\<close>).  \<open>for_each_task\<close> is a \<open>partial_function\<close>, and
  \<open>WorkerGuard_drop_frees\<close> shows that it ends; so are the loops of \<open>Tcp\<close>, which return once the socket
  does not block (\<open>io_poll_attempts\<close>).  In \<open>Startup\<close> allocations succeed and the clock is past 1970.
  A future is a value of a type parameter in the sequential model, and in the scheduler and in \<open>Lifecycle\<close> the environment
  chooses what it calls.  The steps of \<open>Lifecycle\<close> are whole operations: a wake-up does not overlap the tear-down or another
  operation, and how the accesses inside interleave is the subject of \<open>Task_Protocol\<close> and \<open>Scheduler\<close>.  It has obligations of the
  user as guards: on a worker thread a future invokes no waker but that of its own task, no waker is invoked after the
  tear-down (both fault), only tasks call \<open>spawn\<close> and \<open>defer\<close>, and \<open>on_shutdown\<close> ends the reactor threads.  The wakers that a
  future drops in its destructor are dropped by separate steps of their owners there; \<open>Worker_Manager\<close> has them
  inside the destructor.  The memory before the start is arbitrary.  In \<open>Reactor\<close> the obligations are met by the program as
  far as event loops, dispatchers and callbacks are concerned; the guards that remain are those for the wakers a
  task has cloned and given away (\<open>X_wake\<close>), for a future on a worker, and the ownership of wakers in dispatchers.
  In \<open>Event_Loop\<close> the \<open>deregister\<close> of a socket succeeds; \<open>container.rs\<close> ignores its error.  \<open>Sockets\<close> leaves out
  readers and writers leaked by \<open>mem::forget\<close>; in \<open>Mio_Shutdown\<close> no task touches a socket meanwhile, as \<open>run_with\<close>
  has joined the workers by then.

  \<^bold>\<open>Not modelled\<close>

  The vtable of a task (it is determined by the type of the future), the \<open>Layout\<close> of its memory, what a destructor of a
  future does besides dropping wakers, callbacks of
  \<open>run_with\<close> other than those of \<open>yaay-mio\<close>, the system calls behind \<open>bind\<close>, \<open>accept\<close> and \<open>connect\<close> (calls of \<open>mio\<close>, whose errors are passed on), an
  error of \<open>mio::Poll::poll\<close> (the loop panics), the copy of \<open>mem.rs\<close> in \<open>yaay-mio/src/helper.rs\<close>, and the
  programs of \<open>yaay-tests\<close> that measure \<open>tokio\<close>; how often \<open>bencher\<close> repeats a benchmark is a parameter.
\<close>

end
